(* ===== verification/Prelude.thy ===== *)
theory Prelude imports Main "HOL-Library.Word" begin

text \<open>
  Shared vocabulary of the development: the instants the programs exchange, the errors Go
  functions return, and generic lemmas on lists and folds that the component theories use.
  The collections \<open>text_defs\<close> (Go string routines) and \<open>store_simps\<close> (table look-ups) gather the
  facts a component offers its clients.
\<close>

named_theorems text_defs "definitions of the Go string routines"
named_theorems store_simps "look-up equations of the stored tables"

text \<open>A point in time, in milliseconds since the Unix epoch.\<close>

type_synonym instant = int

text \<open>The errors the programs return: Go's \<open>error\<close> is \<open>go_error option\<close>, \<open>None\<close> being \<open>nil\<close>.\<close>

datatype go_error =
    MarshalError      \<comment> \<open>\<open>json.Marshal\<close> refused the value\<close>
  | UnmarshalError    \<comment> \<open>\<open>json.Unmarshal\<close> or \<open>proto.Unmarshal\<close> refused the bytes\<close>
  | SendError         \<comment> \<open>\<open>SyncProducer.SendMessage\<close> failed\<close>
  | DbError           \<comment> \<open>the database reported an error\<close>
  | NoRows            \<comment> \<open>\<open>pgx.ErrNoRows\<close>\<close>
  | Unavailable       \<comment> \<open>\<open>codes.Unavailable\<close>\<close>

subsection \<open>Lists and folds\<close>

lemma fold_preserves:
  assumes "P s" and "\<And>x s. x \<in> set xs \<Longrightarrow> P s \<Longrightarrow> P (f x s)"
  shows "P (fold f xs s)"
  using assms by (induction xs arbitrary: s) auto

lemma find_Some_unique:
  assumes "distinct (map k xs)" and "x \<in> set xs"
  shows "find (\<lambda>y. k y = k x) xs = Some x"
  using assms by (induction xs) auto

lemma find_None_key: "find (\<lambda>y. k y = a) xs = None \<longleftrightarrow> a \<notin> k ` set xs"
  by (auto simp: find_None_iff)

lemma find_Some_mem: "find P xs = Some x \<Longrightarrow> x \<in> set xs \<and> P x"
  by (induction xs) (auto split: if_splits)

lemma find_mset_cong:
  assumes "distinct (map k xs)" and "set xs = set ys" and "distinct (map k ys)"
  shows "find (\<lambda>y. k y = a) xs = find (\<lambda>y. k y = a) ys"
proof (cases "a \<in> k ` set xs")
  case True
  then obtain x where "x \<in> set xs" and "a = k x" by blast
  with assms show ?thesis by (metis find_Some_unique)
next
  case False
  with assms(2) show ?thesis by (metis find_None_key)
qed

lemma length_filter_mono:
  "(\<And>x. x \<in> set xs \<Longrightarrow> P x \<Longrightarrow> Q x) \<Longrightarrow> length (filter P xs) \<le> length (filter Q xs)"
  by (induction xs) (auto intro: le_SucI)

lemma last_butlast_sum:
  "xs \<noteq> [] \<Longrightarrow> sum_list (map f (butlast xs)) + f (last xs) = (sum_list (map f xs) :: nat)"
  by (induction xs) auto

end
