(* ===== verification/ConnLog.thy ===== *)
theory ConnLog imports Prelude begin

text \<open>
  The connection wrapper of \<open>collector/main.go\<close> that logs the first bytes of every connection.
  \<open>conn_read\<close> is \<open>connLogConn.Read\<close> after the wrapped \<open>Read\<close> returned the bytes \<open>b\<close>: the new
  counter and the log line, if any. The counter is a natural number (a Go \<open>int\<close> would wrap after
  2 ^ 63 bytes on one connection).
\<close>

record conn_log =
  total :: nat
  maxDump :: nat

record dump_line =
  dFrom :: nat
  dTo :: nat
  dBytes :: "8 word list"

definition accept_conn :: conn_log where
  "accept_conn = \<lparr>total = 0, maxDump = 2048\<rparr>"

definition conn_read :: "8 word list \<Rightarrow> conn_log \<Rightarrow> conn_log \<times> dump_line option" where
  "conn_read b c =
     (let n = length b in
      if n > 0 then
        (c\<lparr>total := total c + n\<rparr>,
         if total c < maxDump c then
           let end' = total c + n;
               end = (if end' > maxDump c then maxDump c else end')
           in Some \<lparr>dFrom = total c, dTo = end, dBytes = take (end - total c) b\<rparr>
         else None)
      else (c, None))"

fun conn_reads :: "8 word list list \<Rightarrow> conn_log \<Rightarrow> conn_log \<times> dump_line list" where
  "conn_reads [] c = (c, [])"
| "conn_reads (b # bs) c =
     (let (c', line) = conn_read b c; (c'', ls) = conn_reads bs c'
      in (c'', case line of None \<Rightarrow> ls | Some l \<Rightarrow> l # ls))"

lemma conn_read_total [simp]:
  "total (fst (conn_read b c)) = total c + length b"
  "maxDump (fst (conn_read b c)) = maxDump c"
  by (auto simp: conn_read_def Let_def)

lemma conn_reads_Cons:
  "snd (conn_reads (b # bs) c) =
     (case snd (conn_read b c) of None \<Rightarrow> [] | Some l \<Rightarrow> [l])
       @ snd (conn_reads bs (fst (conn_read b c)))"
  by (simp add: split_def Let_def split: option.split)

lemma conn_reads_bytes:
  "concat (map dBytes (snd (conn_reads bs c))) = take (maxDump c - total c) (concat bs)"
proof (induction bs arbitrary: c)
  case (Cons b bs)
  have IH: "concat (map dBytes (snd (conn_reads bs (fst (conn_read b c))))) =
              take (maxDump c - (total c + length b)) (concat bs)"
    using Cons.IH [of "fst (conn_read b c)"] by simp
  show ?case
    unfolding conn_reads_Cons map_append concat_append IH
    by (auto simp: conn_read_def Let_def)
qed simp

lemma conn_reads_ranges:
  "l \<in> set (snd (conn_reads bs c)) \<Longrightarrow>
     total c \<le> dFrom l \<and> dFrom l < dTo l \<and> dTo l \<le> maxDump c \<and> length (dBytes l) = dTo l - dFrom l"
proof (induction bs arbitrary: c)
  case (Cons b bs)
  have "l \<in> set (case snd (conn_read b c) of None \<Rightarrow> [] | Some l \<Rightarrow> [l]) \<or>
        l \<in> set (snd (conn_reads bs (fst (conn_read b c))))"
    using Cons.prems unfolding conn_reads_Cons by auto
  then show ?case
  proof
    assume "l \<in> set (case snd (conn_read b c) of None \<Rightarrow> [] | Some l \<Rightarrow> [l])"
    then show ?thesis by (auto simp: conn_read_def Let_def split: if_splits)
  next
    assume "l \<in> set (snd (conn_reads bs (fst (conn_read b c))))"
    from Cons.IH [OF this] show ?thesis by simp
  qed
qed simp

subsection \<open>Properties\<close>

text \<open>However a connection is cut into reads, the dump lines show exactly its first 2048 bytes,
  in order and each once; every line is non-empty and its offsets match its bytes.\<close>

theorem conn_log_first_bytes:
  "concat (map dBytes (snd (conn_reads bs accept_conn))) = take 2048 (concat bs) \<and>
   list_all (\<lambda>l. dFrom l < dTo l \<and> dTo l \<le> 2048 \<and> length (dBytes l) = dTo l - dFrom l)
     (snd (conn_reads bs accept_conn))"
  using conn_reads_bytes [of bs accept_conn] conn_reads_ranges [of _ bs accept_conn]
  by (auto simp: accept_conn_def list_all_iff)

end
