(* ===== verification/Telemetry.thy ===== *)
theory Telemetry imports GoText begin

text \<open>
  The protobuf messages a device sends (\<open>proto/telemetry.pb.go\<close>): the recursive GPB-KV field, the
  telemetry envelope, the dial-out wrapper, and the generated accessors. A decoded repeated field
  holds no nil pointer, so a field node is a value. Floating point payloads are kept as their bit
  patterns: no accessor of the programs reads them.
\<close>

datatype field_value =
    BytesValue "8 word list"
  | StringValue string
  | BoolValue bool
  | Uint32Value "32 word"
  | Uint64Value "64 word"
  | Sint32Value "32 word"
  | Sint64Value "64 word"
  | DoubleValue "64 word"
  | FloatValue "32 word"

datatype telemetry_field =
  TelemetryField
    (fTimestamp: "64 word")
    (fName: string)
    (fFields: "telemetry_field list")
    (fValueByType: "field_value option")

record telemetry =
  NodeIdStr :: string
  SubscriptionIdStr :: string
  EncodingPath :: string
  CollectionId :: "64 word"
  CollectionStartTime :: "64 word"
  MsgTimestamp :: "64 word"
  DataGpbkv :: "telemetry_field list"

text \<open>The generated accessors return the zero value when another member of the oneof is set.\<close>

definition GetStringValue :: "telemetry_field \<Rightarrow> string" where
  "GetStringValue f = (case fValueByType f of Some (StringValue s) \<Rightarrow> s | _ \<Rightarrow> [])"

definition GetUint32Value :: "telemetry_field \<Rightarrow> 32 word" where
  "GetUint32Value f = (case fValueByType f of Some (Uint32Value n) \<Rightarrow> n | _ \<Rightarrow> 0)"

text \<open>Leaves and containers, as the serializers build them.\<close>

abbreviation leaf :: "string \<Rightarrow> field_value \<Rightarrow> telemetry_field" where
  "leaf n v \<equiv> TelemetryField 0 n [] (Some v)"

abbreviation container :: "string \<Rightarrow> telemetry_field list \<Rightarrow> telemetry_field" where
  "container n fs \<equiv> TelemetryField 0 n fs None"

lemma getters_leaf [simp]:
  "GetStringValue (leaf n (StringValue s)) = s"
  "GetUint32Value (leaf n (Uint32Value v)) = v"
  "GetUint32Value (leaf n (StringValue s)) = 0"
  "GetStringValue (leaf n (Uint32Value v)) = []"
  by (simp_all add: GetStringValue_def GetUint32Value_def)

lemma size_child: "g \<in> set (fFields f) \<Longrightarrow> size g < size f"
  by (cases f) (auto dest: size_list_estimation' [where f = size, OF _ order_refl])

lemma size_fields: "sum_list (map size (fFields f)) < size f"
  by (cases f) (auto simp: size_list_conv_sum_list)

end
