(* ===== verification/GoTime.thy ===== *)
theory GoTime imports GoText "HOL-Library.Monad_Syntax" begin

text \<open>
  The text of a time in JSON: what \<open>time.Time.MarshalJSON\<close> writes for an instant in UTC, in the layout
  RFC 3339 with as many digits of the fraction as needed, and what \<open>UnmarshalJSON\<close> accepts and makes of
  it. Instants count milliseconds here; finer digits of a fraction are dropped on reading.
\<close>

subsection \<open>The calendar\<close>

definition leap_year :: "nat \<Rightarrow> bool" where
  "leap_year y \<longleftrightarrow> y mod 4 = 0 \<and> (y mod 100 \<noteq> 0 \<or> y mod 400 = 0)"

text \<open>Days from 1 January of year 0 to 1 January of year \<open>y\<close>.\<close>

definition days_before :: "nat \<Rightarrow> nat" where
  "days_before y = 365 * y + (y + 3) div 4 - (y + 99) div 100 + (y + 399) div 400"

lemma days_before_Suc: "days_before (Suc y) = days_before y + (if leap_year y then 366 else 365)"
proof -
  have step: "Suc (y + n) div Suc n = (y + n) div Suc n + (if y mod Suc n = 0 then 1 else 0)" for n
  proof -
    have "Suc (y + n) mod Suc n = y mod Suc n" using mod_add_self2 [of y "Suc n"] by simp
    then show ?thesis by (simp only: div_Suc) simp
  qed
  have sub: "(y + 99) div 100 \<le> y"
    by (rule less_Suc_eq_le [THEN iffD1], rule less_mult_imp_div_less) simp
  have m: "y mod 400 = 0 \<Longrightarrow> y mod 100 = 0" "y mod 100 = 0 \<Longrightarrow> y mod 4 = 0"
    unfolding mod_eq_0_iff_dvd by (rule dvd_trans [of _ 400], simp, assumption) (rule dvd_trans [of _ 100], simp, assumption)
  define a b c where "a = (y + 3) div 4" and "b = (y + 99) div 100" and "c = (y + 399) div 400"
  have "days_before (Suc y) = 365 * Suc y + Suc (y + 3) div 4 - Suc (y + 99) div 100 + Suc (y + 399) div 400"
    by (simp add: days_before_def)
  also have "\<dots> = 365 * Suc y + (a + (if y mod 4 = 0 then 1 else 0)) - (b + (if y mod 100 = 0 then 1 else 0)) +
      (c + (if y mod 400 = 0 then 1 else 0))"
  proof -
    have "Suc (y + 3) div 4 = a + (if y mod 4 = 0 then 1 else 0)"
      "Suc (y + 99) div 100 = b + (if y mod 100 = 0 then 1 else 0)"
      "Suc (y + 399) div 400 = c + (if y mod 400 = 0 then 1 else 0)"
      using step [of 3] step [of 99] step [of 399] unfolding a_def b_def c_def by (simp_all only: Suc_numeral add_num_simps)
    then show ?thesis by (simp only:)
  qed
  also have "\<dots> = 365 * y + a - b + c + (if leap_year y then 366 else 365)"
  proof -
    have "b \<le> y" using sub by (simp add: b_def)
    then have "365 * Suc y + (a + (if P then 1 else 0)) - (b + (if Q then 1 else 0)) + (c + (if R then 1 else 0)) =
        365 * y + a - b + c + (if P \<and> (\<not> Q \<or> R) then 366 else 365)" if "Q \<Longrightarrow> P" "R \<Longrightarrow> Q" for P Q R
      using that by (cases P; cases Q; cases R) simp_all
    from this [OF m(2,1)] show ?thesis unfolding leap_year_def by (simp only:)
  qed
  finally show ?thesis by (simp only: days_before_def [of y] a_def b_def c_def)
qed

lemma days_before_ge: "y \<le> days_before y"
  by (induction y) (simp_all add: days_before_Suc)

lemma days_before_mono: "y \<le> z \<Longrightarrow> days_before y \<le> days_before z"
  by (rule lift_Suc_mono_le [of days_before]) (simp_all add: days_before_Suc)

text \<open>The year a day lies in, looked for from a year that is not later.\<close>

function find_year :: "nat \<Rightarrow> nat \<Rightarrow> nat" where
  "find_year y d = (if d < days_before (Suc y) then y else find_year (Suc y) d)"
  by pat_completeness auto

termination find_year
proof (relation "measure (\<lambda>(y, d). Suc d - y)")
  fix y d assume "\<not> d < days_before (Suc y)"
  with days_before_ge [of "Suc y"] show "((Suc y, d), (y, d)) \<in> measure (\<lambda>(y, d). Suc d - y)" by simp
qed simp

declare find_year.simps [simp del]

definition year_of :: "nat \<Rightarrow> nat" where
  "year_of d = find_year (d div 366) d"

lemma find_year_bounds:
  "days_before y \<le> d \<Longrightarrow> days_before (find_year y d) \<le> d \<and> d < days_before (Suc (find_year y d))"
proof (induction y d rule: find_year.induct)
  case (1 y d)
  then show ?case by (subst (1 2) find_year.simps) auto
qed

lemma days_before_le: "days_before y \<le> 366 * y"
  by (induction y) (simp add: days_before_def, simp add: days_before_Suc)

lemma year_of_bounds: "days_before (year_of d) \<le> d \<and> d < days_before (Suc (year_of d))"
proof -
  have "days_before (d div 366) \<le> 366 * (d div 366)" by (rule days_before_le)
  also have "\<dots> \<le> d" by simp
  finally show ?thesis unfolding year_of_def by (rule find_year_bounds)
qed

definition month_lengths :: "nat \<Rightarrow> nat list" where
  "month_lengths y = [31, if leap_year y then 29 else 28, 31, 30, 31, 30, 31, 31, 30, 31, 30, 31]"

text \<open>Month and day of the month, both from 1, of a day of the year, from 0.\<close>

fun month_day :: "nat list \<Rightarrow> nat \<Rightarrow> nat \<times> nat" where
  "month_day [] d = (1, Suc d)"
| "month_day (l # ls) d = (if d < l then (1, Suc d) else case month_day ls (d - l) of (m, k) \<Rightarrow> (Suc m, k))"

definition date_of :: "nat \<Rightarrow> nat \<times> nat \<times> nat" where
  "date_of d = (let y = year_of d in (y, month_day (month_lengths y) (d - days_before y)))"

text \<open>The day number of a date; \<open>None\<close> when the calendar has no such date.\<close>

definition day_number :: "nat \<Rightarrow> nat \<Rightarrow> nat \<Rightarrow> nat option" where
  "day_number y m d =
     (if 1 \<le> m \<and> m \<le> 12 \<and> 1 \<le> d \<and> d \<le> month_lengths y ! (m - 1)
      then Some (days_before y + sum_list (take (m - 1) (month_lengths y)) + (d - 1)) else None)"

lemma month_day_inverse:
  assumes "month_day ls d = (m, k)" and "d < sum_list ls"
  shows "1 \<le> m \<and> m \<le> length ls \<and> 1 \<le> k \<and> k \<le> ls ! (m - 1) \<and> sum_list (take (m - 1) ls) + (k - 1) = d"
  using assms
proof (induction ls d arbitrary: m k rule: month_day.induct)
  case (2 l ls d)
  show ?case
  proof (cases "d < l")
    case False
    obtain m' k' where r: "month_day ls (d - l) = (m', k')" by fastforce
    from False 2(3) have "d - l < sum_list ls" by simp
    with 2(1) [OF False r] 2(2) r False show ?thesis by (auto simp: nth_Cons' take_Cons')
  qed (use 2 in auto)
qed simp

lemma day_number_date_of:
  "date_of n = (y, m, d) \<Longrightarrow> day_number y m d = Some n \<and> 1 \<le> m \<and> m \<le> 12 \<and> 1 \<le> d \<and> d \<le> 31"
proof -
  assume "date_of n = (y, m, d)"
  then have y: "y = year_of n" and md: "month_day (month_lengths y) (n - days_before y) = (m, d)"
    by (auto simp: date_of_def Let_def)
  have "sum_list (month_lengths y) = (if leap_year y then 366 else 365)" by (simp add: month_lengths_def)
  with year_of_bounds [of n] have "n - days_before y < sum_list (month_lengths y)" and le: "days_before y \<le> n"
    by (auto simp: y days_before_Suc less_diff_conv2 split: if_splits)
  from month_day_inverse [OF md this(1)] have inv: "1 \<le> m" "m \<le> 12" "1 \<le> d" "d \<le> month_lengths y ! (m - 1)"
    "sum_list (take (m - 1) (month_lengths y)) + (d - 1) = n - days_before y"
    by (simp_all add: month_lengths_def)
  have "month_lengths y ! i \<in> {28, 29, 30, 31}" if "i < 12" for i
    using that nth_mem [of i "month_lengths y"] by (auto simp: month_lengths_def split: if_splits)
  moreover have "m - 1 < 12" using inv(1,2) by simp
  ultimately have "month_lengths y ! (m - 1) \<in> {28, 29, 30, 31}" .
  then have "d \<le> 31" using inv(4) by auto
  with inv le show ?thesis by (simp add: day_number_def)
qed

subsection \<open>Writing\<close>

definition two_digits :: "nat \<Rightarrow> string" where
  "two_digits n = [digit_char (n div 10 mod 10), digit_char (n mod 10)]"

definition three_digits :: "nat \<Rightarrow> string" where
  "three_digits n = digit_char (n div 100 mod 10) # two_digits n"

definition four_digits :: "nat \<Rightarrow> string" where
  "four_digits n = two_digits (n div 100) @ two_digits n"

text \<open>The fraction of a second in milliseconds, without trailing zeros.\<close>

definition fraction_text :: "nat \<Rightarrow> string" where
  "fraction_text ms =
     (if ms = 0 then []
      else CHR ''.'' # (if ms mod 100 = 0 then [digit_char (ms div 100)]
                        else if ms mod 10 = 0 then two_digits (ms div 10) else three_digits ms))"

text \<open>Milliseconds from year 0 to the Unix epoch.\<close>

definition epoch_offset :: int where "epoch_offset = 62167219200000"

definition rfc3339 :: "instant \<Rightarrow> string" where
  "rfc3339 t =
     (let n = nat (t + epoch_offset); r = n mod 86400000 in
      case date_of (n div 86400000) of (y, m, d) \<Rightarrow>
        four_digits y @ ''-'' @ two_digits m @ ''-'' @ two_digits d @ ''T'' @
        two_digits (r div 3600000) @ '':'' @ two_digits (r div 60000 mod 60) @ '':'' @
        two_digits (r div 1000 mod 60) @ fraction_text (r mod 1000) @ ''Z'')"

subsection \<open>Reading\<close>

definition take_num :: "nat \<Rightarrow> nat \<Rightarrow> string \<Rightarrow> (nat \<times> string) option" where
  "take_num k hi s =
     (let ds = take k s in
      if length ds = k \<and> list_all is_digit ds \<and> dec_val ds \<le> hi then Some (dec_val ds, drop k s) else None)"

definition expect :: "char \<Rightarrow> string \<Rightarrow> string option" where
  "expect c s = (case s of [] \<Rightarrow> None | x # r \<Rightarrow> if x = c then Some r else None)"

definition take_fraction :: "string \<Rightarrow> nat \<times> string" where
  "take_fraction s =
     (case s of
        c # d # r \<Rightarrow>
          if c = CHR ''.'' \<and> is_digit d
          then (dec_val (take 3 (takeWhile is_digit (d # r) @ ''00'')), dropWhile is_digit (d # r))
          else (0, s)
      | _ \<Rightarrow> (0, s))"

text \<open>Minutes east of UTC.\<close>

definition zone_offset :: "string \<Rightarrow> int option" where
  "zone_offset s =
     (if s = ''Z'' then Some 0
      else case s of
        [] \<Rightarrow> None
      | c # r \<Rightarrow>
          if c \<noteq> CHR ''+'' \<and> c \<noteq> CHR ''-'' then None
          else do {
            (h, r) \<leftarrow> take_num 2 23 r;
            r \<leftarrow> expect CHR '':'' r;
            (m, r) \<leftarrow> take_num 2 59 r;
            if r = [] then Some ((if c = CHR ''-'' then -1 else 1) * (int h * 60 + int m)) else None
          })"

definition parse_rfc3339 :: "string \<Rightarrow> instant option" where
  "parse_rfc3339 s =
     do {
       (y, s) \<leftarrow> take_num 4 9999 s;
       s \<leftarrow> expect CHR ''-'' s;
       (m, s) \<leftarrow> take_num 2 12 s;
       s \<leftarrow> expect CHR ''-'' s;
       (d, s) \<leftarrow> take_num 2 31 s;
       s \<leftarrow> expect CHR ''T'' s;
       (hour, s) \<leftarrow> take_num 2 23 s;
       s \<leftarrow> expect CHR '':'' s;
       (minute, s) \<leftarrow> take_num 2 59 s;
       s \<leftarrow> expect CHR '':'' s;
       (sec, s) \<leftarrow> take_num 2 59 s;
       let (ms, s) = take_fraction s;
       off \<leftarrow> zone_offset s;
       day \<leftarrow> day_number y m d;
       Some (int (((day * 24 + hour) * 60 + minute) * 60 + sec) * 1000 + int ms - off * 60000 - epoch_offset)
     }"

subsection \<open>What is written is read\<close>

lemma dec_val_lists: "dec_val [] = 0" "dec_val (xs @ [c]) = 10 * dec_val xs + digit_val c"
  "dec_val [c] = digit_val c" "dec_val [b, c] = 10 * digit_val b + digit_val c"
  "dec_val [a, b, c] = 100 * digit_val a + 10 * digit_val b + digit_val c"
  "dec_val [z, a, b, c] = 1000 * digit_val z + 100 * digit_val a + 10 * digit_val b + digit_val c"
  by (simp_all add: dec_val_def)

lemma take_two [simp]:
  assumes "n \<le> hi" and "hi < 100"
  shows "take_num 2 hi (two_digits n @ r) = Some (n, r)"
proof -
  have "n div 10 < 10" using assms by simp
  with assms show ?thesis by (simp add: take_num_def two_digits_def dec_val_lists)
qed

lemma take_four [simp]:
  assumes "n \<le> 9999"
  shows "take_num 4 9999 (four_digits n @ r) = Some (n, r)"
proof -
  define q p where "q = n div 10" and "p = q div 10"
  have p: "n div 100 = p" by (simp add: p_def q_def flip: div_mult2_eq)
  then have small: "p div 10 < 10" using assms by (simp add: less_mult_imp_div_less)
  have "1000 * a + 100 * b + 10 * c + d = 10 * (10 * (10 * a + b) + c) + d" for a b c d :: nat by simp
  then have "1000 * (p div 10) + 100 * (p mod 10) + 10 * (q mod 10) + n mod 10 = n"
    by (simp only: mult_div_mod_eq p_def q_def)
  then have "1000 * (n div 100 div 10 mod 10) + 100 * (n div 100 mod 10) + 10 * (n div 10 mod 10) + n mod 10 = n"
    using small by (simp add: p q_def [symmetric])
  with assms show ?thesis by (simp add: take_num_def four_digits_def two_digits_def dec_val_lists)
qed

lemma expect_Cons [simp]: "expect c (c # r) = Some r"
  by (simp add: expect_def)

lemma take_fraction_text:
  assumes "ms < 1000"
  shows "take_fraction (fraction_text ms @ ''Z'') = (ms, ''Z'')"
proof -
  have z: "\<not> is_digit CHR ''Z''" "digit_val CHR ''0'' = 0" by (simp_all add: is_digit_def digit_val_def)
  have d: "ms div 10 div 10 = ms div 100" by (simp flip: div_mult2_eq)
  have three: "100 * (ms div 100) + 10 * (ms div 10 mod 10) + ms mod 10 = ms" "ms div 100 < 10"
    using assms d div_mult_mod_eq [of ms 10] div_mult_mod_eq [of "ms div 10" 10] by linarith+
  have two: "ms mod 100 = 0 \<Longrightarrow> 100 * (ms div 100) = ms" by auto
  show ?thesis
    using three two d by (simp add: fraction_text_def take_fraction_def z two_digits_def three_digits_def dec_val_lists)
qed

lemma parse_rfc3339_text:
  assumes "0 \<le> t + epoch_offset" and "t + epoch_offset < 315569520000000"
  shows "parse_rfc3339 (rfc3339 t) = Some t"
proof -
  define n where "n = nat (t + epoch_offset)"
  define r where "r = n mod 86400000"
  obtain y m d where date: "date_of (n div 86400000) = (y, m, d)" by (metis prod_cases3)
  from day_number_date_of [OF date] have day: "day_number y m d = Some (n div 86400000)"
    and md: "m \<le> 12" "d \<le> 31" by simp_all
  have n: "n < 315569520000000" using assms by (simp add: n_def)
  have year: "y \<le> 9999"
  proof (rule ccontr)
    assume "\<not> y \<le> 9999"
    then have "days_before 10000 \<le> days_before y" by (intro days_before_mono) simp
    also have "\<dots> \<le> n div 86400000"
      using year_of_bounds [of "n div 86400000"] date by (simp add: date_of_def Let_def)
    finally show False using n by (simp add: days_before_def)
  qed
  have r: "r < 86400000" by (simp add: r_def)
  then have clock: "r div 3600000 \<le> 23" "r div 60000 mod 60 \<le> 59" "r div 1000 mod 60 \<le> 59" "r mod 1000 < 1000"
    by (simp_all add: less_mult_imp_div_less flip: less_Suc_eq_le)
  have "r div 60000 = r div 1000 div 60" "r div 3600000 = r div 1000 div 60 div 60" by (simp_all flip: div_mult2_eq)
  then have secs: "(r div 3600000 * 60 + r div 60000 mod 60) * 60 + r div 1000 mod 60 = r div 1000"
    using div_mult_mod_eq [of "r div 1000" 60] div_mult_mod_eq [of "r div 1000 div 60" 60] by simp
  have split: "(((k * 24 + h) * 60 + mi) * 60 + se) * 1000 + ms = k * 86400000 + ((h * 60 + mi) * 60 + se) * 1000 + ms"
    for k h mi se ms :: nat by simp
  have sum: "(((n div 86400000 * 24 + r div 3600000) * 60 + r div 60000 mod 60) * 60 + r div 1000 mod 60) *
      1000 + r mod 1000 = n"
    unfolding split secs by (simp add: r_def)
  have "int ((((n div 86400000 * 24 + r div 3600000) * 60 + r div 60000 mod 60) * 60 + r div 1000 mod 60)) * 1000 +
      int (r mod 1000) - epoch_offset = t"
    using assms(1) arg_cong [OF sum, of int] unfolding n_def by simp
  then show ?thesis
    unfolding rfc3339_def Let_def n_def [symmetric] r_def [symmetric] date
    using clock md year day
    by (simp add: parse_rfc3339_def take_fraction_text zone_offset_def Let_def)
qed

end
