(* ===== verification/Payload.thy ===== *)
theory Payload imports GoTime begin

text \<open>
  What travels over Kafka: the payload structs of \<open>collector/main.go\<close> and \<open>consumer/main.go\<close>, and
  the JSON values \<open>json.Marshal\<close> writes for the former and \<open>json.Unmarshal\<close> reads into the latter.
  JSON is a tree of values here; \<open>JsonText\<close> has its text. \<open>JTime t\<close> stands for the string literal
  \<open>rfc3339 t\<close>.
\<close>

subsection \<open>Payload structs\<close>

record mac_entry =
  mTimestamp :: instant
  mNodeID :: string
  mMacAddress :: string
  mInterface :: string
  mVlan :: "32 word"
  mType :: string

record vlan_entry =
  vTimestamp :: instant
  vNodeID :: string
  vVlanID :: "32 word"
  vName :: "string option"
  vStatus :: string

record arp_entry =
  aTimestamp :: instant
  aNodeID :: string
  aIPAddress :: string
  aMacAddress :: string
  aInterface :: string
  aAge :: "32 word"

record if_entry =
  iTimestamp :: instant
  iNodeID :: string
  iName :: string
  iDescription :: "string option"
  iShutdown :: bool
  iIPAddress :: "string option"
  iPrefixLen :: "int option"
  iVRF :: string
  iMTU :: "32 word"
  iAccessVlan :: "16 word option"
  iVoiceVlan :: "16 word option"

text \<open>The consumer's interface struct: every optional field is a pointer.\<close>

record if_entry_in =
  jTimestamp :: instant
  jNodeID :: string
  jName :: string
  jDescription :: "string option"
  jShutdown :: "bool option"
  jIPAddress :: "string option"
  jPrefixLen :: "int option"
  jVRF :: "string option"
  jMTU :: "32 word option"
  jAccessVlan :: "16 word option"
  jVoiceVlan :: "16 word option"

subsection \<open>JSON values\<close>

datatype json =
    JNull
  | JBool bool
  | JNum int
  | JFrac string          \<comment> \<open>a number literal with a fraction or an exponent, or \<open>-0\<close>\<close>
  | JStr string
  | JTime instant
  | JArr "json list"
  | JObj "(string \<times> json) list"

text \<open>\<open>time.Time.MarshalJSON\<close> refuses years outside 0 to 9999 (in the process's zone, UTC).\<close>

definition year_ok :: "instant \<Rightarrow> bool" where
  "year_ok t \<longleftrightarrow> -62167219200000 \<le> t \<and> t < 253402300800000"

definition j_opt :: "('a \<Rightarrow> json) \<Rightarrow> 'a option \<Rightarrow> json" where
  "j_opt f x = (case x of None \<Rightarrow> JNull | Some v \<Rightarrow> f v)"

definition mac_json :: "mac_entry \<Rightarrow> json" where
  "mac_json e = JObj
     [(''timestamp'', JTime (mTimestamp e)),
      (''node_id'', JStr (mNodeID e)),
      (''mac_address'', JStr (mMacAddress e)),
      (''interface'', JStr (mInterface e)),
      (''vlan'', JNum (uint (mVlan e))),
      (''type'', JStr (mType e))]"

definition vlan_json :: "vlan_entry \<Rightarrow> json" where
  "vlan_json e = JObj
     ([(''timestamp'', JTime (vTimestamp e)),
       (''node_id'', JStr (vNodeID e)),
       (''vlan_id'', JNum (uint (vVlanID e)))]
      @ (case vName e of None \<Rightarrow> [] | Some n \<Rightarrow> [(''name'', JStr n)])
      @ (if vStatus e = [] then [] else [(''status'', JStr (vStatus e))]))"

definition arp_json :: "arp_entry \<Rightarrow> json" where
  "arp_json e = JObj
     [(''timestamp'', JTime (aTimestamp e)),
      (''node_id'', JStr (aNodeID e)),
      (''ip_address'', JStr (aIPAddress e)),
      (''mac_address'', JStr (aMacAddress e)),
      (''interface'', JStr (aInterface e)),
      (''age'', JNum (uint (aAge e)))]"

definition if_json :: "if_entry \<Rightarrow> json" where
  "if_json e = JObj
     ([(''timestamp'', JTime (iTimestamp e)),
       (''node_id'', JStr (iNodeID e)),
       (''name'', JStr (iName e)),
       (''description'', j_opt JStr (iDescription e)),
       (''shutdown'', JBool (iShutdown e)),
       (''ip_address'', j_opt JStr (iIPAddress e)),
       (''prefix_len'', j_opt JNum (iPrefixLen e))]
      @ (if iVRF e = [] then [] else [(''vrf'', JStr (iVRF e))])
      @ (if iMTU e = 0 then [] else [(''mtu'', JNum (uint (iMTU e)))])
      @ [(''access_vlan'', j_opt (\<lambda>v. JNum (uint v)) (iAccessVlan e)),
         (''voice_vlan'', j_opt (\<lambda>v. JNum (uint v)) (iVoiceVlan e))])"

text \<open>\<open>json.Marshal\<close> of a value whose time fields are \<open>ts\<close>.\<close>

definition marshal :: "instant list \<Rightarrow> json \<Rightarrow> go_error + json" where
  "marshal ts v = (if list_all year_ok ts then Inr v else Inl MarshalError)"

subsection \<open>Reading JSON into a struct\<close>

text \<open>
  \<open>encoding/json\<close> matches object keys to field names up to letter case; the two non-ASCII runes
  that fold to ASCII letters are the long s (C5 BF) and the Kelvin sign (E2 84 AA).
\<close>

fun fold_name :: "string \<Rightarrow> string" where
  "fold_name (c # d # e # s) =
     (if byte_of c = 226 \<and> byte_of d = 132 \<and> byte_of e = 170 then CHR ''K'' # fold_name s
      else if byte_of c = 197 \<and> byte_of d = 191 then CHR ''S'' # fold_name (e # s)
      else (if 97 \<le> byte_of c \<and> byte_of c \<le> 122 then char_of (byte_of c - 32) else c)
             # fold_name (d # e # s))"
| "fold_name (c # d # []) =
     (if byte_of c = 197 \<and> byte_of d = 191 then [CHR ''S'']
      else (if 97 \<le> byte_of c \<and> byte_of c \<le> 122 then char_of (byte_of c - 32) else c)
             # fold_name [d])"
| "fold_name (c # []) =
     [if 97 \<le> byte_of c \<and> byte_of c \<le> 122 then char_of (byte_of c - 32) else c]"
| "fold_name [] = []"

definition key_is :: "string \<Rightarrow> string \<Rightarrow> bool" where
  "key_is k name \<longleftrightarrow> fold_name k = fold_name name"

text \<open>
  Storing a JSON value in a field. \<open>None\<close> is a type or range error; \<open>null\<close> leaves a value field
  as it is and sets a pointer field to nil.
\<close>

definition string_value :: "string \<Rightarrow> json \<Rightarrow> string option" where
  "string_value old v = (case v of JStr s \<Rightarrow> Some s | JTime t \<Rightarrow> Some (rfc3339 t) | JNull \<Rightarrow> Some old | _ \<Rightarrow> None)"

definition time_value :: "instant \<Rightarrow> json \<Rightarrow> instant option" where
  "time_value old v = (case v of JTime t \<Rightarrow> Some t | JStr s \<Rightarrow> parse_rfc3339 s | JNull \<Rightarrow> Some old | _ \<Rightarrow> None)"

definition uint_value :: "'a::len word \<Rightarrow> json \<Rightarrow> 'a word option" where
  "uint_value old v =
     (case v of
        JNum n \<Rightarrow> (if 0 \<le> n \<and> n < 2 ^ LENGTH('a) then Some (word_of_int n) else None)
      | JNull \<Rightarrow> Some old
      | _ \<Rightarrow> None)"

definition string_ptr :: "json \<Rightarrow> string option option" where
  "string_ptr v =
     (case v of JStr s \<Rightarrow> Some (Some s) | JTime t \<Rightarrow> Some (Some (rfc3339 t)) | JNull \<Rightarrow> Some None | _ \<Rightarrow> None)"

definition bool_ptr :: "json \<Rightarrow> bool option option" where
  "bool_ptr v = (case v of JBool b \<Rightarrow> Some (Some b) | JNull \<Rightarrow> Some None | _ \<Rightarrow> None)"

definition int_ptr :: "json \<Rightarrow> int option option" where
  "int_ptr v =
     (case v of
        JNum n \<Rightarrow> (if - (2 ^ 63) \<le> n \<and> n < 2 ^ 63 then Some (Some n) else None)
      | JFrac s \<Rightarrow> (if s = ''-0'' then Some (Some 0) else None)
      | JNull \<Rightarrow> Some None
      | _ \<Rightarrow> None)"

definition uint_ptr :: "json \<Rightarrow> 'a::len word option option" where
  "uint_ptr v =
     (case v of
        JNum n \<Rightarrow> (if 0 \<le> n \<and> n < 2 ^ LENGTH('a) then Some (Some (word_of_int n)) else None)
      | JNull \<Rightarrow> Some None
      | _ \<Rightarrow> None)"

text \<open>Members are stored in their order, so of two members for one field the later one wins.\<close>

definition unmarshal_struct ::
    "('e \<Rightarrow> string \<times> json \<Rightarrow> 'e option) \<Rightarrow> 'e \<Rightarrow> json \<Rightarrow> 'e option" where
  "unmarshal_struct store zero v =
     (case v of
        JObj ms \<Rightarrow> fold (\<lambda>m acc. Option.bind acc (\<lambda>e. store e m)) ms (Some zero)
      | JNull \<Rightarrow> Some zero
      | _ \<Rightarrow> None)"

definition unmarshal_slice :: "(json \<Rightarrow> 'e option) \<Rightarrow> json \<Rightarrow> 'e list option" where
  "unmarshal_slice elem v =
     (case v of JArr vs \<Rightarrow> those (map elem vs) | JNull \<Rightarrow> Some [] | _ \<Rightarrow> None)"

text \<open>Go's zero \<open>time.Time\<close>: 1 January of year 1, UTC.\<close>

definition zero_time :: instant where
  "zero_time = -62135596800000"

definition zero_mac :: mac_entry where
  "zero_mac = \<lparr>mTimestamp = zero_time, mNodeID = [], mMacAddress = [], mInterface = [],
     mVlan = 0, mType = []\<rparr>"

definition store_mac :: "mac_entry \<Rightarrow> string \<times> json \<Rightarrow> mac_entry option" where
  "store_mac e m =
     (let k = fst m; v = snd m in
      if key_is k ''timestamp'' then
        map_option (\<lambda>x. e\<lparr>mTimestamp := x\<rparr>) (time_value (mTimestamp e) v)
      else if key_is k ''node_id'' then
        map_option (\<lambda>x. e\<lparr>mNodeID := x\<rparr>) (string_value (mNodeID e) v)
      else if key_is k ''mac_address'' then
        map_option (\<lambda>x. e\<lparr>mMacAddress := x\<rparr>) (string_value (mMacAddress e) v)
      else if key_is k ''interface'' then
        map_option (\<lambda>x. e\<lparr>mInterface := x\<rparr>) (string_value (mInterface e) v)
      else if key_is k ''vlan'' then
        map_option (\<lambda>x. e\<lparr>mVlan := x\<rparr>) (uint_value (mVlan e) v)
      else if key_is k ''type'' then
        map_option (\<lambda>x. e\<lparr>mType := x\<rparr>) (string_value (mType e) v)
      else Some e)"

definition unmarshal_mac :: "json \<Rightarrow> mac_entry option" where
  "unmarshal_mac v = unmarshal_struct store_mac zero_mac v"

definition zero_vlan :: vlan_entry where
  "zero_vlan = \<lparr>vTimestamp = zero_time, vNodeID = [], vVlanID = 0, vName = None, vStatus = []\<rparr>"

definition store_vlan :: "vlan_entry \<Rightarrow> string \<times> json \<Rightarrow> vlan_entry option" where
  "store_vlan e m =
     (let k = fst m; v = snd m in
      if key_is k ''timestamp'' then
        map_option (\<lambda>x. e\<lparr>vTimestamp := x\<rparr>) (time_value (vTimestamp e) v)
      else if key_is k ''node_id'' then
        map_option (\<lambda>x. e\<lparr>vNodeID := x\<rparr>) (string_value (vNodeID e) v)
      else if key_is k ''vlan_id'' then
        map_option (\<lambda>x. e\<lparr>vVlanID := x\<rparr>) (uint_value (vVlanID e) v)
      else if key_is k ''name'' then
        map_option (\<lambda>x. e\<lparr>vName := x\<rparr>) (string_ptr v)
      else if key_is k ''status'' then
        map_option (\<lambda>x. e\<lparr>vStatus := x\<rparr>) (string_value (vStatus e) v)
      else Some e)"

definition unmarshal_vlan :: "json \<Rightarrow> vlan_entry option" where
  "unmarshal_vlan v = unmarshal_struct store_vlan zero_vlan v"

definition zero_arp :: arp_entry where
  "zero_arp = \<lparr>aTimestamp = zero_time, aNodeID = [], aIPAddress = [], aMacAddress = [],
     aInterface = [], aAge = 0\<rparr>"

definition store_arp :: "arp_entry \<Rightarrow> string \<times> json \<Rightarrow> arp_entry option" where
  "store_arp e m =
     (let k = fst m; v = snd m in
      if key_is k ''timestamp'' then
        map_option (\<lambda>x. e\<lparr>aTimestamp := x\<rparr>) (time_value (aTimestamp e) v)
      else if key_is k ''node_id'' then
        map_option (\<lambda>x. e\<lparr>aNodeID := x\<rparr>) (string_value (aNodeID e) v)
      else if key_is k ''ip_address'' then
        map_option (\<lambda>x. e\<lparr>aIPAddress := x\<rparr>) (string_value (aIPAddress e) v)
      else if key_is k ''mac_address'' then
        map_option (\<lambda>x. e\<lparr>aMacAddress := x\<rparr>) (string_value (aMacAddress e) v)
      else if key_is k ''interface'' then
        map_option (\<lambda>x. e\<lparr>aInterface := x\<rparr>) (string_value (aInterface e) v)
      else if key_is k ''age'' then
        map_option (\<lambda>x. e\<lparr>aAge := x\<rparr>) (uint_value (aAge e) v)
      else Some e)"

definition unmarshal_arp :: "json \<Rightarrow> arp_entry option" where
  "unmarshal_arp v = unmarshal_struct store_arp zero_arp v"

definition zero_if :: if_entry_in where
  "zero_if = \<lparr>jTimestamp = zero_time, jNodeID = [], jName = [], jDescription = None,
     jShutdown = None, jIPAddress = None, jPrefixLen = None, jVRF = None, jMTU = None,
     jAccessVlan = None, jVoiceVlan = None\<rparr>"

definition store_if :: "if_entry_in \<Rightarrow> string \<times> json \<Rightarrow> if_entry_in option" where
  "store_if e m =
     (let k = fst m; v = snd m in
      if key_is k ''timestamp'' then
        map_option (\<lambda>x. e\<lparr>jTimestamp := x\<rparr>) (time_value (jTimestamp e) v)
      else if key_is k ''node_id'' then
        map_option (\<lambda>x. e\<lparr>jNodeID := x\<rparr>) (string_value (jNodeID e) v)
      else if key_is k ''name'' then
        map_option (\<lambda>x. e\<lparr>jName := x\<rparr>) (string_value (jName e) v)
      else if key_is k ''description'' then
        map_option (\<lambda>x. e\<lparr>jDescription := x\<rparr>) (string_ptr v)
      else if key_is k ''shutdown'' then
        map_option (\<lambda>x. e\<lparr>jShutdown := x\<rparr>) (bool_ptr v)
      else if key_is k ''ip_address'' then
        map_option (\<lambda>x. e\<lparr>jIPAddress := x\<rparr>) (string_ptr v)
      else if key_is k ''prefix_len'' then
        map_option (\<lambda>x. e\<lparr>jPrefixLen := x\<rparr>) (int_ptr v)
      else if key_is k ''vrf'' then
        map_option (\<lambda>x. e\<lparr>jVRF := x\<rparr>) (string_ptr v)
      else if key_is k ''mtu'' then
        map_option (\<lambda>x. e\<lparr>jMTU := x\<rparr>) (uint_ptr v)
      else if key_is k ''access_vlan'' then
        map_option (\<lambda>x. e\<lparr>jAccessVlan := x\<rparr>) (uint_ptr v)
      else if key_is k ''voice_vlan'' then
        map_option (\<lambda>x. e\<lparr>jVoiceVlan := x\<rparr>) (uint_ptr v)
      else Some e)"

definition unmarshal_if :: "json \<Rightarrow> if_entry_in option" where
  "unmarshal_if v = unmarshal_struct store_if zero_if v"

subsection \<open>Round trips\<close>

lemma uint_range: "0 \<le> uint (w :: 'a::len word) \<and> uint w < 2 ^ LENGTH('a)"
  using uint_bounded [of w] by simp

lemmas value_defs = string_value_def time_value_def uint_value_def string_ptr_def bool_ptr_def
  int_ptr_def uint_ptr_def

lemma uint_value_uint [simp]: "uint_value old (JNum (uint w)) = Some w"
  using uint_range [of w] by (simp add: uint_value_def)

lemma uint_ptr_uint [simp]: "uint_ptr (JNum (uint w)) = Some (Some w)"
  using uint_range [of w] by (simp add: uint_ptr_def)

lemma uint_ptr_opt [simp]: "uint_ptr (j_opt (\<lambda>w. JNum (uint w)) x) = Some x"
  by (cases x) (simp_all add: j_opt_def, simp add: uint_ptr_def)

lemma string_ptr_opt [simp]: "string_ptr (j_opt JStr x) = Some x"
  by (cases x) (simp_all add: j_opt_def string_ptr_def)

lemma simple_values [simp]:
  "string_value old (JStr s) = Some s"
  "time_value t (JTime u) = Some u"
  "string_ptr (JStr s) = Some (Some s)"
  "bool_ptr (JBool b) = Some (Some b)"
  by (simp_all add: string_value_def time_value_def string_ptr_def bool_ptr_def)

lemma int_ptr_opt:
  "(\<forall>n. x = Some n \<longrightarrow> - (2 ^ 63) \<le> n \<and> n < 2 ^ 63) \<Longrightarrow> int_ptr (j_opt JNum x) = Some x"
  by (cases x) (auto simp: j_opt_def int_ptr_def)

lemma unmarshal_mac_json: "unmarshal_mac (mac_json e) = Some e"
  by (simp add: unmarshal_mac_def unmarshal_struct_def mac_json_def store_mac_def key_is_def
      zero_mac_def)

lemma unmarshal_arp_json: "unmarshal_arp (arp_json e) = Some e"
  by (simp add: unmarshal_arp_def unmarshal_struct_def arp_json_def store_arp_def key_is_def
      zero_arp_def)

lemma unmarshal_vlan_json: "unmarshal_vlan (vlan_json e) = Some e"
  by (cases "vName e")
    (simp_all add: unmarshal_vlan_def unmarshal_struct_def vlan_json_def store_vlan_def key_is_def
      zero_vlan_def)

text \<open>What the consumer's struct makes of the collector's.\<close>

definition if_entry_wire :: "if_entry \<Rightarrow> if_entry_in" where
  "if_entry_wire e =
     \<lparr>jTimestamp = iTimestamp e, jNodeID = iNodeID e, jName = iName e,
      jDescription = iDescription e, jShutdown = Some (iShutdown e),
      jIPAddress = iIPAddress e, jPrefixLen = iPrefixLen e,
      jVRF = (if iVRF e = [] then None else Some (iVRF e)),
      jMTU = (if iMTU e = 0 then None else Some (iMTU e)),
      jAccessVlan = iAccessVlan e, jVoiceVlan = iVoiceVlan e\<rparr>"

lemma unmarshal_if_json:
  assumes "\<forall>n. iPrefixLen e = Some n \<longrightarrow> - (2 ^ 63) \<le> n \<and> n < 2 ^ 63"
  shows "unmarshal_if (if_json e) = Some (if_entry_wire e)"
  by (simp add: unmarshal_if_def unmarshal_struct_def if_json_def store_if_def key_is_def
      zero_if_def if_entry_wire_def int_ptr_opt [OF assms])

lemma those_map_Some: "(\<And>x. x \<in> set xs \<Longrightarrow> f x = Some (g x)) \<Longrightarrow> those (map f xs) = Some (map g xs)"
  by (induction xs) auto

lemma unmarshal_macs_json:
  "unmarshal_slice unmarshal_mac (JArr (map mac_json es)) = Some es"
  using those_map_Some [of es "unmarshal_mac \<circ> mac_json" id]
  by (simp add: unmarshal_slice_def unmarshal_mac_json)

lemma unmarshal_arps_json:
  "unmarshal_slice unmarshal_arp (JArr (map arp_json es)) = Some es"
  using those_map_Some [of es "unmarshal_arp \<circ> arp_json" id]
  by (simp add: unmarshal_slice_def unmarshal_arp_json)

subsection \<open>Properties\<close>

text \<open>What the collector marshals the consumer unmarshals unchanged: a batch of MAC or ARP entries,
  and a VLAN entry with its name absent, empty or set, and its status.\<close>

theorem payload_round_trip:
  "unmarshal_slice unmarshal_mac (JArr (map mac_json ms)) = Some ms \<and>
   unmarshal_slice unmarshal_arp (JArr (map arp_json as)) = Some as \<and>
   unmarshal_vlan (vlan_json v) = Some v"
  by (simp add: unmarshal_macs_json unmarshal_arps_json unmarshal_vlan_json)

end
