(* ===== verification/Http.thy ===== *)
theory Http imports GoText begin

text \<open>
  What the request handlers share: the replies they write, \<open>strings.TrimSpace\<close>,
  \<open>strconv.ParseInt\<close> / \<open>Atoi\<close> for base 10 and 64 bits, and arithmetic on Go's 64-bit \<open>int\<close>.
  A reply is the status and, on success, the value given to the JSON encoder.
\<close>

datatype 'a reply = HttpError nat | Reply nat 'a

subsection \<open>TrimSpace\<close>

text \<open>The UTF-8 encodings of the runes \<open>unicode.IsSpace\<close> accepts.\<close>

definition bytes :: "nat list \<Rightarrow> string" where
  "bytes ns = map char_of ns"

definition space_runes :: "string list" where
  "space_runes =
     map (\<lambda>b. bytes [b]) [9, 10, 11, 12, 13, 32] @
     map bytes [[194, 133], [194, 160], [225, 154, 128]] @
     map (\<lambda>b. bytes [226, 128, b]) ([128..<139] @ [168, 169, 175]) @
     map bytes [[226, 129, 159], [227, 128, 128]]"

function trim_left :: "string \<Rightarrow> string" where
  "trim_left s =
     (case find (\<lambda>w. has_prefix s w) space_runes of
        Some w \<Rightarrow> trim_left (drop (length w) s)
      | None \<Rightarrow> s)"
  by pat_completeness auto

lemma space_runes_nonempty: "w \<in> set space_runes \<Longrightarrow> w \<noteq> []"
  by (auto simp: space_runes_def bytes_def)

termination trim_left
proof (relation "measure length")
  fix s w assume "find (\<lambda>w. has_prefix s w) space_runes = Some w"
  then have "w \<in> set space_runes" and "has_prefix s w" by (auto dest: find_Some_mem)
  then show "(drop (length w) s, s) \<in> measure length"
    using space_runes_nonempty [of w] by (cases s) (auto simp: has_prefix_def)
qed simp

function trim_right :: "string \<Rightarrow> string" where
  "trim_right s =
     (case find (\<lambda>w. has_suffix s w) space_runes of
        Some w \<Rightarrow> trim_right (take (length s - length w) s)
      | None \<Rightarrow> s)"
  by pat_completeness auto

termination trim_right
proof (relation "measure length")
  fix s w assume "find (\<lambda>w. has_suffix s w) space_runes = Some w"
  then have "w \<in> set space_runes" and "has_suffix s w" by (auto dest: find_Some_mem)
  then show "(take (length s - length w) s, s) \<in> measure length"
    using space_runes_nonempty [of w] by (cases s) (auto simp: has_suffix_def)
qed simp

declare trim_left.simps [simp del] trim_right.simps [simp del]

definition TrimSpace :: "string \<Rightarrow> string" where
  "TrimSpace s = trim_right (trim_left s)"

subsection \<open>ParseInt\<close>

datatype num_err = NumOk | NumSyntax | NumRange

fun parse_digits :: "string \<Rightarrow> nat \<Rightarrow> num_err \<times> nat" where
  "parse_digits [] n = (NumOk, n)"
| "parse_digits (c # s) n =
     (if \<not> is_digit c then (NumSyntax, 0)
      else if n \<ge> 1844674407370955162 then (NumRange, 2 ^ 64 - 1)
      else
        let n1 = n * 10 + digit_val c in
        if n1 \<ge> 2 ^ 64 then (NumRange, 2 ^ 64 - 1) else parse_digits s n1)"

definition ParseUint :: "string \<Rightarrow> num_err \<times> nat" where
  "ParseUint s = (if s = [] then (NumSyntax, 0) else parse_digits s 0)"

text \<open>On a range error the result is the nearest 64-bit integer, on a syntax error it is 0.\<close>

definition ParseInt :: "string \<Rightarrow> num_err \<times> int" where
  "ParseInt s =
     (if s = [] then (NumSyntax, 0)
      else
        let neg = (hd s = CHR ''-'');
            digits = (if hd s = CHR ''+'' \<or> hd s = CHR ''-'' then tl s else s);
            (err, un) = ParseUint digits
        in if err = NumSyntax then (NumSyntax, 0)
           else if \<not> neg \<and> un \<ge> 2 ^ 63 then (NumRange, 2 ^ 63 - 1)
           else if neg \<and> un > 2 ^ 63 then (NumRange, - (2 ^ 63))
           else (NumOk, if neg then - int un else int un))"

text \<open>\<open>n, _ := strconv.Atoi(s)\<close>\<close>

definition Atoi_value :: "string \<Rightarrow> int" where
  "Atoi_value s = snd (ParseInt s)"

definition wrap64 :: "int \<Rightarrow> int" where
  "wrap64 n = sint (word_of_int n :: 64 word)"

definition int_text :: "int \<Rightarrow> string" where
  "int_text n = (if n < 0 then CHR ''-'' # dec_text (nat (- n)) else dec_text (nat n))"

subsection \<open>Facts\<close>

lemma parse_digits_range:
  "fst (parse_digits s n) = NumOk \<Longrightarrow> n < 2 ^ 64 \<Longrightarrow> snd (parse_digits s n) < 2 ^ 64"
  by (induction s n rule: parse_digits.induct) (auto simp: Let_def split: if_splits)

lemma ParseInt_range: "- (2 ^ 63) \<le> snd (ParseInt s) \<and> snd (ParseInt s) < 2 ^ 63"
proof -
  obtain err un where u: "ParseUint (if hd s = CHR ''+'' \<or> hd s = CHR ''-'' then tl s else s) = (err, un)"
    by fastforce
  have "snd (if err = NumSyntax then (NumSyntax, 0)
      else if \<not> neg \<and> un \<ge> 2 ^ 63 then (NumRange, 2 ^ 63 - 1)
      else if neg \<and> un > 2 ^ 63 then (NumRange, - (2 ^ 63))
      else (NumOk, if neg then - int un else int un)) \<in> {- (2 ^ 63) ..< 2 ^ 63}" for neg
    by (cases neg) (simp_all add: not_le not_less)
  then show ?thesis by (simp only: ParseInt_def Let_def u split_conv) simp
qed

lemma dec_val_Nil [simp]: "dec_val [] = 0"
  by (simp add: dec_val_def)

lemma foldl_dec_le: "n \<le> foldl (\<lambda>acc c. 10 * acc + digit_val c) n s"
proof (induction s arbitrary: n)
  case (Cons c s)
  have "n \<le> 10 * n + digit_val c" by simp
  also have "\<dots> \<le> foldl (\<lambda>acc c. 10 * acc + digit_val c) (10 * n + digit_val c) s" by (rule Cons.IH)
  finally show ?case by simp
qed simp

lemma parse_digits_dec:
  assumes "\<forall>c \<in> set s. is_digit c" and "foldl (\<lambda>acc c. 10 * acc + digit_val c) n s < 2 ^ 63"
  shows "parse_digits s n = (NumOk, foldl (\<lambda>acc c. 10 * acc + digit_val c) n s)"
  using assms
proof (induction s arbitrary: n)
  case (Cons c s)
  have "10 * n + digit_val c < 2 ^ 63"
    using foldl_dec_le [of "10 * n + digit_val c" s] Cons.prems(2) by simp
  then have "n < 1844674407370955162" and "n * 10 + digit_val c < 2 ^ 64" by simp_all
  with Cons.IH [of "10 * n + digit_val c"] Cons.prems show ?case
    by (simp add: mult.commute)
qed simp

lemma ParseInt_dec_text: "n < 2 ^ 63 \<Longrightarrow> ParseInt (dec_text n) = (NumOk, int n)"
proof -
  assume n: "n < 2 ^ 63"
  have digits: "\<forall>c \<in> set (dec_text n). is_digit c" by (simp add: dec_text_digits)
  then have "is_digit (hd (dec_text n))" using dec_text_nonempty [of n] by simp
  then have "hd (dec_text n) \<noteq> CHR ''+''" "hd (dec_text n) \<noteq> CHR ''-''" by (auto simp: is_digit_def)
  moreover have "parse_digits (dec_text n) 0 = (NumOk, n)"
    using parse_digits_dec [OF digits, of 0] dec_val_text [of n] n by (simp add: dec_val_def)
  ultimately show ?thesis
    using n by (simp add: ParseInt_def ParseUint_def dec_text_nonempty)
qed

lemma wrap64_id: "- (2 ^ 63) \<le> n \<Longrightarrow> n < 2 ^ 63 \<Longrightarrow> wrap64 n = n"
  by (simp add: wrap64_def sint_sbintrunc' signed_take_bit_int_eq_self)

lemma wrap64_cong: "m mod 2 ^ 64 = n mod 2 ^ 64 \<Longrightarrow> wrap64 m = wrap64 n"
proof -
  assume "m mod 2 ^ 64 = n mod 2 ^ 64"
  then have "(word_of_int m :: 64 word) = word_of_int n" by (simp add: word_of_int_eq_iff take_bit_eq_mod)
  then show ?thesis by (simp add: wrap64_def)
qed

lemma wrap64_range: "- (2 ^ 63) \<le> wrap64 n \<and> wrap64 n < 2 ^ 63"
  using sint_ge [of "word_of_int n :: 64 word"] sint_lt [of "word_of_int n :: 64 word"]
  by (simp add: wrap64_def)

lemma TrimSpace_Nil [simp]: "TrimSpace [] = []"
proof -
  have "\<not> has_prefix [] w \<and> \<not> has_suffix [] w" if "w \<in> set space_runes" for w
    using space_runes_nonempty [OF that] by (simp add: has_prefix_def has_suffix_def)
  then have "find (\<lambda>w. has_prefix [] w) space_runes = None" "find (\<lambda>w. has_suffix [] w) space_runes = None"
    by (auto simp: find_None_iff)
  then show ?thesis by (simp add: TrimSpace_def trim_left.simps [of "[]"] trim_right.simps [of "[]"])
qed

lemma trim_left_step:
  "find (\<lambda>w. has_prefix s w) space_runes = Some w \<Longrightarrow> trim_left s = trim_left (drop (length w) s)"
  "find (\<lambda>w. has_prefix s w) space_runes = None \<Longrightarrow> trim_left s = s"
  by (subst trim_left.simps, simp)+

lemma trim_right_step:
  "find (\<lambda>w. has_suffix s w) space_runes = Some w \<Longrightarrow>
     trim_right s = trim_right (take (length s - length w) s)"
  "find (\<lambda>w. has_suffix s w) space_runes = None \<Longrightarrow> trim_right s = s"
  by (subst trim_right.simps, simp)+

text \<open>What is left of a string starts and ends without white space and is a middle part of it.\<close>

lemma trim_left_part: "\<exists>p. s = p @ trim_left s"
proof (induction s rule: trim_left.induct)
  case (1 s)
  show ?case
  proof (cases "find (\<lambda>w. has_prefix s w) space_runes")
    case (Some w)
    with 1 obtain p where "drop (length w) s = p @ trim_left s"
      by (auto simp: trim_left_step(1))
    moreover obtain r where "s = w @ r"
      using find_Some_mem [OF Some] by (auto simp: has_prefix_iff)
    ultimately have "s = (w @ p) @ trim_left s" by simp
    then show ?thesis by blast
  qed (simp add: trim_left_step(2))
qed

lemma trim_left_clean: "w \<in> set space_runes \<Longrightarrow> \<not> has_prefix (trim_left s) w"
proof (induction s rule: trim_left.induct)
  case (1 s)
  show ?case
  proof (cases "find (\<lambda>w. has_prefix s w) space_runes")
    case None
    with 1(2) show ?thesis by (simp add: trim_left_step(2) find_None_iff)
  next
    case (Some v)
    with 1 show ?thesis by (simp add: trim_left_step(1))
  qed
qed

lemma trim_right_part: "\<exists>p. s = trim_right s @ p"
proof (induction s rule: trim_right.induct)
  case (1 s)
  show ?case
  proof (cases "find (\<lambda>w. has_suffix s w) space_runes")
    case (Some w)
    with 1 obtain p where "take (length s - length w) s = trim_right s @ p"
      by (auto simp: trim_right_step(1))
    moreover obtain r where "s = r @ w"
      using find_Some_mem [OF Some] by (auto simp: has_suffix_iff)
    ultimately have "s = trim_right s @ (p @ w)" by simp
    then show ?thesis by blast
  qed (simp add: trim_right_step(2))
qed

lemma trim_right_clean: "w \<in> set space_runes \<Longrightarrow> \<not> has_suffix (trim_right s) w"
proof (induction s rule: trim_right.induct)
  case (1 s)
  show ?case
  proof (cases "find (\<lambda>w. has_suffix s w) space_runes")
    case None
    with 1(2) show ?thesis by (simp add: trim_right_step(2) find_None_iff)
  next
    case (Some v)
    with 1 show ?thesis by (simp add: trim_right_step(1))
  qed
qed

lemma space_runes_ends:
  "w \<in> set space_runes \<Longrightarrow> \<not> (32 < byte_of (hd w) \<and> byte_of (hd w) < 128) \<and>
     \<not> (32 < byte_of (last w) \<and> byte_of (last w) < 128)"
  by (auto simp: space_runes_def bytes_def)

text \<open>A string that starts and ends with a printing ASCII byte is left alone.\<close>

lemma TrimSpace_plain:
  assumes "s \<noteq> []" and "32 < byte_of (hd s)" and "byte_of (hd s) < 128"
    and "32 < byte_of (last s)" and "byte_of (last s) < 128"
  shows "TrimSpace s = s"
proof -
  have "\<not> has_prefix s w \<and> \<not> has_suffix s w" if w: "w \<in> set space_runes" for w
  proof -
    have "hd s = hd w" if "has_prefix s w"
      using that space_runes_nonempty [OF w] by (auto simp: has_prefix_iff)
    moreover have "last s = last w" if "has_suffix s w"
      using that space_runes_nonempty [OF w] by (auto simp: has_suffix_iff)
    ultimately show ?thesis using space_runes_ends [OF w] assms by auto
  qed
  then have "find (\<lambda>w. has_prefix s w) space_runes = None" "find (\<lambda>w. has_suffix s w) space_runes = None"
    by (auto simp: find_None_iff)
  then show ?thesis by (simp add: TrimSpace_def trim_left_step(2) trim_right_step(2))
qed

end
