(* ===== verification/JsonText.thy ===== *)
theory JsonText imports Payload Http begin

text \<open>
  JSON as text, as Go's \<open>encoding/json\<close> writes and reads it: the compact output of \<open>json.Marshal\<close> with
  its escapes (\<open><\<close>, \<open>>\<close>, \<open>&\<close>, controls, U+2028 and U+2029, invalid UTF-8), and the scanner and the
  unquoting of \<open>json.Unmarshal\<close>. The scanner is a stack machine over tokens, so it needs no fuel; it
  limits the nesting to 10000 as Go's does.
\<close>

subsection \<open>UTF-8\<close>

definition in_range :: "nat \<Rightarrow> nat \<Rightarrow> char \<Rightarrow> bool" where
  "in_range lo hi c \<longleftrightarrow> lo \<le> byte_of c \<and> byte_of c \<le> hi"

text \<open>The size of the encoding a text starts with; \<open>None\<close> where \<open>utf8.DecodeRune\<close> gives width 1 and an error.\<close>

fun utf8_len :: "string \<Rightarrow> nat option" where
  "utf8_len [] = None"
| "utf8_len (a # s) =
     (if byte_of a < 128 then Some 1
      else if in_range 194 223 a then
        (case s of b # _ \<Rightarrow> if in_range 128 191 b then Some 2 else None | _ \<Rightarrow> None)
      else if in_range 224 239 a then
        (case s of
           b # c # _ \<Rightarrow>
             if in_range (if byte_of a = 224 then 160 else 128) (if byte_of a = 237 then 159 else 191) b \<and>
                in_range 128 191 c then Some 3 else None
         | _ \<Rightarrow> None)
      else if in_range 240 244 a then
        (case s of
           b # c # d # _ \<Rightarrow>
             if in_range (if byte_of a = 240 then 144 else 128) (if byte_of a = 244 then 143 else 191) b \<and>
                in_range 128 191 c \<and> in_range 128 191 d then Some 4 else None
         | _ \<Rightarrow> None)
      else None)"

lemma utf8_len_pos: "utf8_len s = Some n \<Longrightarrow> 0 < n \<and> n \<le> length s"
  by (cases s rule: utf8_len.cases) (auto split: if_splits list.splits)

lemma utf8_len_take: "utf8_len s = Some n \<Longrightarrow> utf8_len (take n s @ r) = Some n"
  by (cases s rule: utf8_len.cases) (auto split: if_splits list.splits)

lemma utf8_len_ascii [simp]: "byte_of a < 128 \<Longrightarrow> utf8_len (a # s) = Some 1"
  by simp

declare utf8_len.simps [simp del]

definition replacement :: string where "replacement = bytes [239, 191, 189]"

text \<open>The text with every byte that is no UTF-8 replaced by U+FFFD.\<close>

function to_valid :: "string \<Rightarrow> string" where
  "to_valid [] = []"
| "to_valid (c # s) =
     (case utf8_len (c # s) of
        None \<Rightarrow> replacement @ to_valid s
      | Some n \<Rightarrow> take n (c # s) @ to_valid (drop n (c # s)))"
  by pat_completeness auto

termination to_valid
  by (relation "measure length") (auto dest: utf8_len_pos)

function valid_utf8 :: "string \<Rightarrow> bool" where
  "valid_utf8 [] = True"
| "valid_utf8 (c # s) =
     (case utf8_len (c # s) of None \<Rightarrow> False | Some n \<Rightarrow> valid_utf8 (drop n (c # s)))"
  by pat_completeness auto

termination valid_utf8
  by (relation "measure length") (auto dest: utf8_len_pos)

lemma to_valid_id: "valid_utf8 s \<Longrightarrow> to_valid s = s"
  by (induction s rule: valid_utf8.induct) (auto split: option.splits)

lemma ascii_valid: "list_all (\<lambda>c. byte_of c < 128) s \<Longrightarrow> valid_utf8 s"
  by (induction s) simp_all

subsection \<open>Writing\<close>

definition hex_char :: "nat \<Rightarrow> char" where
  "hex_char n = (if n < 10 then char_of (48 + n) else char_of (87 + n))"

abbreviation backslash :: char where "backslash \<equiv> CHR 0x5C"
abbreviation quote :: char where "quote \<equiv> CHR 0x22"

text \<open>\<open>htmlSafeSet\<close> and the escapes of the other ASCII bytes.\<close>

definition escape_ascii :: "char \<Rightarrow> string" where
  "escape_ascii c =
     (let b = byte_of c in
      if b = 34 \<or> b = 92 then [backslash, c]
      else if b = 8 then [backslash, CHR ''b'']
      else if b = 12 then [backslash, CHR ''f'']
      else if b = 10 then [backslash, CHR ''n'']
      else if b = 13 then [backslash, CHR ''r'']
      else if b = 9 then [backslash, CHR ''t'']
      else if b < 32 \<or> b = 60 \<or> b = 62 \<or> b = 38
      then [backslash, CHR ''u'', CHR ''0'', CHR ''0'', hex_char (b div 16), hex_char (b mod 16)]
      else [c])"

function quote_body :: "string \<Rightarrow> string" where
  "quote_body [] = []"
| "quote_body (c # s) =
     (if byte_of c < 128 then escape_ascii c @ quote_body s
      else case utf8_len (c # s) of
        None \<Rightarrow> backslash # ''ufffd'' @ quote_body s
      | Some n \<Rightarrow>
          (if take 3 (c # s) = bytes [226, 128, 168] then backslash # ''u2028''
           else if take 3 (c # s) = bytes [226, 128, 169] then backslash # ''u2029''
           else take n (c # s)) @ quote_body (drop n (c # s)))"
  by pat_completeness auto

termination quote_body
  by (relation "measure length") (auto dest: utf8_len_pos)

definition quoted :: "string \<Rightarrow> string" where
  "quoted s = quote # quote_body s @ [quote]"

fun join_comma :: "string list \<Rightarrow> string" where
  "join_comma [] = []"
| "join_comma [x] = x"
| "join_comma (x # y # xs) = x @ '','' @ join_comma (y # xs)"

fun json_text :: "json \<Rightarrow> string" where
  "json_text JNull = ''null''"
| "json_text (JBool b) = (if b then ''true'' else ''false'')"
| "json_text (JNum n) = int_text n"
| "json_text (JFrac s) = s"
| "json_text (JStr s) = quoted s"
| "json_text (JTime t) = quote # rfc3339 t @ [quote]"
| "json_text (JArr vs) = ''['' @ join_comma (map json_text vs) @ '']''"
| "json_text (JObj ms) = ''{'' @ join_comma (map (\<lambda>(k, v). quoted k @ '':'' @ json_text v) ms) @ ''}''"

subsection \<open>The scanner\<close>

definition hex_val4 :: "string \<Rightarrow> nat option" where
  "hex_val4 s =
     (let digit = (\<lambda>c. let b = byte_of c in
             if 48 \<le> b \<and> b \<le> 57 then Some (b - 48)
             else if 97 \<le> b \<and> b \<le> 102 then Some (b - 87)
             else if 65 \<le> b \<and> b \<le> 70 then Some (b - 55) else None)
      in if length s < 4 then None
         else map_option (\<lambda>ds. foldl (\<lambda>n d. 16 * n + d) 0 ds) (those (map digit (take 4 s))))"

text \<open>\<open>utf8.AppendRune\<close>; surrogates and numbers above 10FFFF become U+FFFD.\<close>

definition encode_rune :: "nat \<Rightarrow> string" where
  "encode_rune r =
     (if r < 128 then bytes [r]
      else if r < 2048 then bytes [192 + r div 64, 128 + r mod 64]
      else if r > 1114111 \<or> 55296 \<le> r \<and> r < 57344 then replacement
      else if r < 65536 then bytes [224 + r div 4096, 128 + r div 64 mod 64, 128 + r mod 64]
      else bytes [240 + r div 262144, 128 + r div 4096 mod 64, 128 + r div 64 mod 64, 128 + r mod 64])"

text \<open>The rune of \<open>\uXXXX\<close>, with the second half of a surrogate pair if there is one, and the text left.\<close>

definition unicode_escape :: "string \<Rightarrow> (string \<times> string) option" where
  "unicode_escape s =
     (case hex_val4 s of
        None \<Rightarrow> None
      | Some r \<Rightarrow>
          let s1 = drop 4 s;
              low = (if take 2 s1 = [backslash, CHR ''u''] then hex_val4 (drop 2 s1) else None)
          in if 55296 \<le> r \<and> r < 57344 then
               (case low of
                  Some r1 \<Rightarrow>
                    if r < 56320 \<and> 56320 \<le> r1 \<and> r1 < 57344
                    then Some (encode_rune (65536 + (r - 55296) * 1024 + (r1 - 56320)), drop 6 s1)
                    else Some (replacement, s1)
                | None \<Rightarrow> Some (replacement, s1))
             else Some (encode_rune r, s1))"

definition simple_escape :: "char \<Rightarrow> char option" where
  "simple_escape c =
     (if c \<in> {quote, backslash, CHR ''/''} then Some c
      else if c = CHR ''b'' then Some (char_of (8 :: nat))
      else if c = CHR ''f'' then Some (char_of (12 :: nat))
      else if c = CHR ''n'' then Some (char_of (10 :: nat))
      else if c = CHR ''r'' then Some (char_of (13 :: nat))
      else if c = CHR ''t'' then Some (char_of (9 :: nat)) else None)"

text \<open>The rest of a string literal after its quote: its value and the text left.\<close>

function unquote :: "string \<Rightarrow> (string \<times> string) option" where
  "unquote [] = None"
| "unquote (c # s) =
     (if c = quote then Some ([], s)
      else if c = backslash then
        (case s of
           [] \<Rightarrow> None
         | d # r \<Rightarrow>
             if d = CHR ''u'' then
               (case unicode_escape r of
                  None \<Rightarrow> None
                | Some (x, r') \<Rightarrow> map_option (\<lambda>(t, q). (x @ t, q)) (unquote r'))
             else (case simple_escape d of
                     None \<Rightarrow> None
                   | Some x \<Rightarrow> map_option (\<lambda>(t, q). (x # t, q)) (unquote r)))
      else if byte_of c < 32 then None
      else case utf8_len (c # s) of
             None \<Rightarrow> map_option (\<lambda>(t, q). (replacement @ t, q)) (unquote s)
           | Some n \<Rightarrow> map_option (\<lambda>(t, q). (take n (c # s) @ t, q)) (unquote (drop n (c # s))))"
  by pat_completeness auto

lemma unicode_escape_length: "unicode_escape s = Some (x, r) \<Longrightarrow> length r < length s"
  by (auto simp: unicode_escape_def hex_val4_def Let_def split: option.splits if_splits)

termination unquote
  by (relation "measure length") (auto dest: utf8_len_pos unicode_escape_length)

declare unquote.simps [simp del]

lemma unquote_step:
  assumes "unquote (c # s) = Some (t, r)"
  shows "r = s \<or> (\<exists>s' t'. length s' < length (c # s) \<and> unquote s' = Some (t', r))"
proof -
  note eq = assms [unfolded unquote.simps(2)]
  consider (quote) "c = quote" | (uni) r0 where "c = backslash" "s = CHR ''u'' # r0"
    | (esc) d r0 where "c = backslash" "s = d # r0" "d \<noteq> CHR ''u''" | (cut) "c = backslash" "s = []"
    | (plain) "c \<noteq> quote" "c \<noteq> backslash"
    by (metis neq_Nil_conv)
  then show ?thesis
  proof cases
    case (uni r0)
    with eq obtain x r' t' where "unicode_escape r0 = Some (x, r')" "unquote r' = Some (t', r)"
      by (auto split: option.splits)
    with unicode_escape_length uni show ?thesis by (fastforce intro: exI [of _ r'])
  next
    case (esc d r0)
    with eq show ?thesis by (auto split: option.splits intro: exI [of _ r0])
  next
    case plain
    show ?thesis
    proof (cases "utf8_len (c # s)")
      case None
      with plain eq show ?thesis by (auto split: if_splits intro: exI [of _ s])
    next
      case (Some n)
      with plain eq obtain t' where "unquote (drop n (c # s)) = Some (t', r)" by (auto split: if_splits)
      moreover have "length (drop n (c # s)) < length (c # s)" using utf8_len_pos [OF Some] by simp
      ultimately show ?thesis by blast
    qed
  qed (use eq in auto)
qed

lemma unquote_length: "unquote s = Some (t, r) \<Longrightarrow> length r < length s"
proof (induction s arbitrary: t rule: measure_induct_rule [of length])
  case (less s)
  then obtain c s0 where s: "s = c # s0" by (cases s) (simp_all add: unquote.simps)
  from unquote_step [OF less.prems [unfolded s]] show ?case
    using less.IH unfolding s by (metis length_Cons lessI less_trans)
qed

datatype token = TLit json | TOpenArr | TCloseArr | TOpenObj | TCloseObj | TComma | TColon

text \<open>A number: an optional sign, an integer without leading zeros, a fraction, an exponent.\<close>

definition take_digits :: "string \<Rightarrow> (string \<times> string) option" where
  "take_digits s =
     (let ds = takeWhile is_digit s in if ds = [] then None else Some (ds, dropWhile is_digit s))"

definition take_int :: "string \<Rightarrow> (string \<times> string) option" where
  "take_int s =
     (case s of
        [] \<Rightarrow> None
      | c # r \<Rightarrow> if c = CHR ''0'' then Some ([c], r) else take_digits s)"

definition take_frac :: "string \<Rightarrow> (string \<times> string) option" where
  "take_frac s =
     (case s of
        c # r \<Rightarrow> if c = CHR ''.'' then map_option (\<lambda>(ds, q). (c # ds, q)) (take_digits r) else Some ([], s)
      | [] \<Rightarrow> Some ([], s))"

definition take_exp :: "string \<Rightarrow> (string \<times> string) option" where
  "take_exp s =
     (case s of
        c # r \<Rightarrow>
          if c = CHR ''e'' \<or> c = CHR ''E'' then
            (case r of
               d # q \<Rightarrow>
                 if d = CHR ''+'' \<or> d = CHR ''-''
                 then map_option (\<lambda>(ds, q'). (c # d # ds, q')) (take_digits q)
                 else map_option (\<lambda>(ds, q'). (c # ds, q')) (take_digits r)
             | [] \<Rightarrow> None)
          else Some ([], s)
      | [] \<Rightarrow> Some ([], s))"

definition take_number :: "string \<Rightarrow> (json \<times> string) option" where
  "take_number s =
     do {
       let (sign, s1) = (if s \<noteq> [] \<and> hd s = CHR ''-'' then (''-'', tl s) else ([], s));
       (i, s2) \<leftarrow> take_int s1;
       (f, s3) \<leftarrow> take_frac s2;
       (e, s4) \<leftarrow> take_exp s3;
       Some (if f = [] \<and> e = [] \<and> sign @ i \<noteq> ''-0''
             then JNum (if sign = [] then int (dec_val i) else - int (dec_val i))
             else JFrac (sign @ i @ f @ e), s4)
     }"

definition is_space :: "char \<Rightarrow> bool" where
  "is_space c \<longleftrightarrow> byte_of c \<in> {32, 9, 10, 13}"

definition punctuation :: "char \<Rightarrow> token option" where
  "punctuation c =
     (if c = CHR ''['' then Some TOpenArr else if c = CHR '']'' then Some TCloseArr
      else if c = CHR ''{'' then Some TOpenObj else if c = CHR ''}'' then Some TCloseObj
      else if c = CHR '','' then Some TComma else if c = CHR '':'' then Some TColon else None)"

definition keyword :: "string \<Rightarrow> (token \<times> string) option" where
  "keyword s =
     (if has_prefix s ''null'' then Some (TLit JNull, drop 4 s)
      else if has_prefix s ''true'' then Some (TLit (JBool True), drop 4 s)
      else if has_prefix s ''false'' then Some (TLit (JBool False), drop 5 s)
      else None)"

text \<open>The token a text starts with; \<open>None\<close> where no token starts.\<close>

definition next_token :: "string \<Rightarrow> (token \<times> string) option" where
  "next_token s =
     (case s of
        [] \<Rightarrow> None
      | c # r \<Rightarrow>
          (case punctuation c of
             Some t \<Rightarrow> Some (t, r)
           | None \<Rightarrow>
               if c = quote then map_option (\<lambda>(t, q). (TLit (JStr t), q)) (unquote r)
               else if c = CHR ''-'' \<or> is_digit c then map_option (\<lambda>(v, q). (TLit v, q)) (take_number s)
               else keyword s))"

lemma take_digits_length: "take_digits s = Some (ds, r) \<Longrightarrow> length r < length s"
proof -
  assume "take_digits s = Some (ds, r)"
  then have "takeWhile is_digit s \<noteq> []" "r = dropWhile is_digit s"
    by (auto simp: take_digits_def Let_def split: if_splits)
  then show ?thesis
    by (metis length_append length_greater_0_conv less_add_same_cancel2 takeWhile_dropWhile_id)
qed

lemma take_number_length: "take_number s = Some (v, r) \<Longrightarrow> length r < length s"
proof -
  have i: "length r < length s" if "take_int s = Some (ds, r)" for s ds r
    using that by (auto simp: take_int_def dest: take_digits_length split: list.splits if_splits)
  have f: "length r \<le> length s" if "take_frac s = Some (ds, r)" for s ds r
    using that by (auto simp: take_frac_def dest!: take_digits_length split: list.splits if_splits)
  have e: "length r \<le> length s" if "take_exp s = Some (ds, r)" for s ds r
    using that by (auto simp: take_exp_def dest!: take_digits_length split: list.splits if_splits)
  assume "take_number s = Some (v, r)"
  then have "\<exists>ii s2 ff s3 ee. take_int (if s \<noteq> [] \<and> hd s = CHR ''-'' then tl s else s) = Some (ii, s2) \<and>
      take_frac s2 = Some (ff, s3) \<and> take_exp s3 = Some (ee, r)"
    by (cases "s \<noteq> [] \<and> hd s = CHR ''-''") (auto simp: take_number_def split: if_splits Option.bind_splits)
  then obtain ii s2 ff s3 ee where "take_int (if s \<noteq> [] \<and> hd s = CHR ''-'' then tl s else s) = Some (ii, s2)"
    "take_frac s2 = Some (ff, s3)" "take_exp s3 = Some (ee, r)" by blast
  from i [OF this(1)] f [OF this(2)] e [OF this(3)] show ?thesis by (simp split: if_splits)
qed

lemma next_token_length: "next_token s = Some (t, r) \<Longrightarrow> length r < length s"
proof (cases s)
  case (Cons c q)
  assume next_t: "next_token s = Some (t, r)"
  have "length r < length s" if "keyword s = Some (t, r)"
    using that by (auto simp: keyword_def Cons split: if_splits)
  then show ?thesis
    using next_t unfolding Cons next_token_def
    by (auto dest!: unquote_length take_number_length split: option.splits if_splits)
qed (simp add: next_token_def)

function tokens :: "string \<Rightarrow> token list option" where
  "tokens [] = Some []"
| "tokens (c # s) =
     (if is_space c then tokens s
      else case next_token (c # s) of
             None \<Rightarrow> None
           | Some (t, r) \<Rightarrow> map_option (\<lambda>ts. t # ts) (tokens r))"
  by pat_completeness auto

termination tokens
  by (relation "measure length") (auto dest: next_token_length)

declare tokens.simps(2) [simp del]

subsection \<open>The parser\<close>

text \<open>Open arrays and objects with what they hold so far; an object has its current key.\<close>

datatype frame = ArrF "json list" | ObjF "(string \<times> json) list" string

text \<open>\<open>WantValue e\<close>: a value is due, where \<open>e\<close> also the end of the empty array; \<open>WantKey\<close> likewise.\<close>

datatype scan_state =
    WantValue bool "frame list"
  | WantKey bool "frame list"
  | WantColon "frame list"
  | AfterValue "frame list"
  | Done json

definition maxNestingDepth :: nat where "maxNestingDepth = 10000"

fun end_value :: "json \<Rightarrow> frame list \<Rightarrow> scan_state" where
  "end_value v [] = Done v"
| "end_value v (ArrF vs # st) = AfterValue (ArrF (vs @ [v]) # st)"
| "end_value v (ObjF ms k # st) = AfterValue (ObjF (ms @ [(k, v)]) k # st)"

definition push :: "frame \<Rightarrow> frame list \<Rightarrow> (frame list \<Rightarrow> scan_state) \<Rightarrow> scan_state option" where
  "push f st next = (if length st < maxNestingDepth then Some (next (f # st)) else None)"

fun scan :: "token \<Rightarrow> scan_state \<Rightarrow> scan_state option" where
  "scan (TLit v) (WantValue e st) = Some (end_value v st)"
| "scan TOpenArr (WantValue e st) = push (ArrF []) st (WantValue True)"
| "scan TOpenObj (WantValue e st) = push (ObjF [] []) st (WantKey True)"
| "scan TCloseArr (WantValue e (ArrF vs # st)) = (if e then Some (end_value (JArr vs) st) else None)"
| "scan (TLit (JStr k)) (WantKey e (ObjF ms k0 # st)) = Some (WantColon (ObjF ms k # st))"
| "scan TCloseObj (WantKey e (ObjF ms k # st)) = (if e then Some (end_value (JObj ms) st) else None)"
| "scan TColon (WantColon st) = Some (WantValue False st)"
| "scan TComma (AfterValue (ArrF vs # st)) = Some (WantValue False (ArrF vs # st))"
| "scan TCloseArr (AfterValue (ArrF vs # st)) = Some (end_value (JArr vs) st)"
| "scan TComma (AfterValue (ObjF ms k # st)) = Some (WantKey False (ObjF ms k # st))"
| "scan TCloseObj (AfterValue (ObjF ms k # st)) = Some (end_value (JObj ms) st)"
| "scan _ _ = None"

fun scan_all :: "token list \<Rightarrow> scan_state \<Rightarrow> scan_state option" where
  "scan_all [] s = Some s"
| "scan_all (t # ts) s = Option.bind (scan t s) (scan_all ts)"

text \<open>\<open>json.Unmarshal\<close> up to the value; anything but white space after it is an error.\<close>

definition parse_json :: "string \<Rightarrow> json option" where
  "parse_json s =
     (case Option.bind (tokens s) (\<lambda>ts. scan_all ts (WantValue False [])) of
        Some (Done v) \<Rightarrow> Some v | _ \<Rightarrow> None)"

subsection \<open>Strings\<close>

lemma hex_val4_escape:
  assumes "b < 128"
  shows "hex_val4 (CHR ''0'' # CHR ''0'' # hex_char (b div 16) # hex_char (b mod 16) # r) = Some b"
proof -
  have digit: "(let b = byte_of (hex_char n) in if 48 \<le> b \<and> b \<le> 57 then Some (b - 48)
      else if 97 \<le> b \<and> b \<le> 102 then Some (b - 87) else if 65 \<le> b \<and> b \<le> 70 then Some (b - 55) else None) = Some n"
    if "n < 16" for n
    using that by (auto simp: hex_char_def Let_def)
  have "b div 16 < 16" using assms by simp
  from digit [OF this] digit [of "b mod 16"] show ?thesis
    by (simp add: hex_val4_def Let_def)
qed

lemma escape_read:
  assumes "byte_of c < 128"
  shows "unquote (escape_ascii c @ r) = map_option (\<lambda>(t, q). (c # t, q)) (unquote r)"
proof -
  have plain: "unquote (c # r) = map_option (\<lambda>(t, q). (c # t, q)) (unquote r)"
    if "c \<noteq> quote" "c \<noteq> backslash" "\<not> byte_of c < 32"
    using that assms by (simp add: unquote.simps)
  have uni: "unquote (backslash # CHR ''u'' # CHR ''0'' # CHR ''0'' # hex_char (byte_of c div 16) #
      hex_char (byte_of c mod 16) # r) = map_option (\<lambda>(t, q). (c # t, q)) (unquote r)"
    using assms by (simp add: unquote.simps(2) unicode_escape_def hex_val4_escape encode_rune_def bytes_def)
  have simple: "unquote (backslash # d # r) = map_option (\<lambda>(t, q). (x # t, q)) (unquote r)"
    if "simple_escape d = Some x" "d \<noteq> CHR ''u''" for d x
    using that by (simp add: unquote.simps(2))
  have code: "byte_of c = n \<Longrightarrow> char_of n = c" for n by (metis char_of_char)
  have special: "byte_of c = 34 \<longleftrightarrow> c = quote" "byte_of c = 92 \<longleftrightarrow> c = backslash"
    using of_char_eq_iff [of c quote, where 'a = nat] of_char_eq_iff [of c backslash, where 'a = nat] by simp_all
  show ?thesis
    unfolding escape_ascii_def Let_def
    by (auto simp: uni plain special intro!: simple) (auto simp: simple_escape_def code)
qed

text \<open>The body of a string, a quote, and more text: the value, made valid, and the rest.\<close>

lemma unquote_quote_body: "unquote (quote_body s @ quote # r) = Some (to_valid s, r)"
proof (induction s rule: quote_body.induct)
  case 1
  show ?case by (simp add: unquote.simps)
next
  case (2 c s)
  show ?case
  proof (cases "byte_of c < 128")
    case True
    with 2(1) show ?thesis by (simp add: escape_read)
  next
    case big: False
    show ?thesis
    proof (cases "utf8_len (c # s)")
      case None
      have "unquote (backslash # ''ufffd'' @ q) = map_option (\<lambda>(t, q'). (replacement @ t, q')) (unquote q)" for q
        by (simp add: unquote.simps(2) unicode_escape_def hex_val4_def encode_rune_def bytes_def replacement_def)
      with None big 2(2) show ?thesis by simp
    next
      case (Some n)
      note IH = 2(3) [OF big Some]
      have sep: "unquote (backslash # ''u2028'' @ q) = map_option (\<lambda>(t, q'). (bytes [226, 128, 168] @ t, q')) (unquote q)"
        "unquote (backslash # ''u2029'' @ q) = map_option (\<lambda>(t, q'). (bytes [226, 128, 169] @ t, q')) (unquote q)" for q
        by (simp_all add: unquote.simps(2) unicode_escape_def hex_val4_def encode_rune_def bytes_def)
      have three: "n = 3" if "take 3 (c # s) = bytes [226, 128, b]" for b
        using Some that by (auto simp: utf8_len.simps bytes_def in_range_def split: if_splits list.splits)
      obtain m where n: "n = Suc m" using utf8_len_pos [OF Some] by (cases n) auto
      have raw: "unquote (take n (c # s) @ q) = map_option (\<lambda>(t, q'). (take n (c # s) @ t, q')) (unquote q)" for q
      proof -
        have "utf8_len (c # take m s @ q) = Some n" using utf8_len_take [OF Some, of q] by (simp add: n)
        moreover have "c \<noteq> quote" "c \<noteq> backslash" "\<not> byte_of c < 32" using big by auto
        moreover have "length (take m s) = m" using utf8_len_pos [OF Some] by (simp add: n)
        ultimately show ?thesis by (simp add: n unquote.simps(2))
      qed
      show ?thesis using big Some IH three sep raw by auto
    qed
  qed
qed

subsection \<open>Values\<close>

text \<open>What is left of a value on the way: times are strings, and strings are made valid UTF-8.\<close>

fun wire :: "json \<Rightarrow> json" where
  "wire (JStr s) = JStr (to_valid s)"
| "wire (JTime t) = JStr (rfc3339 t)"
| "wire (JArr vs) = JArr (map wire vs)"
| "wire (JObj ms) = JObj (map (\<lambda>(k, v). (to_valid k, wire v)) ms)"
| "wire v = v"

text \<open>No number literals but integers.\<close>

fun integral :: "json \<Rightarrow> bool" where
  "integral (JFrac s) = False"
| "integral (JArr vs) = list_all integral vs"
| "integral (JObj ms) = list_all (\<lambda>(k, v). integral v) ms"
| "integral v = True"

fun json_depth :: "json \<Rightarrow> nat" where
  "json_depth (JArr vs) = Suc (foldr max (map json_depth vs) 0)"
| "json_depth (JObj ms) = Suc (foldr max (map (\<lambda>(k, v). json_depth v) ms) 0)"
| "json_depth v = 0"

fun join_tokens :: "token list list \<Rightarrow> token list" where
  "join_tokens [] = []"
| "join_tokens [x] = x"
| "join_tokens (x # y # xs) = x @ TComma # join_tokens (y # xs)"

fun toks :: "json \<Rightarrow> token list" where
  "toks (JArr vs) = TOpenArr # join_tokens (map toks vs) @ [TCloseArr]"
| "toks (JObj ms) = TOpenObj # join_tokens (map (\<lambda>(k, v). TLit (JStr (to_valid k)) # TColon # toks v) ms) @ [TCloseObj]"
| "toks (JStr s) = [TLit (JStr (to_valid s))]"
| "toks (JTime t) = [TLit (JStr (rfc3339 t))]"
| "toks v = [TLit v]"

text \<open>What may follow a value.\<close>

definition after_value :: "string \<Rightarrow> bool" where
  "after_value r \<longleftrightarrow> (case r of [] \<Rightarrow> True | c # _ \<Rightarrow> c \<in> {CHR '','', CHR '']'', CHR ''}''})"

lemma dec_text_zero: "dec_text n = CHR ''0'' # s \<Longrightarrow> n = 0"
proof (induction n arbitrary: s rule: dec_text.induct)
  case (1 n)
  show ?case
  proof (cases "n < 10")
    case True
    with 1(2) have "digit_char n = CHR ''0''" by (subst (asm) dec_text.simps) simp
    with True byte_digit_char [of n] show ?thesis by simp
  next
    case False
    with 1(2) have eq: "dec_text (n div 10) @ [digit_char (n mod 10)] = CHR ''0'' # s"
      by (subst (asm) dec_text.simps) simp
    with dec_text_nonempty [of "n div 10"] obtain s' where "dec_text (n div 10) = CHR ''0'' # s'"
      by (cases "dec_text (n div 10)") auto
    with 1(1) [OF False] False show ?thesis by auto
  qed
qed

lemma take_digits_dec:
  assumes "after_value r"
  shows "take_digits (dec_text n @ r) = Some (dec_text n, r)"
proof -
  have "\<not> is_digit c" if "c \<in> {CHR '','', CHR '']'', CHR ''}''}" for c
    using that by (auto simp: is_digit_def)
  then have "takeWhile is_digit r = []" "dropWhile is_digit r = r"
    using assms by (cases r; auto simp: after_value_def)+
  then show ?thesis
    using dec_text_digits [of _ n] dec_text_nonempty [of n]
    by (simp add: take_digits_def takeWhile_append2 dropWhile_append2)
qed

lemma take_int_dec:
  assumes "after_value r"
  shows "take_int (dec_text n @ r) = Some (dec_text n, r)"
proof -
  obtain c s where n: "dec_text n = c # s" using dec_text_nonempty [of n] by (cases "dec_text n") auto
  show ?thesis
  proof (cases "c = CHR ''0''")
    case True
    with n dec_text_zero have "n = 0" by blast
    moreover have "char_of (48 :: nat) = CHR ''0''" using char_of_char [of "CHR ''0''", where 'a = nat] by simp
    ultimately show ?thesis by (simp add: take_int_def dec_text.simps [of 0] digit_char_def)
  next
    case False
    then show ?thesis using take_digits_dec [OF assms, of n] by (simp add: take_int_def n)
  qed
qed

lemma take_number_int:
  assumes "after_value r"
  shows "take_number (int_text n @ r) = Some (JNum n, r)"
proof -
  have rest: "take_frac r = Some ([], r)" "take_exp r = Some ([], r)"
    using assms by (auto simp: after_value_def take_frac_def take_exp_def split: list.splits)
  have sign: "hd (dec_text m) \<noteq> CHR ''-''" for m
    using dec_text_digits [of "hd (dec_text m)" m] dec_text_nonempty [of m] by (auto simp: is_digit_def)
  have zero: "dec_text m = ''0'' \<Longrightarrow> m = 0" for m by (rule dec_text_zero)
  have minus: "dec_text m \<noteq> CHR ''-'' # s" for m s using sign [of m] by auto
  show ?thesis
    using take_int_dec [OF assms] sign minus dec_text_nonempty zero [of "nat (- n)"]
    by (auto simp: take_number_def int_text_def rest)
qed

text \<open>Plain text between quotes, as of a time.\<close>

lemma unquote_plain:
  "list_all (\<lambda>c. 32 \<le> byte_of c \<and> byte_of c < 128 \<and> c \<noteq> quote \<and> c \<noteq> backslash) s \<Longrightarrow>
     unquote (s @ quote # r) = Some (s, r)"
  by (induction s) (simp_all add: unquote.simps)

lemma rfc3339_plain:
  "list_all (\<lambda>c. 32 \<le> byte_of c \<and> byte_of c < 128 \<and> c \<noteq> quote \<and> c \<noteq> backslash) (rfc3339 t)"
proof -
  let ?P = "\<lambda>c. 32 \<le> byte_of c \<and> byte_of c < 128 \<and> c \<noteq> quote \<and> c \<noteq> backslash"
  have d: "?P (digit_char n)" if "n < 10" for n
  proof -
    have b: "byte_of (digit_char n) = 48 + n" using that by simp
    then have "byte_of (digit_char n) \<noteq> byte_of quote" "byte_of (digit_char n) \<noteq> byte_of backslash"
      using that by simp_all
    then have "digit_char n \<noteq> quote" "digit_char n \<noteq> backslash" by metis+
    with b that show ?thesis by simp
  qed
  have two: "list_all ?P (two_digits n)" for n
    using d [of "n div 10 mod 10"] d [of "n mod 10"] by (simp add: two_digits_def)
  have four: "list_all ?P (four_digits n)" for n by (simp add: four_digits_def two)
  have frac: "list_all ?P (fraction_text n)" if "n < 1000" for n
    using two [of n] two [of "n div 10"] d [of "n div 100"] d [of "n div 100 mod 10"] that
    by (auto simp: fraction_text_def three_digits_def less_mult_imp_div_less)
  show ?thesis
    by (simp add: rfc3339_def Let_def two four frac split: prod.split)
qed

lemma tokens_punctuation:
  assumes "punctuation c = Some t"
  shows "tokens (c # s) = map_option (\<lambda>ts. t # ts) (tokens s)"
proof -
  have "\<not> is_space c" using assms by (auto simp: punctuation_def is_space_def split: if_splits)
  with assms show ?thesis by (simp add: tokens.simps next_token_def)
qed

lemmas tokens_marks [simp] =
  tokens_punctuation [of "CHR ''[''" TOpenArr, simplified punctuation_def, simplified]
  tokens_punctuation [of "CHR '']''" TCloseArr, simplified punctuation_def, simplified]
  tokens_punctuation [of "CHR ''{''" TOpenObj, simplified punctuation_def, simplified]
  tokens_punctuation [of "CHR ''}''" TCloseObj, simplified punctuation_def, simplified]
  tokens_punctuation [of "CHR '',''" TComma, simplified punctuation_def, simplified]
  tokens_punctuation [of "CHR '':''" TColon, simplified punctuation_def, simplified]

lemma tokens_quoted: "unquote (s @ quote # r) = Some (t, r) \<Longrightarrow>
    tokens (quote # s @ quote # r) = map_option (\<lambda>ts. TLit (JStr t) # ts) (tokens r)"
  by (simp add: tokens.simps next_token_def punctuation_def is_space_def)

lemma tokens_string: "tokens (quoted s @ r) = map_option (\<lambda>ts. TLit (JStr (to_valid s)) # ts) (tokens r)"
  using tokens_quoted [OF unquote_quote_body] by (simp add: quoted_def)

lemma tokens_int:
  assumes "after_value r"
  shows "tokens (int_text n @ r) = map_option (\<lambda>ts. TLit (JNum n) # ts) (tokens r)"
proof -
  obtain c s where n: "int_text n = c # s" and c: "c = CHR ''-'' \<or> is_digit c"
    using dec_text_digits [OF hd_in_set [OF dec_text_nonempty], of "nat n"] dec_text_nonempty [of "nat n"]
    by (cases "int_text n") (auto simp: int_text_def split: if_splits)
  from c have "\<not> is_space c" "punctuation c = None" "c \<noteq> quote"
    by (auto simp: is_space_def punctuation_def is_digit_def)
  with c take_number_int [OF assms, of n] show ?thesis
    by (simp add: n tokens.simps next_token_def)
qed

text \<open>A list of texts between commas is read item by item.\<close>

lemma tokens_join:
  assumes "\<And>x r. x \<in> set xs \<Longrightarrow> after_value r \<Longrightarrow> tokens (f x @ r) = map_option (\<lambda>ts. g x @ ts) (tokens r)"
    and "after_value r"
  shows "tokens (join_comma (map f xs) @ r) = map_option (\<lambda>ts. join_tokens (map g xs) @ ts) (tokens r)"
  using assms(1)
proof (induction xs rule: induct_list012)
  case 1
  show ?case by (simp add: option.map_ident)
next
  case (2 x)
  with assms(2) show ?case by simp
next
  case (3 x y zs)
  have IH: "tokens (join_comma (map f (y # zs)) @ r) = map_option (\<lambda>ts. join_tokens (map g (y # zs)) @ ts) (tokens r)"
    by (rule 3(2)) (simp add: 3(3))
  have "after_value ('','' @ join_comma (map f (y # zs)) @ r)" by (simp add: after_value_def)
  from 3(3) [OF _ this, of x] IH show ?case
    by (simp add: option.map_comp comp_def)
qed

lemma tokens_json_text:
  "integral v \<Longrightarrow> after_value r \<Longrightarrow> tokens (json_text v @ r) = map_option (\<lambda>ts. toks v @ ts) (tokens r)"
proof (induction v arbitrary: r)
  case JNull
  then show ?case by (simp add: tokens.simps next_token_def punctuation_def keyword_def is_space_def is_digit_def has_prefix_def)
next
  case (JBool b)
  then show ?case by (simp add: tokens.simps next_token_def punctuation_def keyword_def is_space_def is_digit_def has_prefix_def)
next
  case (JNum n)
  then show ?case by (simp add: tokens_int)
next
  case (JStr s)
  then show ?case by (simp add: tokens_string)
next
  case (JTime t)
  then show ?case using tokens_quoted [OF unquote_plain [OF rfc3339_plain]] by simp
next
  case (JArr vs)
  have "tokens (join_comma (map json_text vs) @ CHR '']'' # r) =
      map_option (\<lambda>ts. join_tokens (map toks vs) @ ts) (tokens (CHR '']'' # r))"
    by (rule tokens_join) (use JArr in \<open>auto simp: list_all_iff after_value_def\<close>)
  then show ?case by (simp add: option.map_comp comp_def)
next
  case (JObj ms)
  let ?f = "\<lambda>(k, v). quoted k @ '':'' @ json_text v"
  let ?g = "\<lambda>(k, v). TLit (JStr (to_valid k)) # TColon # toks v"
  have "tokens (join_comma (map ?f ms) @ CHR ''}'' # r) = map_option (\<lambda>ts. join_tokens (map ?g ms) @ ts) (tokens (CHR ''}'' # r))"
  proof (rule tokens_join)
    fix m q assume m: "m \<in> set ms" and q: "after_value q"
    obtain k v where kv: "m = (k, v)" by fastforce
    have "tokens (json_text v @ q) = map_option (\<lambda>ts. toks v @ ts) (tokens q)"
      using JObj.IH [of m v q] JObj.prems(1) m q kv by (auto simp: list_all_iff)
    then show "tokens (?f m @ q) = map_option (\<lambda>ts. ?g m @ ts) (tokens q)"
      by (simp add: kv tokens_string option.map_comp comp_def)
  qed (simp add: after_value_def)
  then show ?case by (simp add: option.map_comp comp_def)
qed simp

lemma scan_append: "scan_all (ts @ us) s = Option.bind (scan_all ts s) (scan_all us)"
proof (induction ts arbitrary: s)
  case (Cons t ts)
  then show ?case by (cases "scan t s") simp_all
qed simp

lemma foldr_max_le: "x \<in> set xs \<Longrightarrow> f x \<le> foldr max (map f xs) (0 :: nat)"
  by (induction xs) auto

lemma scan_items:
  assumes "\<And>v st e. v \<in> set vs \<Longrightarrow> length st < k \<Longrightarrow> scan_all (toks v) (WantValue e st) = Some (end_value (wire v) st)"
    and "vs \<noteq> []" and "Suc (length st) < k"
  shows "scan_all (join_tokens (map toks vs)) (WantValue e (ArrF acc # st)) = Some (AfterValue (ArrF (acc @ map wire vs) # st))"
  using assms(1,2)
proof (induction vs arbitrary: acc e rule: induct_list012)
  case (2 v)
  with assms(3) show ?case by simp
next
  case (3 v w vs)
  have "scan_all (join_tokens (map toks (w # vs))) (WantValue False (ArrF (acc @ [wire v]) # st)) =
      Some (AfterValue (ArrF ((acc @ [wire v]) @ map wire (w # vs)) # st))"
    by (rule 3(2)) (simp_all add: 3(3))
  with 3(3) [of v "ArrF acc # st" e] assms(3) show ?case by (simp add: scan_append)
qed simp

lemma scan_members:
  assumes "\<And>k v st. (k, v) \<in> set ms \<Longrightarrow> length st < n \<Longrightarrow>
      scan_all (toks v) (WantValue False st) = Some (end_value (wire v) st)"
    and "ms \<noteq> []" and "Suc (length st) < n"
  shows "\<exists>k1. scan_all (join_tokens (map (\<lambda>(k, v). TLit (JStr (to_valid k)) # TColon # toks v) ms))
      (WantKey e (ObjF acc k0 # st)) =
    Some (AfterValue (ObjF (acc @ map (\<lambda>(k, v). (to_valid k, wire v)) ms) k1 # st))"
  using assms(1,2)
proof (induction ms arbitrary: acc e k0 rule: induct_list012)
  case (2 m)
  obtain k v where m: "m = (k, v)" by fastforce
  with 2(1) [of k v "ObjF acc (to_valid k) # st"] assms(3) show ?case by (auto simp: m)
next
  case (3 m m' ms)
  obtain k v where m: "m = (k, v)" by fastforce
  let ?acc = "acc @ [(to_valid k, wire v)]"
  have "\<exists>k1. scan_all (join_tokens (map (\<lambda>(k, v). TLit (JStr (to_valid k)) # TColon # toks v) (m' # ms)))
      (WantKey False (ObjF ?acc (to_valid k) # st)) =
    Some (AfterValue (ObjF (?acc @ map (\<lambda>(k, v). (to_valid k, wire v)) (m' # ms)) k1 # st))"
    by (rule 3(2)) (use 3(3) in auto)
  with 3(3) [of k v "ObjF acc (to_valid k) # st"] assms(3) show ?case by (auto simp: m scan_append)
qed simp

lemma scan_toks:
  "integral v \<Longrightarrow> json_depth v + length st \<le> maxNestingDepth \<Longrightarrow>
     scan_all (toks v) (WantValue e st) = Some (end_value (wire v) st)"
proof (induction v arbitrary: st e)
  case (JArr vs)
  have st: "length st < maxNestingDepth" using JArr.prems by simp
  show ?case
  proof (cases "vs = []")
    case True
    with st show ?thesis by (simp add: push_def)
  next
    case False
    let ?k = "maxNestingDepth - foldr max (map json_depth vs) 0 + 1"
    have "scan_all (join_tokens (map toks vs)) (WantValue True (ArrF [] # st)) =
        Some (AfterValue (ArrF ([] @ map wire vs) # st))"
    proof (rule scan_items [where k = ?k])
      fix v e and s :: "frame list" assume v: "v \<in> set vs" and s: "length s < ?k"
      have "json_depth v + length s \<le> maxNestingDepth"
        using foldr_max_le [OF v, of json_depth] s JArr.prems(2) by simp
      with JArr.IH [OF v] JArr.prems(1) v show "scan_all (toks v) (WantValue e s) = Some (end_value (wire v) s)"
        by (simp add: list_all_iff)
    qed (use False JArr.prems in simp_all)
    with st show ?thesis by (simp add: push_def scan_append)
  qed
next
  case (JObj ms)
  have st: "length st < maxNestingDepth" using JObj.prems by simp
  show ?case
  proof (cases "ms = []")
    case True
    with st show ?thesis by (simp add: push_def)
  next
    case False
    let ?d = "\<lambda>(k, v). json_depth v"
    let ?n = "maxNestingDepth - foldr max (map ?d ms) 0 + 1"
    have "\<exists>k1. scan_all (join_tokens (map (\<lambda>(k, v). TLit (JStr (to_valid k)) # TColon # toks v) ms))
        (WantKey True (ObjF [] [] # st)) =
      Some (AfterValue (ObjF ([] @ map (\<lambda>(k, v). (to_valid k, wire v)) ms) k1 # st))"
    proof (rule scan_members [where n = ?n])
      fix k v and s :: "frame list" assume v: "(k, v) \<in> set ms" and s: "length s < ?n"
      have "json_depth v + length s \<le> maxNestingDepth"
        using foldr_max_le [OF v, of ?d] s JObj.prems(2) by simp
      with JObj.IH [OF v, of v] JObj.prems(1) v show "scan_all (toks v) (WantValue False s) = Some (end_value (wire v) s)"
        by (auto simp: list_all_iff)
    qed (use False JObj.prems in simp_all)
    with st show ?thesis by (auto simp: push_def scan_append)
  qed
qed simp_all

text \<open>What is written is read back: every JSON value without fractions and nested at most 10000 deep,
  up to what the text does to times and to bytes that are no UTF-8.\<close>

lemma parse_json_text:
  assumes "integral v" and "json_depth v \<le> maxNestingDepth"
  shows "parse_json (json_text v) = Some (wire v)"
proof -
  have "tokens (json_text v) = Some (toks v)"
    using tokens_json_text [OF assms(1), of "[]"] by (simp add: after_value_def)
  with scan_toks [OF assms(1), of "[]" False] assms(2) show ?thesis by (simp add: parse_json_def)
qed

subsection \<open>Payloads\<close>

text \<open>\<open>json.Unmarshal\<close> of bytes into a value, given how its type takes a JSON value.\<close>

definition Unmarshal :: "(json \<Rightarrow> 'e option) \<Rightarrow> string \<Rightarrow> 'e option" where
  "Unmarshal take_value b = Option.bind (parse_json b) take_value"

definition mac_text_ok :: "mac_entry \<Rightarrow> bool" where
  "mac_text_ok e \<longleftrightarrow> year_ok (mTimestamp e) \<and>
     list_all valid_utf8 [mNodeID e, mMacAddress e, mInterface e, mType e]"

definition arp_text_ok :: "arp_entry \<Rightarrow> bool" where
  "arp_text_ok e \<longleftrightarrow> year_ok (aTimestamp e) \<and>
     list_all valid_utf8 [aNodeID e, aIPAddress e, aMacAddress e, aInterface e]"

definition vlan_text_ok :: "vlan_entry \<Rightarrow> bool" where
  "vlan_text_ok e \<longleftrightarrow> year_ok (vTimestamp e) \<and> list_all valid_utf8 [vNodeID e, vStatus e] \<and>
     pred_option valid_utf8 (vName e)"

definition if_text_ok :: "if_entry \<Rightarrow> bool" where
  "if_text_ok e \<longleftrightarrow> year_ok (iTimestamp e) \<and> list_all valid_utf8 [iNodeID e, iName e, iVRF e] \<and>
     pred_option valid_utf8 (iDescription e) \<and> pred_option valid_utf8 (iIPAddress e) \<and>
     (\<forall>n. iPrefixLen e = Some n \<longrightarrow> - (2 ^ 63) \<le> n \<and> n < 2 ^ 63)"

lemma time_value_rfc3339 [simp]: "year_ok t \<Longrightarrow> time_value old (JStr (rfc3339 t)) = Some t"
  using parse_rfc3339_text [of t] by (simp add: time_value_def year_ok_def epoch_offset_def)

lemma wire_opt [simp]:
  "pred_option valid_utf8 x \<Longrightarrow> wire (j_opt JStr x) = j_opt JStr x"
  "wire (j_opt JNum n) = j_opt JNum n" "wire (j_opt (\<lambda>w. JNum (f w)) y) = j_opt (\<lambda>w. JNum (f w)) y"
  by (auto simp: j_opt_def to_valid_id split: option.split)

lemma unmarshal_mac_wire: "mac_text_ok e \<Longrightarrow> unmarshal_mac (wire (mac_json e)) = Some e"
  by (simp add: unmarshal_mac_def unmarshal_struct_def mac_json_def store_mac_def key_is_def
      zero_mac_def mac_text_ok_def to_valid_id)

lemma unmarshal_arp_wire: "arp_text_ok e \<Longrightarrow> unmarshal_arp (wire (arp_json e)) = Some e"
  by (simp add: unmarshal_arp_def unmarshal_struct_def arp_json_def store_arp_def key_is_def
      zero_arp_def arp_text_ok_def to_valid_id)

lemma unmarshal_vlan_wire: "vlan_text_ok e \<Longrightarrow> unmarshal_vlan (wire (vlan_json e)) = Some e"
  by (cases "vName e")
    (simp_all add: unmarshal_vlan_def unmarshal_struct_def vlan_json_def store_vlan_def key_is_def
      zero_vlan_def vlan_text_ok_def to_valid_id)

lemma unmarshal_if_wire: "if_text_ok e \<Longrightarrow> unmarshal_if (wire (if_json e)) = Some (if_entry_wire e)"
  by (simp add: unmarshal_if_def unmarshal_struct_def if_json_def store_if_def key_is_def
      zero_if_def if_entry_wire_def int_ptr_opt if_text_ok_def to_valid_id)

lemma j_opt_flat [simp]: "integral (j_opt JStr x)" "json_depth (j_opt JStr x) = 0"
  "integral (j_opt (\<lambda>w. JNum (f w)) y)" "json_depth (j_opt (\<lambda>w. JNum (f w)) y) = 0"
  by (simp_all add: j_opt_def split: option.split)

lemma foldr_max_bound: "(\<And>x. x \<in> set xs \<Longrightarrow> x \<le> n) \<Longrightarrow> foldr max xs (0 :: nat) \<le> n"
  by (induction xs) auto

lemma payload_shape:
  "integral (mac_json m)" "json_depth (mac_json m) = 1" "integral (arp_json a)" "json_depth (arp_json a) = 1"
  "integral (vlan_json v)" "json_depth (vlan_json v) = 1" "integral (if_json i)" "json_depth (if_json i) = 1"
  by (simp_all add: mac_json_def arp_json_def vlan_json_def if_json_def split: option.split)

lemma batch_text:
  assumes "\<And>e. e \<in> set es \<Longrightarrow> integral (f e) \<and> json_depth (f e) = 1 \<and> take_value (wire (f e)) = Some e"
  shows "Unmarshal (unmarshal_slice take_value) (json_text (JArr (map f es))) = Some es"
proof -
  have "json_depth (JArr (map f es)) \<le> 2"
    using assms by (auto intro!: foldr_max_bound)
  then have "parse_json (json_text (JArr (map f es))) = Some (JArr (map wire (map f es)))"
    using parse_json_text [of "JArr (map f es)"] assms by (simp add: list_all_iff maxNestingDepth_def)
  with those_map_Some [of es "\<lambda>e. take_value (wire (f e))" id] assms show ?thesis
    by (simp add: Unmarshal_def unmarshal_slice_def comp_def)
qed

text \<open>C8. What the collector writes to Kafka the consumer reads back, byte for byte: the text of a batch of MAC
  or ARP entries, of a VLAN entry and of an interface entry, with its escapes, numbers and RFC 3339
  time, parses to the same entries, whatever valid UTF-8 their fields hold (the interface entry with VRF
  and MTU absent where they were zero).\<close>

theorem payload_text_round_trip:
  assumes "list_all mac_text_ok ms" and "list_all arp_text_ok as" and "vlan_text_ok v" and "if_text_ok i"
  shows "Unmarshal (unmarshal_slice unmarshal_mac) (json_text (JArr (map mac_json ms))) = Some ms \<and>
   Unmarshal (unmarshal_slice unmarshal_arp) (json_text (JArr (map arp_json as))) = Some as \<and>
   Unmarshal unmarshal_vlan (json_text (vlan_json v)) = Some v \<and>
   Unmarshal unmarshal_if (json_text (if_json i)) = Some (if_entry_wire i)"
proof (intro conjI)
  have single: "parse_json (json_text j) = Some (wire j)" if "integral j" "json_depth j = 1" for j
    using that parse_json_text [of j] by (simp add: maxNestingDepth_def)
  show "Unmarshal unmarshal_vlan (json_text (vlan_json v)) = Some v"
    by (simp add: Unmarshal_def single payload_shape unmarshal_vlan_wire assms(3))
  show "Unmarshal unmarshal_if (json_text (if_json i)) = Some (if_entry_wire i)"
    by (simp add: Unmarshal_def single payload_shape unmarshal_if_wire assms(4))
qed (rule batch_text, use assms(1,2) in \<open>simp add: payload_shape unmarshal_mac_wire unmarshal_arp_wire list_all_iff\<close>)+

text \<open>A name with an umlaut, a quote and a tab; the text of a batch.\<close>

definition text_mac :: mac_entry where
  "text_mac = \<lparr>mTimestamp = 1700000000250, mNodeID = ''sw1'', mMacAddress = ''00:11:22:33:44:55'',
     mInterface = bytes [71, 195, 188, 34, 9], mVlan = 10, mType = ''dynamic''\<rparr>"

definition text_if :: if_entry where
  "text_if = \<lparr>iTimestamp = 0, iNodeID = ''sw1'', iName = ''Gi1/0/1'', iDescription = Some ''<up&link>'', iShutdown = False,
     iIPAddress = None, iPrefixLen = Some 24, iVRF = [], iMTU = 1500, iAccessVlan = Some 10, iVoiceVlan = None\<rparr>"

lemma valid_samples: "valid_utf8 (bytes [71, 195, 188, 34, 9])" "year_ok 1700000000250" "year_ok 0"
  by (simp_all add: bytes_def utf8_len.simps in_range_def year_ok_def)

theorem payload_text_round_trip_witness:
  "Unmarshal (unmarshal_slice unmarshal_mac) (json_text (JArr (map mac_json [text_mac]))) = Some [text_mac] \<and>
   Unmarshal unmarshal_if (json_text (if_json text_if)) = Some (if_entry_wire text_if)"
proof -
  have "list_all mac_text_ok [text_mac]"
    by (simp add: mac_text_ok_def text_mac_def valid_samples)
  moreover have "vlan_text_ok \<lparr>vTimestamp = 0, vNodeID = ''sw1'', vVlanID = 10, vName = Some ''users'', vStatus = []\<rparr>"
    by (simp add: vlan_text_ok_def valid_samples)
  moreover have "if_text_ok text_if"
    by (simp add: if_text_ok_def text_if_def valid_samples)
  ultimately show ?thesis
    using payload_text_round_trip [of "[text_mac]" "[]"] by fastforce
qed

lemma sample_texts:
  "quoted (bytes [60, 34, 9]) = quote # backslash # ''u003c'' @ [backslash, quote, backslash, CHR ''t'', quote]"
  "rfc3339 1700000000250 = ''2023-11-14T22:13:20.25Z''"
proof -
  have code: "char_of (of_char c :: nat) = c" for c by (rule char_of_char)
  note chars = code [of "CHR ''0''"] code [of "CHR ''1''"] code [of "CHR ''2''"] code [of "CHR ''3''"]
    code [of "CHR ''4''"] code [of "CHR ''5''"] code [of "CHR ''c''"] code [of quote]
  show "quoted (bytes [60, 34, 9]) = quote # backslash # ''u003c'' @ [backslash, quote, backslash, CHR ''t'', quote]"
    using chars by (simp add: quoted_def bytes_def escape_ascii_def hex_char_def)
  have y: "year_of 739203 = 2023"
    unfolding year_of_def by (simp add: find_year.simps [of 2019] find_year.simps [of 2020] find_year.simps [of 2021]
        find_year.simps [of 2022] find_year.simps [of 2023] days_before_def)
  show "rfc3339 1700000000250 = ''2023-11-14T22:13:20.25Z''"
    using chars by (simp add: rfc3339_def epoch_offset_def date_of_def y days_before_def month_lengths_def leap_year_def
        four_digits_def two_digits_def fraction_text_def digit_char_def Let_def)
qed

end
