(* ===== verification/Dump.thy ===== *)
theory Dump imports Telemetry JsonText begin

text \<open>
  \<open>dumpFields\<close> of \<open>collector/main.go\<close>, the debug dump of a message: the fields of the tree in pre-order,
  one line each. \<open>%q\<close> is \<open>strconv.Quote\<close>; which runes beyond ASCII print is the parameter \<open>fmPrints\<close>, and the
  shortest decimal text of a float, \<open>%g\<close>, are \<open>fmG64\<close> and \<open>fmG32\<close>.
\<close>

subsection \<open>Quoting\<close>

fun hex_text :: "nat \<Rightarrow> nat \<Rightarrow> string" where
  "hex_text 0 n = []"
| "hex_text (Suc k) n = hex_text k (n div 16) @ [hex_char (n mod 16)]"

text \<open>The rune whose encoding a text is.\<close>

definition rune_of :: "string \<Rightarrow> nat" where
  "rune_of s =
     (case map (of_char :: char \<Rightarrow> nat) s of
        [a] \<Rightarrow> a
      | [a, b] \<Rightarrow> (a - 192) * 64 + (b - 128)
      | [a, b, c] \<Rightarrow> ((a - 224) * 64 + (b - 128)) * 64 + (c - 128)
      | [a, b, c, d] \<Rightarrow> (((a - 240) * 64 + (b - 128)) * 64 + (c - 128)) * 64 + (d - 128)
      | _ \<Rightarrow> 65533)"

definition letter_escape :: "nat \<Rightarrow> char option" where
  "letter_escape b = map_of [(7, CHR ''a''), (8, CHR ''b''), (12, CHR ''f''), (10, CHR ''n''), (13, CHR ''r''),
     (9, CHR ''t''), (11, CHR ''v'')] b"

definition escaped_rune :: "(string \<Rightarrow> bool) \<Rightarrow> string \<Rightarrow> string" where
  "escaped_rune prints w =
     (let r = rune_of w in
      if r = 34 \<or> r = 92 then backslash # w
      else if (if r < 128 then 32 \<le> r \<and> r < 127 else prints w) then w
      else case letter_escape r of
        Some x \<Rightarrow> [backslash, x]
      | None \<Rightarrow>
          if r < 32 \<or> r = 127 then backslash # CHR ''x'' # hex_text 2 r
          else if r < 65536 then backslash # CHR ''u'' # hex_text 4 r
          else backslash # CHR ''U'' # hex_text 8 r)"

function quote_runes :: "(string \<Rightarrow> bool) \<Rightarrow> string \<Rightarrow> string" where
  "quote_runes prints [] = []"
| "quote_runes prints (c # s) =
     (case utf8_len (c # s) of
        None \<Rightarrow> backslash # CHR ''x'' # hex_text 2 (byte_of c) @ quote_runes prints s
      | Some n \<Rightarrow> escaped_rune prints (take n (c # s)) @ quote_runes prints (drop n (c # s)))"
  by pat_completeness auto

termination quote_runes
  by (relation "measure (length \<circ> snd)") (auto dest: utf8_len_pos)

definition Quote :: "(string \<Rightarrow> bool) \<Rightarrow> string \<Rightarrow> string" where
  "Quote prints s = quote # quote_runes prints s @ [quote]"

subsection \<open>The dump\<close>

record formats =
  fmPrints :: "string \<Rightarrow> bool"
  fmG64 :: "64 word \<Rightarrow> string"
  fmG32 :: "32 word \<Rightarrow> string"

text \<open>The names of the types, and the texts of the values.\<close>

definition dump_value :: "formats \<Rightarrow> field_value option \<Rightarrow> string \<times> string" where
  "dump_value fm v =
     (case v of
        Some (StringValue s) \<Rightarrow> (''string'', Quote (fmPrints fm) s)
      | Some (Uint32Value n) \<Rightarrow> (''uint32'', int_text (uint n))
      | Some (Uint64Value n) \<Rightarrow> (''uint64'', int_text (uint n))
      | Some (Sint32Value n) \<Rightarrow> (''sint32'', int_text (sint n))
      | Some (Sint64Value n) \<Rightarrow> (''sint64'', int_text (sint n))
      | Some (DoubleValue b) \<Rightarrow> (''double'', fmG64 fm b)
      | Some (FloatValue b) \<Rightarrow> (''float'', fmG32 fm b)
      | Some (BoolValue b) \<Rightarrow> (''bool'', if b then ''true'' else ''false'')
      | Some (BytesValue bs) \<Rightarrow> (''bytes'', concat (map (\<lambda>b. hex_text 2 (unat b)) bs))
      | None \<Rightarrow> (''container'', []))"

abbreviation newline :: char where "newline \<equiv> CHR 0x0A"

definition pad :: "nat \<Rightarrow> string" where
  "pad depth = concat (replicate depth ''  '')"

function dumpFields :: "formats \<Rightarrow> telemetry_field list \<Rightarrow> nat \<Rightarrow> string" where
  "dumpFields fm [] depth = []"
| "dumpFields fm (f # fs) depth =
     (case dump_value fm (fValueByType f) of (typ, val) \<Rightarrow>
        (if fFields f \<noteq> [] then
           pad depth @ ''['' @ fName f @ ''] ('' @ typ @ '')'' @ [newline] @ dumpFields fm (fFields f) (depth + 1)
         else pad depth @ ''['' @ fName f @ ''] ('' @ typ @ '') = '' @ val @ [newline])
        @ dumpFields fm fs depth)"
  by pat_completeness auto

termination dumpFields
proof (relation "measure (\<lambda>(fm, fs, d). sum_list (map size fs) + length fs)")
  fix fm :: formats and f :: telemetry_field and fs :: "telemetry_field list" and depth :: nat
  have "0 < size f" by (cases f) simp
  then show "((fm, fs, depth), (fm, f # fs, depth)) \<in> measure (\<lambda>(fm, fs, d). sum_list (map size fs) + length fs)"
    by simp
next
  fix fm :: formats and f :: telemetry_field and fs :: "telemetry_field list" and depth :: nat
  have "sum_list (map size (fFields f)) + length (fFields f) < size f + 1"
    by (cases f) (simp add: size_list_conv_sum_list)
  then show "((fm, fFields f, depth + 1), (fm, f # fs, depth)) \<in> measure (\<lambda>(fm, fs, d). sum_list (map size fs) + length fs)"
    by simp
qed simp

subsection \<open>One line per field\<close>

text \<open>The fields below a list, each with its depth, parents first.\<close>

fun subfields :: "nat \<Rightarrow> telemetry_field \<Rightarrow> (nat \<times> telemetry_field) list" where
  "subfields d (TelemetryField ts n fs v) = (d, TelemetryField ts n fs v) # concat (map (subfields (d + 1)) fs)"

definition dump_line_of :: "formats \<Rightarrow> nat \<times> telemetry_field \<Rightarrow> string" where
  "dump_line_of fm df =
     (case df of (d, f) \<Rightarrow>
        pad d @ ''['' @ fName f @ ''] ('' @ fst (dump_value fm (fValueByType f)) @ '')'' @
        (if fFields f \<noteq> [] then [] else '' = '' @ snd (dump_value fm (fValueByType f))))"

lemma dumpFields_lines:
  "dumpFields fm fs d = concat (map (\<lambda>df. dump_line_of fm df @ [newline]) (concat (map (subfields d) fs)))"
proof (induction fm fs d rule: dumpFields.induct)
  case (2 fm f fs depth)
  obtain ts n gs v where f: "f = TelemetryField ts n gs v" by (cases f)
  from 2 show ?case
    by (cases "dump_value fm v") (simp add: f dump_line_of_def)
qed simp

lemma hex_char_byte: "n < 16 \<Longrightarrow> 48 \<le> byte_of (hex_char n)"
  by (simp add: hex_char_def)

lemma hex_text_bytes: "c \<in> set (hex_text k n) \<Longrightarrow> 48 \<le> byte_of c"
  by (induction k n rule: hex_text.induct) (auto simp: hex_char_byte)

lemma utf8_high:
  assumes "utf8_len s = Some n" and "128 \<le> byte_of (hd s)" and "c \<in> set (take n s)"
  shows "128 \<le> byte_of c"
  using assms by (cases s rule: utf8_len.cases) (auto simp: utf8_len.simps in_range_def split: if_splits list.splits)

lemma utf8_low: "byte_of c < 128 \<Longrightarrow> utf8_len (c # s) = Some n \<Longrightarrow> n = 1"
  by simp

lemma byte_newline: "c = newline \<longleftrightarrow> byte_of c = 10"
  using of_char_eq_iff [of c newline, where 'a = nat] by simp

lemma escaped_rune_line:
  assumes "utf8_len (c # s) = Some n" and "\<And>w. prints w \<Longrightarrow> newline \<notin> set w"
  shows "newline \<notin> set (escaped_rune prints (take n (c # s)))"
proof -
  have hex: "newline \<notin> set (hex_text k m)" for k m
    using hex_text_bytes [of newline k m] by auto
  have letter: "letter_escape b = Some x \<Longrightarrow> x \<noteq> newline" for b x
    by (auto simp: letter_escape_def split: if_splits)
  show ?thesis
  proof (cases "byte_of c < 128")
    case True
    then have w: "take n (c # s) = [c]" using utf8_low [OF True assms(1)] by simp
    have "rune_of [c] = byte_of c" by (simp add: rune_of_def)
    with True hex letter show ?thesis
      by (auto simp: escaped_rune_def w byte_newline Let_def split: option.split)
         (auto simp: byte_newline [symmetric])
  next
    case False
    then have "newline \<notin> set (take n (c # s))"
      using utf8_high [OF assms(1), of newline] by auto
    with hex letter show ?thesis
      by (auto simp: escaped_rune_def Let_def split: option.split) 
  qed
qed

lemma Quote_line:
  assumes "\<And>w. prints w \<Longrightarrow> newline \<notin> set w"
  shows "newline \<notin> set (Quote prints s)"
proof -
  have "newline \<notin> set (hex_text 2 m)" for m
    using hex_text_bytes [of newline 2 m] by auto
  then have "newline \<notin> set (quote_runes prints s)"
    using assms
    by (induction prints s rule: quote_runes.induct) (auto split: option.splits, metis escaped_rune_line)
  then show ?thesis by (simp add: Quote_def)
qed

definition formats_ok :: "formats \<Rightarrow> bool" where
  "formats_ok fm \<longleftrightarrow> (\<forall>w. fmPrints fm w \<longrightarrow> newline \<notin> set w) \<and> (\<forall>b. newline \<notin> set (fmG64 fm b)) \<and>
     (\<forall>b. newline \<notin> set (fmG32 fm b))"

lemma dump_value_line:
  assumes "formats_ok fm"
  shows "newline \<notin> set (fst (dump_value fm v)) \<union> set (snd (dump_value fm v))"
proof -
  have dec: "newline \<notin> set (int_text n)" for n
    using dec_text_digits [of newline] by (auto simp: int_text_def is_digit_def)
  have hex: "newline \<notin> set (hex_text 2 n)" for n
    using hex_text_bytes [of newline 2 n] by auto
  show ?thesis
    using assms Quote_line [of "fmPrints fm"] dec hex
    by (auto simp: dump_value_def formats_ok_def split: option.splits field_value.splits)
qed

lemma pad_replicate: "pad d = replicate (2 * d) CHR '' ''"
  by (induction d) (simp_all add: pad_def)

lemma dump_line_indent: "takeWhile (\<lambda>c. c = CHR '' '') (dump_line_of fm (d, f)) = replicate (2 * d) CHR '' ''"
proof -
  have "takeWhile (\<lambda>c. c = CHR '' '') (replicate n CHR '' '' @ CHR ''['' # s) = replicate n CHR '' ''" for n s
    by (induction n) simp_all
  then show ?thesis by (simp add: dump_line_of_def pad_replicate)
qed

lemma pad_line: "newline \<notin> set (pad d)"
  by (simp add: pad_replicate)

text \<open>C40. The debug dump is an outline of the message: exactly one line for every field at every depth, each
  field before the fields in it, indented by twice its depth, whatever bytes the values hold: what is
  not printable is escaped, so no value breaks a line. (A field name is written as it is.)\<close>

theorem dump_is_outline:
  assumes "formats_ok fm" and "list_all (\<lambda>df. newline \<notin> set (fName (snd df))) (concat (map (subfields d) fs))"
  shows "\<exists>ls. dumpFields fm fs d = concat (map (\<lambda>l. l @ [newline]) ls) \<and>
    list_all2 (\<lambda>l df. newline \<notin> set l \<and>
      takeWhile (\<lambda>c. c = CHR '' '') l = replicate (2 * fst df) CHR '' '' \<and>
      (\<exists>rest. l = pad (fst df) @ ''['' @ fName (snd df) @ '']'' @ rest))
      ls (concat (map (subfields d) fs))"
proof (intro exI conjI)
  let ?dfs = "concat (map (subfields d) fs)"
  show "dumpFields fm fs d = concat (map (\<lambda>l. l @ [newline]) (map (dump_line_of fm) ?dfs))"
    by (simp add: dumpFields_lines comp_def)
  have "newline \<notin> set (dump_line_of fm df) \<and>
      takeWhile (\<lambda>c. c = CHR '' '') (dump_line_of fm df) = replicate (2 * fst df) CHR '' '' \<and>
      (\<exists>rest. dump_line_of fm df = pad (fst df) @ ''['' @ fName (snd df) @ '']'' @ rest)"
    if "newline \<notin> set (fName (snd df))" for df
    using that dump_value_line [OF assms(1), of "fValueByType (snd df)"] dump_line_indent [of fm "fst df" "snd df"]
    by (cases df) (auto simp: dump_line_of_def pad_line)
  with assms(2) show "list_all2 (\<lambda>l df. newline \<notin> set l \<and>
      takeWhile (\<lambda>c. c = CHR '' '') l = replicate (2 * fst df) CHR '' '' \<and>
      (\<exists>rest. l = pad (fst df) @ ''['' @ fName (snd df) @ '']'' @ rest)) (map (dump_line_of fm) ?dfs) ?dfs"
    unfolding list.rel_map list_all_iff by (intro list.rel_refl_strong) blast
qed

definition demo_formats :: formats where
  "demo_formats = \<lparr>fmPrints = (\<lambda>_. False), fmG64 = (\<lambda>_. ''0''), fmG32 = (\<lambda>_. ''0'')\<rparr>"

theorem dump_is_outline_witness:
  "\<exists>l1 l2. dumpFields demo_formats [container ''content'' [leaf ''name'' (StringValue [newline])]] 2 =
     l1 @ [newline] @ l2 @ [newline] \<and> newline \<notin> set l1 \<and> newline \<notin> set l2"
proof -
  let ?fs = "[container ''content'' [leaf ''name'' (StringValue [newline])]]"
  have "formats_ok demo_formats" by (simp add: formats_ok_def demo_formats_def)
  moreover have "list_all (\<lambda>df. newline \<notin> set (fName (snd df))) (concat (map (subfields 2) ?fs))" by simp
  ultimately obtain ls where d: "dumpFields demo_formats ?fs 2 = concat (map (\<lambda>l. l @ [newline]) ls)"
    and r: "list_all2 (\<lambda>l df. newline \<notin> set l \<and>
      takeWhile (\<lambda>c. c = CHR '' '') l = replicate (2 * fst df) CHR '' '' \<and>
      (\<exists>rest. l = pad (fst df) @ ''['' @ fName (snd df) @ '']'' @ rest)) ls (concat (map (subfields 2) ?fs))"
    using dump_is_outline [of demo_formats 2 ?fs] by blast
  from r obtain l1 l2 where "ls = [l1, l2]" "newline \<notin> set l1" "newline \<notin> set l2"
    by (auto simp: list_all2_Cons2)
  with d show ?thesis by (simp del: dumpFields.simps) blast
qed

lemma sample_dump:
  "dumpFields demo_formats [container ''c'' [leaf ''n'' (Uint32Value 7)]] 0 =
     ''[c] (container)'' @ newline # ''  [n] (uint32) = 7'' @ [newline]"
proof -
  have "char_of (of_char CHR ''7'' :: nat) = CHR ''7''" by (rule char_of_char)
  then show ?thesis
    by (simp add: dump_value_def pad_def int_text_def dec_text.simps [of 7] digit_char_def)
qed

end
