(* ===== verification/FieldTree.thy ===== *)
theory FieldTree imports Telemetry begin

text \<open>
  Navigation of the GPB-KV tree in \<open>collector/main.go\<close>: \<open>findNestedField\<close>, \<open>isIfaceNode\<close>, the
  stack walk \<open>collectInterfaces\<close> and the interface name expansion \<open>expandIfName\<close>. The walk is
  proved to terminate, to equal a structural recursion, and to return exactly the interface nodes
  an inductive reachability relation describes.
\<close>

subsection \<open>YANG module prefixes and nested look-up\<close>

text \<open>\<open>if idx := strings.LastIndex(fname, ":"); idx >= 0 { fname = fname[idx+1:] }\<close>\<close>

definition strip_module :: "string \<Rightarrow> string" where
  "strip_module s =
     (case last_index (CHR '':'') s of Some idx \<Rightarrow> drop (idx + 1) s | None \<Rightarrow> s)"

fun findNestedField :: "telemetry_field list \<Rightarrow> string list \<Rightarrow> telemetry_field option" where
  "findNestedField cur [] = None"
| "findNestedField cur (name # path) =
     (case find (\<lambda>f. strip_module (fName f) = name) cur of
        None \<Rightarrow> None
      | Some f \<Rightarrow> (if path = [] then Some f else findNestedField (fFields f) path))"

definition isIfaceNode :: "telemetry_field \<Rightarrow> bool" where
  "isIfaceNode f \<longleftrightarrow>
     list_ex (\<lambda>child. strip_module (fName child) = ''name'' \<and> fValueByType child \<noteq> None)
       (fFields f)"

lemma strip_module_no_colon: "CHR '':'' \<notin> set (strip_module s)"
  by (auto simp: strip_module_def last_index_None dest: last_index_Some split: option.splits)

lemma strip_module_plain: "CHR '':'' \<notin> set s \<Longrightarrow> strip_module s = s"
  by (simp add: strip_module_def last_index_None [THEN iffD2])

lemma strip_module_idem [simp]: "strip_module (strip_module s) = strip_module s"
  by (simp add: strip_module_plain strip_module_no_colon)

lemma strip_module_prefixed:
  "CHR '':'' \<notin> set s \<Longrightarrow> strip_module (m @ '':'' @ s) = s"
  by (simp add: strip_module_def last_index_append)

text \<open>Looking up a path of two parts is looking up the first part and then the second below it.\<close>

lemma findNestedField_append:
  assumes "p \<noteq> []" and "q \<noteq> []"
  shows "findNestedField cur (p @ q) =
           Option.bind (findNestedField cur p) (\<lambda>f. findNestedField (fFields f) q)"
  using assms
  by (induction cur p rule: findNestedField.induct) (auto split: option.splits)

lemma findNestedField_name:
  "findNestedField cur p = Some f \<Longrightarrow> strip_module (fName f) = last p"
  by (induction cur p rule: findNestedField.induct)
     (auto split: option.splits if_splits dest: find_Some_mem)

text \<open>The result of a look-up sits in the tree, at the depth of the path.\<close>

inductive below :: "telemetry_field list \<Rightarrow> nat \<Rightarrow> telemetry_field \<Rightarrow> bool" where
  here: "f \<in> set fs \<Longrightarrow> below fs 1 f"
| deeper: "g \<in> set fs \<Longrightarrow> below (fFields g) n f \<Longrightarrow> below fs (Suc n) f"

lemma findNestedField_below:
  "findNestedField cur p = Some f \<Longrightarrow> below cur (length p) f"
proof (induction cur p rule: findNestedField.induct)
  case (2 cur name path)
  then show ?case
    by (auto split: option.splits if_splits dest!: find_Some_mem intro: below.intros
        simp: below.here [unfolded One_nat_def])
qed simp

subsection \<open>Collecting the interface nodes\<close>

text \<open>
  The stack of \<open>collectInterfaces\<close> grows at its end, as the Go slice does: the popped element is
  the last one. Each round moves one node off the stack and pushes (some of) its children, so the
  total size of the stack falls.
\<close>

function collect_loop ::
    "telemetry_field list \<Rightarrow> telemetry_field list \<Rightarrow> telemetry_field list" where
  "collect_loop result stack =
     (if stack = [] then result
      else
        let f = last stack; stack' = butlast stack in
        if isIfaceNode f
        then collect_loop (result @ [f]) (stack' @ filter isIfaceNode (fFields f))
        else collect_loop result (stack' @ fFields f))"
  by pat_completeness auto

lemma stack_shrinks:
  assumes "stack \<noteq> []"
  shows "sum_list (map size (butlast stack @ filter P (fFields (last stack))))
           < sum_list (map size stack)"
proof -
  have "sum_list (map size (filter P (fFields (last stack))))
          \<le> sum_list (map size (fFields (last stack)))"
    by (rule sum_list_filter_le_nat)
  also have "\<dots> < size (last stack)" by (rule size_fields)
  finally show ?thesis
    using last_butlast_sum [OF assms, of size] by simp
qed

lemma stack_shrinks_all:
  assumes "stack \<noteq> []"
  shows "sum_list (map size (butlast stack @ fFields (last stack))) < sum_list (map size stack)"
  using stack_shrinks [OF assms, of "\<lambda>_. True"] by simp

termination collect_loop
  by (relation "measure (\<lambda>(result, stack). sum_list (map size stack))")
     (use stack_shrinks stack_shrinks_all in \<open>auto simp del: sum_list_append map_append\<close>)

declare collect_loop.simps [simp del]

definition collectInterfaces :: "telemetry_field \<Rightarrow> telemetry_field list" where
  "collectInterfaces root = collect_loop [] (fFields root)"

text \<open>The same walk as a structural recursion, children visited last to first.\<close>

function ifaces :: "telemetry_field \<Rightarrow> telemetry_field list" where
  "ifaces f =
     (if isIfaceNode f
      then f # concat (map ifaces (rev (filter isIfaceNode (fFields f))))
      else concat (map ifaces (rev (fFields f))))"
  by pat_completeness auto

termination ifaces
  by (relation "measure size") (auto intro: size_child)

declare ifaces.simps [simp del]

lemma collect_loop_ifaces:
  "collect_loop result stack = result @ concat (map ifaces (rev stack))"
proof (induction result stack rule: collect_loop.induct)
  case (1 result stack)
  show ?case
  proof (cases "stack = []")
    case True
    then show ?thesis by (simp add: collect_loop.simps)
  next
    case False
    then have split: "rev stack = last stack # rev (butlast stack)"
      by (metis append_butlast_last_id rev.simps(2) rev_rev_ident)
    show ?thesis
    proof (cases "isIfaceNode (last stack)")
      case True
      with 1(1) [OF False refl refl True] False show ?thesis
        by (subst collect_loop.simps) (simp add: Let_def split ifaces.simps [of "last stack"])
    next
      case False
      with 1(2) [OF \<open>stack \<noteq> []\<close> refl refl False] \<open>stack \<noteq> []\<close> show ?thesis
        by (subst collect_loop.simps) (simp add: Let_def split ifaces.simps [of "last stack"])
    qed
  qed
qed

lemma collectInterfaces_ifaces:
  "collectInterfaces root = concat (map ifaces (rev (fFields root)))"
  by (simp add: collectInterfaces_def collect_loop_ifaces)

text \<open>
  The nodes the walk visits below \<open>f\<close>: from an interface node only along interface nodes (the
  chain links), from any other node along every child.
\<close>

inductive walks :: "telemetry_field \<Rightarrow> telemetry_field \<Rightarrow> bool" where
  self: "walks f f"
| link: "isIfaceNode f \<Longrightarrow> g \<in> set (fFields f) \<Longrightarrow> isIfaceNode g \<Longrightarrow> walks g h \<Longrightarrow> walks f h"
| descend: "\<not> isIfaceNode f \<Longrightarrow> g \<in> set (fFields f) \<Longrightarrow> walks g h \<Longrightarrow> walks f h"

inductive_cases walksE: "walks f h"

lemma ifaces_sound: "h \<in> set (ifaces f) \<Longrightarrow> isIfaceNode h \<and> walks f h"
proof (induction f rule: ifaces.induct)
  case (1 f)
  show ?case
  proof (cases "isIfaceNode f")
    case True
    with 1(1,3) show ?thesis
      by (fastforce simp: ifaces.simps [of f] intro: walks.self walks.link)
  next
    case False
    with 1(2,3) show ?thesis
      by (fastforce simp: ifaces.simps [of f] intro: walks.descend)
  qed
qed

lemma ifaces_complete: "walks f h \<Longrightarrow> isIfaceNode h \<Longrightarrow> h \<in> set (ifaces f)"
proof (induction rule: walks.induct)
  case (self f)
  then show ?case by (simp add: ifaces.simps [of f])
next
  case (link f g h)
  then show ?case by (auto simp: ifaces.simps [of f])
next
  case (descend f g h)
  then show ?case by (auto simp: ifaces.simps [of f])
qed

lemma set_ifaces: "set (ifaces f) = {h. isIfaceNode h \<and> walks f h}"
  by (auto dest: ifaces_sound intro: ifaces_complete)

lemma set_collectInterfaces:
  "set (collectInterfaces root) =
     {h. isIfaceNode h \<and> (\<exists>child \<in> set (fFields root). walks child h)}"
  by (auto simp: collectInterfaces_ifaces set_ifaces)

text \<open>The flat layout: interface siblings without interface children.\<close>

lemma ifaces_flat:
  assumes "isIfaceNode f" and "filter isIfaceNode (fFields f) = []"
  shows "ifaces f = [f]"
  using assms by (simp add: ifaces.simps)

lemma collectInterfaces_flat:
  assumes "\<And>f. f \<in> set (fFields root) \<Longrightarrow> isIfaceNode f \<and> filter isIfaceNode (fFields f) = []"
  shows "collectInterfaces root = rev (fFields root)"
proof -
  have "map ifaces (rev (fFields root)) = map (\<lambda>f. [f]) (rev (fFields root))"
    using assms by (auto intro: ifaces_flat)
  then show ?thesis by (simp only: collectInterfaces_ifaces) (induction "fFields root", auto)
qed

text \<open>The nested layout: a chain in which every interface holds the next one.\<close>

fun chain_of :: "telemetry_field list \<Rightarrow> telemetry_field list" where
  "chain_of [] = []"
| "chain_of (f # fs) =
     [TelemetryField (fTimestamp f) (fName f) (fFields f @ chain_of fs) (fValueByType f)]"

definition plain_iface :: "telemetry_field \<Rightarrow> bool" where
  "plain_iface f \<longleftrightarrow> isIfaceNode f \<and> filter isIfaceNode (fFields f) = []"

lemma isIfaceNode_append:
  "isIfaceNode (TelemetryField t n (fs @ gs) v) \<longleftrightarrow>
     isIfaceNode (TelemetryField t n fs v) \<or> isIfaceNode (TelemetryField t n gs v)"
  by (auto simp: isIfaceNode_def)

lemma isIfaceNode_fields:
  "isIfaceNode (TelemetryField t n (fFields f) v) \<longleftrightarrow> isIfaceNode f"
  by (simp add: isIfaceNode_def)

lemma ifaces_chain_names:
  assumes "\<forall>f \<in> set fs. plain_iface f"
  shows "map fName (concat (map ifaces (rev (chain_of fs)))) = map fName fs"
  using assms
proof (induction fs)
  case (Cons f fs)
  have node: "isIfaceNode (TelemetryField t n (fFields f @ chain_of fs) v)" for t n v
    using Cons.prems by (auto simp: isIfaceNode_append isIfaceNode_fields plain_iface_def)
  have "filter isIfaceNode (chain_of fs) = chain_of fs"
    using Cons.prems by (cases fs)
      (auto simp: isIfaceNode_append isIfaceNode_fields plain_iface_def)
  with node Cons show ?case
    by (simp add: ifaces.simps [of "TelemetryField _ _ _ _"] plain_iface_def)
qed simp

subsection \<open>Interface names\<close>

text \<open>The table of \<open>expandIfName\<close>, each pair the full name and the abbreviation.\<close>

definition if_prefixes :: "(string \<times> string) list" where
  "if_prefixes =
     [(''GigabitEthernet'', ''Gi''),
      (''FiveGigabitEthernet'', ''Fi''),
      (''TenGigabitEthernet'', ''Te''),
      (''FastEthernet'', ''Fa''),
      (''HundredGigE'', ''Hu''),
      (''TwentyFiveGigE'', ''Twe''),
      (''FortyGigabitEthernet'', ''Fo''),
      (''Port-channel'', ''Po''),
      (''Loopback'', ''Lo''),
      (''Vlan'', ''Vl''),
      (''Tunnel'', ''Tu'')]"

fun expand_with :: "(string \<times> string) list \<Rightarrow> string \<Rightarrow> string" where
  "expand_with [] s = s"
| "expand_with ((full, abbr) # ps) s =
     (if length s > length abbr \<and> take (length abbr) s = abbr \<and> is_digit (s ! length abbr)
      then full @ drop (length abbr) s
      else expand_with ps s)"

definition expandIfName :: "string \<Rightarrow> string" where
  "expandIfName s = expand_with if_prefixes s"

text \<open>\<open>s\<close> is the abbreviation \<open>abbr\<close> followed by a port number.\<close>

definition abbreviated :: "string \<Rightarrow> string \<Rightarrow> string \<Rightarrow> bool" where
  "abbreviated abbr rest s \<longleftrightarrow> s = abbr @ rest \<and> rest \<noteq> [] \<and> is_digit (hd rest)"

lemma expand_guard:
  "length s > length abbr \<and> take (length abbr) s = abbr \<and> is_digit (s ! length abbr) \<longleftrightarrow>
     abbreviated abbr (drop (length abbr) s) s"
proof
  assume a: "length s > length abbr \<and> take (length abbr) s = abbr \<and> is_digit (s ! length abbr)"
  then have "s = abbr @ drop (length abbr) s"
    by (metis append_take_drop_id)
  with a show "abbreviated abbr (drop (length abbr) s) s"
    by (simp add: abbreviated_def hd_drop_conv_nth)
next
  assume "abbreviated abbr (drop (length abbr) s) s"
  then obtain r where "s = abbr @ r" and "r \<noteq> []" and "is_digit (hd r)"
    by (auto simp: abbreviated_def)
  then show "length s > length abbr \<and> take (length abbr) s = abbr \<and> is_digit (s ! length abbr)"
    by (simp add: nth_append hd_conv_nth)
qed

lemma abbreviated_unique:
  assumes "abbreviated a r s" and "abbreviated b t s"
    and "\<forall>c \<in> set a. \<not> is_digit c" and "\<forall>c \<in> set b. \<not> is_digit c"
  shows "a = b \<and> r = t"
proof -
  have a: "takeWhile (\<lambda>c. \<not> is_digit c) s = a" if "abbreviated a r s" "\<forall>c \<in> set a. \<not> is_digit c"
    for a r
    using that by (cases r) (auto simp: abbreviated_def takeWhile_append)
  from a [OF assms(1,3)] a [OF assms(2,4)] have "a = b" by simp
  with assms(1,2) show ?thesis by (auto simp: abbreviated_def)
qed

lemma if_prefixes_no_digit:
  "(full, abbr) \<in> set if_prefixes \<Longrightarrow>
     (\<forall>c \<in> set abbr. \<not> is_digit c) \<and> (\<forall>c \<in> set full. \<not> is_digit c) \<and> full \<notin> snd ` set if_prefixes"
  by (auto simp: if_prefixes_def is_digit_def)

lemma if_prefixes_functional:
  "(full, abbr) \<in> set if_prefixes \<Longrightarrow> (full', abbr) \<in> set if_prefixes \<Longrightarrow> full = full'"
  by (auto simp: if_prefixes_def)

lemma expand_with_None:
  assumes "\<And>full abbr rest. (full, abbr) \<in> set ps \<Longrightarrow> \<not> abbreviated abbr rest s"
  shows "expand_with ps s = s"
  using assms
proof (induction ps)
  case (Cons p ps)
  obtain f a where p: "p = (f, a)" by (cases p)
  with Cons.prems have "\<not> abbreviated a (drop (length a) s) s" by auto
  moreover have "expand_with ps s = s" by (rule Cons.IH) (use Cons.prems in auto)
  ultimately show ?case by (simp add: p expand_guard)
qed simp

lemma expand_with_Some:
  assumes "(full, abbr) \<in> set ps" and "abbreviated abbr rest s"
    and "\<And>f a r. (f, a) \<in> set ps \<Longrightarrow> abbreviated a r s \<Longrightarrow> f = full \<and> a = abbr \<and> r = rest"
  shows "expand_with ps s = full @ rest"
  using assms
proof (induction ps)
  case (Cons p ps)
  obtain f a where p: "p = (f, a)" by (cases p)
  show ?case
  proof (cases "abbreviated a (drop (length a) s) s")
    case True
    with Cons.prems(3) [of f a "drop (length a) s"] p show ?thesis
      by (auto simp: expand_guard)
  next
    case False
    have "drop (length abbr) s = rest" using Cons.prems(2) by (auto simp: abbreviated_def)
    with False Cons.prems(1,2) p have "(full, abbr) \<in> set ps" by auto
    then have "expand_with ps s = full @ rest"
      by (rule Cons.IH [OF _ Cons.prems(2)]) (rule Cons.prems(3), auto)
    with False p show ?thesis by (simp add: expand_guard)
  qed
qed simp

lemma expandIfName_abbreviated:
  assumes "(full, abbr) \<in> set if_prefixes" and "abbreviated abbr rest s"
  shows "expandIfName s = full @ rest"
  unfolding expandIfName_def
proof (rule expand_with_Some [OF assms])
  fix f a r assume fa: "(f, a) \<in> set if_prefixes" and ab: "abbreviated a r s"
  then have "a = abbr \<and> r = rest"
    using abbreviated_unique [OF ab assms(2)] if_prefixes_no_digit assms(1) by blast
  with fa assms(1) show "f = full \<and> a = abbr \<and> r = rest"
    using if_prefixes_functional by blast
qed

lemma expandIfName_other:
  assumes "\<And>full abbr rest. (full, abbr) \<in> set if_prefixes \<Longrightarrow> \<not> abbreviated abbr rest s"
  shows "expandIfName s = s"
  using assms by (simp add: expandIfName_def expand_with_None)

lemma expanded_not_abbreviated:
  assumes "(full, abbr) \<in> set if_prefixes" and "abbreviated full rest s"
    and "(f, a) \<in> set if_prefixes"
  shows "\<not> abbreviated a r s"
  using abbreviated_unique [of a r s full rest] assms if_prefixes_no_digit
  by (metis image_eqI snd_conv)

lemma expandIfName_idem: "expandIfName (expandIfName s) = expandIfName s"
proof (cases "\<exists>full abbr rest. (full, abbr) \<in> set if_prefixes \<and> abbreviated abbr rest s")
  case True
  then obtain full abbr rest where p: "(full, abbr) \<in> set if_prefixes" and "abbreviated abbr rest s"
    by blast
  then have e: "expandIfName s = full @ rest" and "abbreviated full rest (full @ rest)"
    by (auto simp: expandIfName_abbreviated abbreviated_def)
  with p have "expandIfName (full @ rest) = full @ rest"
    by (intro expandIfName_other) (blast dest: expanded_not_abbreviated)
  with e show ?thesis by simp
next
  case False
  then show ?thesis by (simp add: expandIfName_other)
qed

subsection \<open>Properties\<close>

text \<open>C36. The stack walk of \<open>collectInterfaces\<close> ends on every tree, returns the interface nodes in
  the order of the recursive walk (last sibling first), and returns exactly the interface nodes that
  are reached from the children of the root without crossing the data of another interface.\<close>

theorem collectInterfaces_exact:
  "collectInterfaces root = concat (map ifaces (rev (fFields root))) \<and>
   set (collectInterfaces root) =
     {h. isIfaceNode h \<and> (\<exists>child. child \<in> set (fFields root) \<and> walks child h)}"
  by (auto simp: collectInterfaces_ifaces set_ifaces)

text \<open>Nested look-up follows paths: looking up the concatenation of two paths is looking up the
  second below the node found for the first, and a node that is found sits at the depth of the path
  and bears its last name.\<close>

theorem findNestedField_path:
  assumes "p \<noteq> []" and "q \<noteq> []"
  shows "findNestedField cur (p @ q) =
      Option.bind (findNestedField cur p) (\<lambda>f. findNestedField (fFields f) q) \<and>
    pred_option (\<lambda>f. below cur (length p) f \<and> strip_module (fName f) = last p) (findNestedField cur p)"
  using findNestedField_append [OF assms, of cur] findNestedField_below [of cur p]
    findNestedField_name [of cur p]
  by (cases "findNestedField cur p") auto

theorem findNestedField_path_witness:
  "findNestedField [container ''ip'' [container ''m:address'' [leaf ''mask'' (BoolValue True)]]]
     ([''ip''] @ [''address'', ''mask'']) = Some (leaf ''mask'' (BoolValue True))"
  using findNestedField_path [of "[''ip'']" "[''address'', ''mask'']"
    "[container ''ip'' [container ''m:address'' [leaf ''mask'' (BoolValue True)]]]"]
  by (simp add: strip_module_def)

text \<open>Interface names have one normal form: an abbreviated name (\<open>Gi1/0/1\<close>) and its full name
  (\<open>GigabitEthernet1/0/1\<close>) are expanded to the same full name, for every abbreviation of the table
  and every port that starts with a digit, and expanding twice changes nothing.\<close>

theorem expandIfName_normal_form:
  assumes "(full, abbr) \<in> set if_prefixes" and "port \<noteq> []" and "is_digit (hd port)"
  shows "expandIfName (abbr @ port) = full @ port \<and> expandIfName (full @ port) = full @ port \<and>
    expandIfName (expandIfName s) = expandIfName s"
proof -
  have "expandIfName (abbr @ port) = full @ port"
    using assms by (intro expandIfName_abbreviated [OF assms(1)]) (simp add: abbreviated_def)
  then show ?thesis using expandIfName_idem by metis
qed

theorem expandIfName_normal_form_witness:
  "expandIfName ''Twe1/0/1'' = ''TwentyFiveGigE1/0/1''"
  using expandIfName_normal_form [of "''TwentyFiveGigE''" "''Twe''" "''1/0/1''" "[]"]
  by (simp add: if_prefixes_def is_digit_def)

end
