(* ===== verification/IpMask.thy ===== *)
theory IpMask imports GoText begin

text \<open>
  \<open>maskToPrefixLen\<close> of \<open>collector/main.go\<close> with the standard library routines it calls:
  \<open>net.ParseIP\<close> (through \<open>netip.ParseAddr\<close>: dotted quads, IPv6 text with \<open>::\<close> and an embedded
  dotted quad, zones refused), \<open>IP.To4\<close> and \<open>IPMask.Size\<close>. Addresses are lists of octets.
\<close>

type_synonym octet = "8 word"

subsection \<open>Dotted quads\<close>

text \<open>
  \<open>parseIPv4Fields\<close>: \<open>fs\<close> holds the octets finished so far, \<open>val\<close> and \<open>digLen\<close> the octet being
  read, and \<open>prev\<close> the character before the current one (\<open>None\<close> at the start).
\<close>

fun parse_v4 :: "octet list \<Rightarrow> nat \<Rightarrow> nat \<Rightarrow> char option \<Rightarrow> string \<Rightarrow> octet list option" where
  "parse_v4 fs val digLen prev [] =
     (if length fs < 3 then None else Some (fs @ [of_nat val]))"
| "parse_v4 fs val digLen prev (c # s) =
     (if is_digit c then
        (if digLen = 1 \<and> val = 0 then None
         else let val' = val * 10 + digit_val c in
              if val' > 255 then None
              else parse_v4 fs val' (digLen + 1) (Some c) s)
      else if c = CHR ''.'' then
        (if prev = None \<or> s = [] \<or> prev = Some (CHR ''.'') then None
         else if length fs = 3 then None
         else parse_v4 (fs @ [of_nat val]) 0 0 (Some c) s)
      else None)"

definition parseIPv4 :: "string \<Rightarrow> octet list option" where
  "parseIPv4 s = parse_v4 [] 0 0 None s"

subsection \<open>IPv6 text\<close>

definition hex_val :: "char \<Rightarrow> nat option" where
  "hex_val c =
     (if 48 \<le> byte_of c \<and> byte_of c \<le> 57 then Some (byte_of c - 48)
      else if 97 \<le> byte_of c \<and> byte_of c \<le> 102 then Some (byte_of c - 97 + 10)
      else if 65 \<le> byte_of c \<and> byte_of c \<le> 70 then Some (byte_of c - 65 + 10)
      else None)"

text \<open>One group of at most four hex digits: \<open>None\<close> on a fifth digit.\<close>

fun hex_group :: "nat \<Rightarrow> nat \<Rightarrow> string \<Rightarrow> (nat \<times> nat \<times> string) option" where
  "hex_group off acc [] = Some (off, acc, [])"
| "hex_group off acc (c # s) =
     (case hex_val c of
        None \<Rightarrow> Some (off, acc, c # s)
      | Some d \<Rightarrow> (if off > 3 then None else hex_group (off + 1) (16 * acc + d) s))"

lemma hex_group_length:
  "hex_group off acc s = Some (off', acc', r) \<Longrightarrow> off' + length r = off + length s"
  by (induction off acc s rule: hex_group.induct) (auto split: option.splits if_splits)

text \<open>
  The loop of \<open>parseIPv6\<close>: \<open>ip\<close> are the octets written so far (\<open>i\<close> is their number), \<open>ell\<close> the
  position of \<open>::\<close>, \<open>s\<close> the rest of the text. The result is the octets, the ellipsis position and
  the text left over.
\<close>

function v6_loop ::
    "octet list \<Rightarrow> nat option \<Rightarrow> string \<Rightarrow> (octet list \<times> nat option \<times> string) option" where
  "v6_loop ip ell s =
     (if length ip \<ge> 16 then Some (ip, ell, s)
      else case hex_group 0 0 s of
        None \<Rightarrow> None
      | Some (off, acc, r) \<Rightarrow>
          if off = 0 then None
          else if r \<noteq> [] \<and> hd r = CHR ''.'' then
            (if ell = None \<and> length ip \<noteq> 12 then None
             else if length ip + 4 > 16 then None
             else case parseIPv4 s of None \<Rightarrow> None | Some q \<Rightarrow> Some (ip @ q, ell, []))
          else
            let ip' = ip @ [of_nat (acc div 256), of_nat acc] in
            case r of
              [] \<Rightarrow> Some (ip', ell, [])
            | c # r' \<Rightarrow>
                if c \<noteq> CHR '':'' \<or> r' = [] then None
                else if hd r' = CHR '':'' then
                  (if ell \<noteq> None then None
                   else if tl r' = [] then Some (ip', Some (length ip'), [])
                   else v6_loop ip' (Some (length ip')) (tl r'))
                else v6_loop ip' ell r')"
  by pat_completeness auto
termination
proof (relation "measure (\<lambda>(ip, ell, s). length s)", goal_cases)
  case (2 ip ell s a off b acc r ip' c r')
  then show ?case by (auto dest!: hex_group_length)
next
  case (3 ip ell s a off b acc r ip' c r')
  then show ?case by (auto dest!: hex_group_length)
qed simp

declare v6_loop.simps [simp del]

text \<open>
  After the loop the octets from the ellipsis on move to the end and zeros fill the gap; \<open>::\<close>
  must stand for at least one group.
\<close>

definition parseIPv6 :: "string \<Rightarrow> octet list option" where
  "parseIPv6 s =
     (let leading = (length s \<ge> 2 \<and> s ! 0 = CHR '':'' \<and> s ! 1 = CHR '':'');
          s' = (if leading then drop 2 s else s)
      in if leading \<and> s' = [] then Some (replicate 16 0)
         else case v6_loop [] (if leading then Some 0 else None) s' of
           None \<Rightarrow> None
         | Some (ip, ell, rest) \<Rightarrow>
             if rest \<noteq> [] then None
             else if length ip < 16 then
               (case ell of
                  None \<Rightarrow> None
                | Some e \<Rightarrow> Some (take e ip @ replicate (16 - length ip) 0 @ drop e ip))
             else if ell \<noteq> None then None
             else Some ip)"

text \<open>
  \<open>netip.ParseAddr\<close> decides on the first of \<open>.\<close>, \<open>:\<close> and \<open>%\<close>. \<open>net.ParseIP\<close> refuses every
  address with a zone, so a \<open>%\<close> anywhere in IPv6 text is a refusal. The result has the 16 octets of
  \<open>As16\<close>.
\<close>

definition parseIP :: "string \<Rightarrow> octet list option" where
  "parseIP s =
     (case find (\<lambda>c. c = CHR ''.'' \<or> c = CHR '':'' \<or> c = CHR ''%'') s of
        None \<Rightarrow> None
      | Some c \<Rightarrow>
          if c = CHR ''.'' then
            map_option (\<lambda>q. replicate 10 0 @ [255, 255] @ q) (parseIPv4 s)
          else if c = CHR '':'' then
            (if CHR ''%'' \<in> set s then None else parseIPv6 s)
          else None)"

definition To4 :: "octet list option \<Rightarrow> octet list option" where
  "To4 ip =
     (case ip of
        None \<Rightarrow> None
      | Some b \<Rightarrow>
          if length b = 4 then Some b
          else if length b = 16 \<and> take 10 b = replicate 10 0 \<and> b ! 10 = 255 \<and> b ! 11 = 255
          then Some (drop 12 b)
          else None)"

subsection \<open>\<open>IPMask.Size\<close>\<close>

text \<open>Leading one bits of an octet: \<open>for v&0x80 != 0 { n++; v <<= 1 }\<close>, then the rest must be 0.\<close>

function count_ones :: "nat \<Rightarrow> octet \<Rightarrow> nat \<times> octet" where
  "count_ones n v = (if n < 8 \<and> bit v 7 then count_ones (n + 1) (push_bit 1 v) else (n, v))"
  by pat_completeness auto
termination
  by (relation "measure (\<lambda>(n, v). 8 - n)") auto

declare count_ones.simps [simp del]

fun simpleMaskLength :: "nat \<Rightarrow> octet list \<Rightarrow> int" where
  "simpleMaskLength n [] = int n"
| "simpleMaskLength n (v # m) =
     (if v = 255 then simpleMaskLength (n + 8) m
      else let (k, r) = count_ones 0 v in
           if r \<noteq> 0 then -1
           else if list_ex (\<lambda>b. b \<noteq> 0) m then -1
           else int (n + k))"

definition mask_size :: "octet list \<Rightarrow> int" where
  "mask_size m = (let ones = simpleMaskLength 0 m in if ones = -1 then 0 else ones)"

definition maskToPrefixLen :: "string \<Rightarrow> int" where
  "maskToPrefixLen s =
     (case To4 (parseIP s) of None \<Rightarrow> 0 | Some ip \<Rightarrow> mask_size ip)"

subsection \<open>Round trip of dotted quads\<close>

definition quad_text :: "octet list \<Rightarrow> string" where
  "quad_text q =
     dec_text (unat (q ! 0)) @ ''.'' @ dec_text (unat (q ! 1)) @ ''.'' @
     dec_text (unat (q ! 2)) @ ''.'' @ dec_text (unat (q ! 3))"

lemma parse_v4_dec:
  "n \<le> 255 \<Longrightarrow>
     \<exists>c. is_digit c \<and>
       parse_v4 fs 0 0 prev (dec_text n @ rest) =
         parse_v4 fs n (length (dec_text n)) (Some c) rest"
proof (induction n arbitrary: rest rule: dec_text.induct)
  case (1 n)
  show ?case
  proof (cases "n < 10")
    case True
    then show ?thesis
      by (intro exI [of _ "digit_char n"]) (simp add: dec_text.simps)
  next
    case False
    then have pos: "n div 10 \<noteq> 0" by simp
    have "n div 10 \<le> 255" using 1(2) by simp
    with 1(1) [OF False, of "digit_char (n mod 10) # rest"] obtain c where "is_digit c"
      and "parse_v4 fs 0 0 prev (dec_text (n div 10) @ digit_char (n mod 10) # rest) =
             parse_v4 fs (n div 10) (length (dec_text (n div 10))) (Some c)
               (digit_char (n mod 10) # rest)"
      by blast
    with False pos 1(2) show ?thesis
      by (subst (1 2) dec_text.simps) (auto intro: exI [of _ "digit_char (n mod 10)"])
  qed
qed

lemma unat_octet_le: "unat (v :: octet) \<le> 255"
  using unsigned_less [of v, where ?'a = nat] by simp

lemma is_digit_dot: "\<not> is_digit (CHR ''.'')"
  by (simp add: is_digit_def)

lemma parse_v4_octet_dot:
  assumes "length fs < 3" and "s \<noteq> []"
  shows "parse_v4 fs 0 0 prev (dec_text (unat (v :: octet)) @ CHR ''.'' # s) =
           parse_v4 (fs @ [v]) 0 0 (Some (CHR ''.'')) s"
  using parse_v4_dec [OF unat_octet_le, of fs prev v "CHR ''.'' # s"] assms is_digit_dot
  by (auto simp: is_digit_def)

lemma parse_v4_octet_end:
  assumes "length fs = 3"
  shows "parse_v4 fs 0 0 prev (dec_text (unat (v :: octet))) = Some (fs @ [v])"
  using parse_v4_dec [OF unat_octet_le, of fs prev v "[]"] assms by auto

lemma parseIPv4_quad:
  assumes "length q = 4"
  shows "parseIPv4 (quad_text q) = Some q"
proof -
  obtain a b c d where q: "q = [a, b, c, d]"
    using assms by (auto simp: length_Suc_conv numeral_eq_Suc)
  show ?thesis
    by (simp add: q quad_text_def parseIPv4_def parse_v4_octet_dot parse_v4_octet_end
        dec_text_nonempty)
qed

lemma find_dot_quad:
  "find (\<lambda>c. c = CHR ''.'' \<or> c = CHR '':'' \<or> c = CHR ''%'') (quad_text q) = Some (CHR ''.'')"
proof -
  have "find (\<lambda>c. c = CHR ''.'' \<or> c = CHR '':'' \<or> c = CHR ''%'') (ds @ CHR ''.'' # s)
          = Some (CHR ''.'')" if "\<forall>c \<in> set ds. is_digit c" for ds s
    using that by (induction ds) (auto simp: is_digit_def)
  then show ?thesis
    by (simp add: quad_text_def dec_text_digits)
qed

lemma parseIP_quad:
  assumes "length q = 4"
  shows "parseIP (quad_text q) = Some (replicate 10 0 @ [255, 255] @ q)"
  using assms by (simp add: parseIP_def find_dot_quad parseIPv4_quad)

lemma To4_mapped:
  assumes "length q = 4"
  shows "To4 (Some (replicate 10 0 @ [255, 255] @ q)) = Some q"
  using assms by (simp add: To4_def nth_append)

subsection \<open>Masks\<close>

definition octet_ones :: "nat \<Rightarrow> octet" where
  "octet_ones k = of_nat (256 - 2 ^ (8 - k))"

text \<open>The mask of \<open>l\<close> octets whose first \<open>k\<close> bits are set.\<close>

fun ones_mask :: "nat \<Rightarrow> nat \<Rightarrow> octet list" where
  "ones_mask 0 k = []"
| "ones_mask (Suc l) k =
     (if k \<ge> 8 then 255 # ones_mask l (k - 8) else octet_ones k # replicate l 0)"

lemma octet_list: "(v :: octet) \<in> set (map of_nat [0..<256])"
proof -
  have "unat v < 256" using unat_octet_le [of v] by simp
  then have "of_nat (unat v) \<in> set (map of_nat [0..<256] :: octet list)" by force
  then show ?thesis by simp
qed

lemma octet_all: "list_all P (map of_nat [0..<256]) \<Longrightarrow> P (v :: octet)"
  using octet_list [of v] by (auto simp: list_all_iff)

lemma count_ones_octet: "k < 8 \<Longrightarrow> count_ones 0 (octet_ones k) = (k, 0) \<and> octet_ones k \<noteq> 255"
proof -
  have "list_all (\<lambda>k. count_ones 0 (octet_ones k) = (k, 0) \<and> octet_ones k \<noteq> 255) [0..<8]"
    by code_simp
  then show "k < 8 \<Longrightarrow> ?thesis" by (simp add: list_all_iff)
qed

lemma count_ones_zero_rest:
  "v \<noteq> 255 \<Longrightarrow> snd (count_ones 0 v) = 0 \<Longrightarrow>
     fst (count_ones 0 v) < 8 \<and> v = octet_ones (fst (count_ones 0 v))"
proof -
  have "list_all (\<lambda>v. v = 255 \<or> snd (count_ones 0 v) \<noteq> 0 \<or>
          fst (count_ones 0 v) < 8 \<and> v = octet_ones (fst (count_ones 0 v))) (map of_nat [0..<256])"
    by code_simp
  from octet_all [OF this, of v]
  show "v \<noteq> 255 \<Longrightarrow> snd (count_ones 0 v) = 0 \<Longrightarrow> ?thesis" by auto
qed

lemma simpleMaskLength_ones:
  "k \<le> 8 * l \<Longrightarrow> simpleMaskLength n (ones_mask l k) = int (n + k)"
  by (induction l arbitrary: n k) (auto simp: count_ones_octet list_ex_iff)

lemma simpleMaskLength_inv:
  "simpleMaskLength n m \<noteq> -1 \<Longrightarrow>
     \<exists>k \<le> 8 * length m. simpleMaskLength n m = int (n + k) \<and> m = ones_mask (length m) k"
proof (induction n m rule: simpleMaskLength.induct)
  case (2 n v m)
  show ?case
  proof (cases "v = 255")
    case True
    with 2 obtain k where "k \<le> 8 * length m"
      and "simpleMaskLength (n + 8) m = int (n + 8 + k)" and "m = ones_mask (length m) k" by auto
    with True show ?thesis by (intro exI [of _ "k + 8"]) simp
  next
    case False
    obtain k r where kr: "count_ones 0 v = (k, r)" by fastforce
    with False 2(2) have "r = 0" and zeros: "\<forall>b \<in> set m. b = 0"
      by (auto simp: list_ex_iff split: if_splits)
    moreover from zeros have "m = replicate (length m) 0"
      by (simp add: replicate_length_same)
    moreover have "k < 8 \<and> v = octet_ones k"
      using count_ones_zero_rest [OF False] kr \<open>r = 0\<close> by simp
    ultimately show ?thesis
      using False kr by (intro exI [of _ k]) (auto simp: list_ex_iff)
  qed
qed simp

lemma mask_size_ones: "k \<le> 8 * l \<Longrightarrow> mask_size (ones_mask l k) = int k"
  by (simp add: mask_size_def simpleMaskLength_ones)

lemma mask_size_other:
  "(\<And>k. k \<le> 8 * length m \<Longrightarrow> m \<noteq> ones_mask (length m) k) \<Longrightarrow> mask_size m = 0"
  using simpleMaskLength_inv [of 0 m] by (auto simp: mask_size_def Let_def)

lemma maskToPrefixLen_quad:
  "length m = 4 \<Longrightarrow> maskToPrefixLen (quad_text m) = mask_size m"
  by (simp add: maskToPrefixLen_def parseIP_quad To4_mapped [unfolded append.simps])

lemma length_To4: "To4 ip = Some q \<Longrightarrow> length q = 4"
  by (auto simp: To4_def split: option.splits if_splits)

lemma mask_size_bounds: "0 \<le> mask_size m \<and> mask_size m \<le> 8 * int (length m)"
proof (cases "simpleMaskLength 0 m = -1")
  case True
  then show ?thesis by (simp add: mask_size_def)
next
  case False
  with simpleMaskLength_inv [of 0 m] show ?thesis by (auto simp: mask_size_def)
qed

lemma maskToPrefixLen_bounds: "0 \<le> maskToPrefixLen s \<and> maskToPrefixLen s \<le> 32"
proof (cases "To4 (parseIP s)")
  case (Some q)
  with mask_size_bounds [of q] length_To4 [OF Some] show ?thesis
    by (simp add: maskToPrefixLen_def)
qed (simp add: maskToPrefixLen_def)

subsection \<open>Properties\<close>

text \<open>C39. \<open>maskToPrefixLen\<close> on a dotted quad is the number of leading ones when the quad is a
  netmask (ones, then zeros) and 0 for every other quad; on any string at all the result lies between
  0 and 32.\<close>

theorem maskToPrefixLen_quads:
  assumes "length q = 4"
  shows "maskToPrefixLen (quad_text q) =
      (case find (\<lambda>k. q = ones_mask 4 k) [0..<33] of Some k \<Rightarrow> int k | None \<Rightarrow> 0) \<and>
    0 \<le> maskToPrefixLen s \<and> maskToPrefixLen s \<le> 32"
proof -
  have "mask_size q = (case find (\<lambda>k. q = ones_mask 4 k) [0..<33] of Some k \<Rightarrow> int k | None \<Rightarrow> 0)"
  proof (cases "find (\<lambda>k. q = ones_mask 4 k) [0..<33]")
    case None
    then have "mask_size q = 0"
      using mask_size_other [of q] assms by (auto simp: find_None_iff)
    with None show ?thesis by simp
  next
    case (Some k)
    then have "q = ones_mask 4 k" and "k \<le> 32"
      by (auto dest!: find_Some_mem)
    with Some mask_size_ones [of k 4] show ?thesis by simp
  qed
  with maskToPrefixLen_quad [OF assms] maskToPrefixLen_bounds [of s] show ?thesis by simp
qed

theorem maskToPrefixLen_quads_witness:
  "maskToPrefixLen (quad_text [255, 255, 255, 0]) = 24 \<and>
   maskToPrefixLen (quad_text [255, 0, 255, 0]) = 0"
proof -
  have "find (\<lambda>k. [255, 255, 255, 0] = ones_mask 4 k) [0..<33] = Some 24" by code_simp
  moreover have "find (\<lambda>k. [255, 0, 255, 0] = ones_mask 4 k) [0..<33] = None" by code_simp
  ultimately show ?thesis
    using maskToPrefixLen_quads [of "[255, 255, 255, 0]"] maskToPrefixLen_quads [of "[255, 0, 255, 0]"]
    by simp
qed

end
