(* ===== verification/Collector.thy ===== *)
theory Collector imports FieldTree IpMask Payload begin

text \<open>
  \<open>collector/main.go\<close>: the four topic parsers, \<open>dispatch\<close> and the \<open>MdtDialout\<close> stream loop. The
  Kafka producer is a third-party client: \<open>fails k\<close> says whether the k-th \<open>SendMessage\<close> call
  fails, and the producer state records the calls made and the messages the broker acknowledged.
\<close>

subsection \<open>Kafka publish helpers\<close>

record kmsg =
  kTopic :: string
  kKey :: string
  kValue :: json

record producer =
  attempts :: nat
  sent :: "kmsg list"

definition SendMessage ::
    "(nat \<Rightarrow> bool) \<Rightarrow> kmsg \<Rightarrow> producer \<Rightarrow> go_error option \<times> producer" where
  "SendMessage fails m p =
     (if fails (attempts p) then (Some SendError, p\<lparr>attempts := attempts p + 1\<rparr>)
      else (None, p\<lparr>attempts := attempts p + 1, sent := sent p @ [m]\<rparr>))"

definition buildMsg :: "string \<Rightarrow> string \<Rightarrow> go_error + json \<Rightarrow> go_error + kmsg" where
  "buildMsg topic key v =
     (case v of
        Inl e \<Rightarrow> Inl e
      | Inr b \<Rightarrow> Inr \<lparr>kTopic = topic, kKey = key, kValue = b\<rparr>)"

definition publish ::
    "(nat \<Rightarrow> bool) \<Rightarrow> string \<Rightarrow> string \<Rightarrow> go_error + json \<Rightarrow> producer \<Rightarrow>
     go_error option \<times> producer" where
  "publish fails topic key v p =
     (case buildMsg topic key v of
        Inl e \<Rightarrow> (Some e, p)
      | Inr m \<Rightarrow> SendMessage fails m p)"

subsection \<open>Paths\<close>

definition isMAC :: "string \<Rightarrow> bool" where
  "isMAC path \<longleftrightarrow> path = ''Cisco-IOS-XE-matm-oper:matm-oper-data/matm-table/matm-mac-entry''"

definition isARP :: "string \<Rightarrow> bool" where
  "isARP path \<longleftrightarrow> path = ''Cisco-IOS-XE-arp-oper:arp-data/arp-vrf/arp-entry'' \<or>
     path = ''arp-ios-xe-oper:arp-data/arp-vrf/arp-entry''"

definition isInterface :: "string \<Rightarrow> bool" where
  "isInterface path \<longleftrightarrow> path = ''Cisco-IOS-XE-native:native/interface''"

definition isVlan :: "string \<Rightarrow> bool" where
  "isVlan path \<longleftrightarrow> path = ''openconfig-vlan:vlans/vlan'' \<or>
     path = ''Cisco-IOS-XE-vlan-oper:vlans/vlan''"

subsection \<open>MAC and ARP tables\<close>

text \<open>\<open>time.UnixMilli(int64(t.MsgTimestamp))\<close>: the conversion reads the 64 bits as signed.\<close>

definition msg_time :: "telemetry \<Rightarrow> instant" where
  "msg_time t = sint (MsgTimestamp t)"

text \<open>Leaves sit one level down, inside the containers of a row, or directly in the row.\<close>

definition walk_row ::
    "(telemetry_field \<Rightarrow> 'e \<Rightarrow> 'e) \<Rightarrow> telemetry_field list \<Rightarrow> 'e \<Rightarrow> 'e" where
  "walk_row app containers e =
     fold (\<lambda>container e.
         if length (fFields container) > 0 then fold app (fFields container) e
         else app container e)
       containers e"

definition applyMAC :: "telemetry_field \<Rightarrow> mac_entry \<Rightarrow> mac_entry" where
  "applyMAC f entry =
     (if fName f = ''mac'' \<or> fName f = ''mac-address'' then
        entry\<lparr>mMacAddress := GetStringValue f\<rparr>
      else if fName f = ''port'' \<or> fName f = ''interface'' then
        entry\<lparr>mInterface := expandIfName (GetStringValue f)\<rparr>
      else if fName f = ''vlan-id-number'' \<or> fName f = ''vlan-id'' then
        entry\<lparr>mVlan := GetUint32Value f\<rparr>
      else if fName f = ''mat-addr-type'' \<or> fName f = ''mac-type'' then
        entry\<lparr>mType := GetStringValue f\<rparr>
      else entry)"

definition mac_of_row :: "instant \<Rightarrow> string \<Rightarrow> telemetry_field \<Rightarrow> mac_entry" where
  "mac_of_row ts node row =
     walk_row applyMAC (fFields row)
       \<lparr>mTimestamp = ts, mNodeID = node, mMacAddress = [], mInterface = [], mVlan = 0, mType = []\<rparr>"

definition mac_entries :: "telemetry \<Rightarrow> mac_entry list" where
  "mac_entries t =
     filter (\<lambda>entry. mMacAddress entry \<noteq> [])
       (map (mac_of_row (msg_time t) (NodeIdStr t)) (DataGpbkv t))"

definition publishMAC ::
    "(nat \<Rightarrow> bool) \<Rightarrow> telemetry \<Rightarrow> producer \<Rightarrow> go_error option \<times> producer" where
  "publishMAC fails t p =
     (let entries = mac_entries t in
      if entries = [] then (None, p)
      else case buildMsg ''mac-table'' (NodeIdStr t)
                  (marshal (map mTimestamp entries) (JArr (map mac_json entries))) of
             Inl err \<Rightarrow> (Some err, p)
           | Inr msg \<Rightarrow> SendMessage fails msg p)"

definition applyARP :: "telemetry_field \<Rightarrow> arp_entry \<Rightarrow> arp_entry" where
  "applyARP f entry =
     (if fName f = ''address'' then entry\<lparr>aIPAddress := GetStringValue f\<rparr>
      else if fName f = ''hardware'' then entry\<lparr>aMacAddress := GetStringValue f\<rparr>
      else if fName f = ''interface'' then
        entry\<lparr>aInterface := expandIfName (GetStringValue f)\<rparr>
      else if fName f = ''time-to-live'' then entry\<lparr>aAge := GetUint32Value f\<rparr>
      else entry)"

definition arp_of_row :: "instant \<Rightarrow> string \<Rightarrow> telemetry_field \<Rightarrow> arp_entry" where
  "arp_of_row ts node row =
     walk_row applyARP (fFields row)
       \<lparr>aTimestamp = ts, aNodeID = node, aIPAddress = [], aMacAddress = [], aInterface = [],
        aAge = 0\<rparr>"

definition arp_entries :: "telemetry \<Rightarrow> arp_entry list" where
  "arp_entries t =
     filter (\<lambda>entry. aIPAddress entry \<noteq> [])
       (map (arp_of_row (msg_time t) (NodeIdStr t)) (DataGpbkv t))"

definition publishARP ::
    "(nat \<Rightarrow> bool) \<Rightarrow> telemetry \<Rightarrow> producer \<Rightarrow> go_error option \<times> producer" where
  "publishARP fails t p =
     (let entries = arp_entries t in
      if entries = [] then (None, p)
      else case buildMsg ''arp-table'' (NodeIdStr t)
                  (marshal (map aTimestamp entries) (JArr (map arp_json entries))) of
             Inl err \<Rightarrow> (Some err, p)
           | Inr msg \<Rightarrow> SendMessage fails msg p)"

subsection \<open>Interfaces\<close>

definition if_name :: "string \<Rightarrow> telemetry_field \<Rightarrow> string" where
  "if_name ifType f =
     (if GetStringValue f \<noteq> [] then ifType @ GetStringValue f
      else ifType @ dec_text (unat (GetUint32Value f)))"

definition apply_ip :: "telemetry_field \<Rightarrow> if_entry \<Rightarrow> if_entry" where
  "apply_ip f entry =
     (let entry1 =
        (case findNestedField (fFields f) [''address'', ''primary'', ''address''] of
           Some addr \<Rightarrow> entry\<lparr>iIPAddress := Some (GetStringValue addr)\<rparr>
         | None \<Rightarrow> entry)
      in case findNestedField (fFields f) [''address'', ''primary'', ''mask''] of
           Some m \<Rightarrow> entry1\<lparr>iPrefixLen := Some (maskToPrefixLen (GetStringValue m))\<rparr>
         | None \<Rightarrow> entry1)"

definition vlan16 :: "telemetry_field \<Rightarrow> 16 word" where
  "vlan16 f = ucast (GetUint32Value f)"

definition apply_switchport_config :: "telemetry_field \<Rightarrow> if_entry \<Rightarrow> if_entry" where
  "apply_switchport_config f entry =
     (let entry1 =
        (case findNestedField (fFields f) [''switchport'', ''voice'', ''vlan'', ''vlan''] of
           Some v \<Rightarrow> entry\<lparr>iVoiceVlan := Some (vlan16 v)\<rparr>
         | None \<Rightarrow> entry)
      in case findNestedField (fFields f) [''switchport'', ''access'', ''vlan'', ''vlan''] of
           Some a \<Rightarrow> entry1\<lparr>iAccessVlan := Some (vlan16 a)\<rparr>
         | None \<Rightarrow> entry1)"

definition apply_switchport :: "telemetry_field \<Rightarrow> if_entry \<Rightarrow> if_entry" where
  "apply_switchport f entry =
     (let entry1 =
        (if iVoiceVlan entry = None then
           (case findNestedField (fFields f) [''voice'', ''vlan'', ''vlan''] of
              Some v \<Rightarrow> entry\<lparr>iVoiceVlan := Some (vlan16 v)\<rparr>
            | None \<Rightarrow> entry)
         else entry)
      in if iAccessVlan entry1 = None then
           (case findNestedField (fFields f) [''access'', ''vlan'', ''vlan''] of
              Some a \<Rightarrow> entry1\<lparr>iAccessVlan := Some (vlan16 a)\<rparr>
            | None \<Rightarrow> entry1)
         else entry1)"

definition apply_if :: "string \<Rightarrow> telemetry_field \<Rightarrow> if_entry \<Rightarrow> if_entry" where
  "apply_if ifType f entry =
     (if isIfaceNode f then entry
      else if fName f = ''name'' then entry\<lparr>iName := if_name ifType f\<rparr>
      else if fName f = ''description'' then entry\<lparr>iDescription := Some (GetStringValue f)\<rparr>
      else if fName f = ''mtu'' then entry\<lparr>iMTU := GetUint32Value f\<rparr>
      else if fName f = ''shutdown'' then entry\<lparr>iShutdown := True\<rparr>
      else if fName f = ''vrf'' then
        (case findNestedField (fFields f) [''forwarding''] of
           Some fw \<Rightarrow> entry\<lparr>iVRF := GetStringValue fw\<rparr>
         | None \<Rightarrow> entry)
      else if fName f = ''ip'' then apply_ip f entry
      else if fName f = ''switchport-config'' then apply_switchport_config f entry
      else if fName f = ''switchport'' then apply_switchport f entry
      else entry)"

definition empty_if :: "instant \<Rightarrow> string \<Rightarrow> if_entry" where
  "empty_if ts node =
     \<lparr>iTimestamp = ts, iNodeID = node, iName = [], iDescription = None, iShutdown = False,
      iIPAddress = None, iPrefixLen = None, iVRF = [], iMTU = 0, iAccessVlan = None,
      iVoiceVlan = None\<rparr>"

definition if_of_node :: "instant \<Rightarrow> string \<Rightarrow> telemetry_field \<Rightarrow> if_entry" where
  "if_of_node ts node iface = fold (apply_if (fName iface)) (fFields iface) (empty_if ts node)"

text \<open>The inner loop: one message per interface with a name, the first error returned at once.\<close>

fun publish_ifaces ::
    "(nat \<Rightarrow> bool) \<Rightarrow> instant \<Rightarrow> string \<Rightarrow> telemetry_field list \<Rightarrow> producer \<Rightarrow>
     go_error option \<times> producer" where
  "publish_ifaces fails ts node [] p = (None, p)"
| "publish_ifaces fails ts node (iface # rest) p =
     (let entry = if_of_node ts node iface in
      if iName entry = [] then publish_ifaces fails ts node rest p
      else case publish fails ''interface-table'' (iNodeID entry @ ''/'' @ iName entry)
                  (marshal [iTimestamp entry] (if_json entry)) p of
             (Some err, p') \<Rightarrow> (Some err, p')
           | (None, p') \<Rightarrow> publish_ifaces fails ts node rest p')"

fun publish_if_rows ::
    "(nat \<Rightarrow> bool) \<Rightarrow> instant \<Rightarrow> string \<Rightarrow> telemetry_field list \<Rightarrow> producer \<Rightarrow>
     go_error option \<times> producer" where
  "publish_if_rows fails ts node [] p = (None, p)"
| "publish_if_rows fails ts node (row # rows) p =
     (case find (\<lambda>f. fName f = ''content'') (fFields row) of
        None \<Rightarrow> publish_if_rows fails ts node rows p
      | Some content \<Rightarrow>
          (case publish_ifaces fails ts node (collectInterfaces content) p of
             (Some err, p') \<Rightarrow> (Some err, p')
           | (None, p') \<Rightarrow> publish_if_rows fails ts node rows p'))"

definition publishInterface ::
    "(nat \<Rightarrow> bool) \<Rightarrow> telemetry \<Rightarrow> producer \<Rightarrow> go_error option \<times> producer" where
  "publishInterface fails t p =
     publish_if_rows fails (msg_time t) (NodeIdStr t) (DataGpbkv t) p"

subsection \<open>VLANs\<close>

definition apply_vlan_keys :: "telemetry_field \<Rightarrow> vlan_entry \<Rightarrow> vlan_entry" where
  "apply_vlan_keys c entry =
     (case findNestedField (fFields c) [''id''] of
        Some f \<Rightarrow> entry\<lparr>vVlanID := GetUint32Value f\<rparr>
      | None \<Rightarrow>
          (case findNestedField (fFields c) [''vlan-id''] of
             Some f \<Rightarrow> entry\<lparr>vVlanID := GetUint32Value f\<rparr>
           | None \<Rightarrow> entry))"

definition apply_vlan_content :: "telemetry_field \<Rightarrow> vlan_entry \<Rightarrow> vlan_entry" where
  "apply_vlan_content c entry =
     (let e1 = (case findNestedField (fFields c) [''name''] of
                  Some f \<Rightarrow> entry\<lparr>vName := Some (GetStringValue f)\<rparr>
                | None \<Rightarrow> entry);
          e2 = (case findNestedField (fFields c) [''status''] of
                  Some f \<Rightarrow> e1\<lparr>vStatus := GetStringValue f\<rparr>
                | None \<Rightarrow> e1);
          e3 = (if vName e2 = None then
                  (case findNestedField (fFields c) [''state'', ''name''] of
                     Some f \<Rightarrow> e2\<lparr>vName := Some (GetStringValue f)\<rparr>
                   | None \<Rightarrow> e2)
                else e2)
      in if vStatus e3 = [] then
           (case findNestedField (fFields c) [''state'', ''status''] of
              Some f \<Rightarrow> e3\<lparr>vStatus := GetStringValue f\<rparr>
            | None \<Rightarrow> e3)
         else e3)"

definition apply_vlan :: "telemetry_field \<Rightarrow> vlan_entry \<Rightarrow> vlan_entry" where
  "apply_vlan c entry =
     (if fName c = ''keys'' then apply_vlan_keys c entry
      else if fName c = ''content'' then apply_vlan_content c entry
      else entry)"

definition vlan_of_row :: "instant \<Rightarrow> string \<Rightarrow> telemetry_field \<Rightarrow> vlan_entry" where
  "vlan_of_row ts node row =
     fold apply_vlan (fFields row)
       \<lparr>vTimestamp = ts, vNodeID = node, vVlanID = 0, vName = None, vStatus = []\<rparr>"

fun publish_vlan_rows ::
    "(nat \<Rightarrow> bool) \<Rightarrow> instant \<Rightarrow> string \<Rightarrow> telemetry_field list \<Rightarrow> producer \<Rightarrow>
     go_error option \<times> producer" where
  "publish_vlan_rows fails ts node [] p = (None, p)"
| "publish_vlan_rows fails ts node (row # rows) p =
     (let entry = vlan_of_row ts node row in
      if vVlanID entry = 0 then publish_vlan_rows fails ts node rows p
      else case publish fails ''vlan-table''
                  (vNodeID entry @ ''/'' @ dec_text (unat (vVlanID entry)))
                  (marshal [vTimestamp entry] (vlan_json entry)) p of
             (Some err, p') \<Rightarrow> (Some err, p')
           | (None, p') \<Rightarrow> publish_vlan_rows fails ts node rows p')"

definition publishVlan ::
    "(nat \<Rightarrow> bool) \<Rightarrow> telemetry \<Rightarrow> producer \<Rightarrow> go_error option \<times> producer" where
  "publishVlan fails t p =
     publish_vlan_rows fails (msg_time t) (NodeIdStr t) (DataGpbkv t) p"

subsection \<open>Dispatch and the stream\<close>

definition dispatch ::
    "(nat \<Rightarrow> bool) \<Rightarrow> telemetry \<Rightarrow> producer \<Rightarrow> go_error option \<times> producer" where
  "dispatch fails t p =
     (if isMAC (EncodingPath t) then publishMAC fails t p
      else if isARP (EncodingPath t) then publishARP fails t p
      else if isInterface (EncodingPath t) then publishInterface fails t p
      else if isVlan (EncodingPath t) then publishVlan fails t p
      else (None, p))"

text \<open>
  What \<open>stream.Recv\<close> returns: an error, or the bytes of the wrapper's data field.
  \<open>proto.Unmarshal\<close> is the protobuf library's, the parameter \<open>decode\<close>. The loop handles the
  results it is given; \<open>None\<close> as its status means it still waits in \<open>Recv\<close>. The last component
  counts the acknowledgements sent (a failing \<open>stream.Send\<close> is only logged).
\<close>

datatype recv = RecvErr | RecvArgs "8 word list"

fun MdtDialout ::
    "(8 word list \<Rightarrow> telemetry option) \<Rightarrow> (nat \<Rightarrow> bool) \<Rightarrow> recv list \<Rightarrow> producer \<Rightarrow> nat \<Rightarrow>
     go_error option \<times> producer \<times> nat" where
  "MdtDialout decode fails [] p acks = (None, p, acks)"
| "MdtDialout decode fails (RecvErr # rs) p acks = (Some Unavailable, p, acks)"
| "MdtDialout decode fails (RecvArgs data # rs) p acks =
     (if length data = 0 then MdtDialout decode fails rs p acks
      else case decode data of
             None \<Rightarrow> MdtDialout decode fails rs p acks
           | Some msg \<Rightarrow>
               MdtDialout decode fails rs (snd (dispatch fails msg p)) (acks + 1))"

subsection \<open>What the parsers extract\<close>

lemma fold_frame: "(\<And>x s. g (f x s) = g s) \<Longrightarrow> g (fold f xs s) = g s"
  by (induction xs arbitrary: s) auto

lemma walk_row_frame:
  assumes "\<And>f e. g (app f e) = g e"
  shows "g (walk_row app cs e) = g e"
  unfolding walk_row_def by (rule fold_frame) (simp add: fold_frame [of g, OF assms] assms)

lemma mac_of_row_frame [simp]:
  "mTimestamp (mac_of_row ts node row) = ts" "mNodeID (mac_of_row ts node row) = node"
  unfolding mac_of_row_def
  by (subst walk_row_frame [where g = mTimestamp], simp_all add: applyMAC_def)
     (subst walk_row_frame [where g = mNodeID], simp_all add: applyMAC_def)

lemma arp_of_row_frame [simp]:
  "aTimestamp (arp_of_row ts node row) = ts" "aNodeID (arp_of_row ts node row) = node"
  unfolding arp_of_row_def
  by (subst walk_row_frame [where g = aTimestamp], simp_all add: applyARP_def)
     (subst walk_row_frame [where g = aNodeID], simp_all add: applyARP_def)

lemma apply_ip_frame:
  "iTimestamp (apply_ip f e) = iTimestamp e" "iNodeID (apply_ip f e) = iNodeID e"
  by (simp_all add: apply_ip_def Let_def split: option.split)

lemma apply_switchport_config_frame:
  "iTimestamp (apply_switchport_config f e) = iTimestamp e"
  "iNodeID (apply_switchport_config f e) = iNodeID e"
  "iPrefixLen (apply_switchport_config f e) = iPrefixLen e"
  by (simp_all add: apply_switchport_config_def Let_def split: option.split)

lemma apply_switchport_frame:
  "iTimestamp (apply_switchport f e) = iTimestamp e"
  "iNodeID (apply_switchport f e) = iNodeID e"
  "iPrefixLen (apply_switchport f e) = iPrefixLen e"
  by (simp_all add: apply_switchport_def Let_def split: option.split)

lemmas apply_parts_frame = apply_ip_frame apply_switchport_config_frame apply_switchport_frame

lemma apply_if_frame:
  "iTimestamp (apply_if ty f e) = iTimestamp e"
  "iNodeID (apply_if ty f e) = iNodeID e"
  unfolding apply_if_def by (simp_all add: apply_parts_frame split: option.split)

lemma if_of_node_frame [simp]:
  "iTimestamp (if_of_node ts node f) = ts" "iNodeID (if_of_node ts node f) = node"
proof -
  show "iTimestamp (if_of_node ts node f) = ts"
    unfolding if_of_node_def
    by (subst fold_frame [where g = iTimestamp]) (simp_all add: apply_if_frame empty_if_def)
  show "iNodeID (if_of_node ts node f) = node"
    unfolding if_of_node_def
    by (subst fold_frame [where g = iNodeID]) (simp_all add: apply_if_frame empty_if_def)
qed

lemma apply_vlan_keys_frame:
  "vTimestamp (apply_vlan_keys f e) = vTimestamp e" "vNodeID (apply_vlan_keys f e) = vNodeID e"
  "vName (apply_vlan_keys f e) = vName e" "vStatus (apply_vlan_keys f e) = vStatus e"
  by (simp_all add: apply_vlan_keys_def split: option.split)

lemma apply_vlan_content_frame:
  "vTimestamp (apply_vlan_content f e) = vTimestamp e"
  "vNodeID (apply_vlan_content f e) = vNodeID e"
  "vVlanID (apply_vlan_content f e) = vVlanID e"
  by (simp_all add: apply_vlan_content_def Let_def split: option.split)

lemma apply_vlan_frame:
  "vTimestamp (apply_vlan f e) = vTimestamp e" "vNodeID (apply_vlan f e) = vNodeID e"
  by (simp_all add: apply_vlan_def apply_vlan_keys_frame apply_vlan_content_frame)

lemma vlan_of_row_frame [simp]:
  "vTimestamp (vlan_of_row ts node row) = ts" "vNodeID (vlan_of_row ts node row) = node"
proof -
  show "vTimestamp (vlan_of_row ts node row) = ts"
    unfolding vlan_of_row_def
    by (subst fold_frame [where g = vTimestamp]) (simp_all add: apply_vlan_frame)
  show "vNodeID (vlan_of_row ts node row) = node"
    unfolding vlan_of_row_def
    by (subst fold_frame [where g = vNodeID]) (simp_all add: apply_vlan_frame)
qed

text \<open>A prefix length, when present, is one of 0 to 32.\<close>

definition prefix_ok :: "if_entry \<Rightarrow> bool" where
  "prefix_ok e \<longleftrightarrow> (\<forall>n. iPrefixLen e = Some n \<longrightarrow> 0 \<le> n \<and> n \<le> 32)"

lemma apply_ip_prefix: "prefix_ok e \<Longrightarrow> prefix_ok (apply_ip f e)"
  using maskToPrefixLen_bounds
  by (auto simp: prefix_ok_def apply_ip_def Let_def split: option.split)

lemma apply_if_prefix: "prefix_ok e \<Longrightarrow> prefix_ok (apply_if ty f e)"
  unfolding apply_if_def
  by (simp add: apply_ip_prefix)
     (simp add: prefix_ok_def apply_parts_frame split: option.split)

lemma if_of_node_prefix: "prefix_ok (if_of_node ts node f)"
  unfolding if_of_node_def
  by (rule fold_preserves) (simp_all add: apply_if_prefix, simp add: prefix_ok_def empty_if_def)

subsection \<open>What is published\<close>

text \<open>The Kafka messages one telemetry message asks for, in order.\<close>

definition if_msg :: "if_entry \<Rightarrow> kmsg" where
  "if_msg e = \<lparr>kTopic = ''interface-table'', kKey = iNodeID e @ ''/'' @ iName e, kValue = if_json e\<rparr>"

definition vlan_msg :: "vlan_entry \<Rightarrow> kmsg" where
  "vlan_msg e = \<lparr>kTopic = ''vlan-table'', kKey = vNodeID e @ ''/'' @ dec_text (unat (vVlanID e)),
     kValue = vlan_json e\<rparr>"

definition row_ifaces :: "telemetry_field \<Rightarrow> telemetry_field list" where
  "row_ifaces row =
     (case find (\<lambda>f. fName f = ''content'') (fFields row) of
        None \<Rightarrow> [] | Some content \<Rightarrow> collectInterfaces content)"

definition if_entries :: "telemetry \<Rightarrow> if_entry list" where
  "if_entries t =
     filter (\<lambda>e. iName e \<noteq> [])
       (map (if_of_node (msg_time t) (NodeIdStr t)) (concat (map row_ifaces (DataGpbkv t))))"

definition vlan_entries :: "telemetry \<Rightarrow> vlan_entry list" where
  "vlan_entries t =
     filter (\<lambda>e. vVlanID e \<noteq> 0) (map (vlan_of_row (msg_time t) (NodeIdStr t)) (DataGpbkv t))"

definition published :: "telemetry \<Rightarrow> kmsg list" where
  "published t =
     (if isMAC (EncodingPath t) then
        (if mac_entries t = [] then []
         else [\<lparr>kTopic = ''mac-table'', kKey = NodeIdStr t,
                kValue = JArr (map mac_json (mac_entries t))\<rparr>])
      else if isARP (EncodingPath t) then
        (if arp_entries t = [] then []
         else [\<lparr>kTopic = ''arp-table'', kKey = NodeIdStr t,
                kValue = JArr (map arp_json (arp_entries t))\<rparr>])
      else if isInterface (EncodingPath t) then map if_msg (if_entries t)
      else if isVlan (EncodingPath t) then map vlan_msg (vlan_entries t)
      else [])"

text \<open>The specification of publishing: messages are sent in order up to the first failure.\<close>

fun send_all ::
    "(nat \<Rightarrow> bool) \<Rightarrow> kmsg list \<Rightarrow> producer \<Rightarrow> go_error option \<times> producer" where
  "send_all fails [] p = (None, p)"
| "send_all fails (m # ms) p =
     (case SendMessage fails m p of
        (Some err, p') \<Rightarrow> (Some err, p')
      | (None, p') \<Rightarrow> send_all fails ms p')"

lemma send_all_append:
  "send_all fails (ms @ ns) p =
     (case send_all fails ms p of
        (Some err, p') \<Rightarrow> (Some err, p')
      | (None, p') \<Rightarrow> send_all fails ns p')"
  by (induction ms arbitrary: p) (auto split: prod.splits option.splits)

lemma SendMessage_cases:
  "SendMessage fails m p = (None, p\<lparr>attempts := attempts p + 1, sent := sent p @ [m]\<rparr>) \<and>
     \<not> fails (attempts p) \<or>
   SendMessage fails m p = (Some SendError, p\<lparr>attempts := attempts p + 1\<rparr>) \<and> fails (attempts p)"
  by (simp add: SendMessage_def)

lemma send_all_prefix:
  "\<exists>k \<le> length ms.
     sent (snd (send_all fails ms p)) = sent p @ take k ms \<and>
     (fst (send_all fails ms p) = None \<longleftrightarrow> k = length ms) \<and>
     (fst (send_all fails ms p) \<noteq> None \<longrightarrow>
        fst (send_all fails ms p) = Some SendError \<and> fails (attempts p + k))"
proof (induction ms arbitrary: p)
  case (Cons m ms)
  show ?case
  proof (cases "fails (attempts p)")
    case True
    then show ?thesis by (intro exI [of _ 0]) (simp add: SendMessage_def)
  next
    case False
    from Cons.IH [of "p\<lparr>attempts := attempts p + 1, sent := sent p @ [m]\<rparr>"] obtain k
      where "k \<le> length ms" and "sent (snd (send_all fails ms
          (p\<lparr>attempts := attempts p + 1, sent := sent p @ [m]\<rparr>))) = (sent p @ [m]) @ take k ms"
        and "fst (send_all fails ms (p\<lparr>attempts := attempts p + 1, sent := sent p @ [m]\<rparr>)) = None
               \<longleftrightarrow> k = length ms"
        and "fst (send_all fails ms (p\<lparr>attempts := attempts p + 1, sent := sent p @ [m]\<rparr>)) \<noteq> None
               \<longrightarrow> fst (send_all fails ms (p\<lparr>attempts := attempts p + 1, sent := sent p @ [m]\<rparr>))
                     = Some SendError \<and> fails (attempts p + 1 + k)"
      by auto
    with False show ?thesis by (intro exI [of _ "Suc k"]) (simp add: SendMessage_def)
  qed
qed simp

lemma send_all_no_faults:
  assumes "\<forall>k. \<not> fails k"
  shows "fst (send_all fails ms p) = None \<and> sent (snd (send_all fails ms p)) = sent p @ ms"
  using send_all_prefix [of ms fails p] assms by force

lemma marshal_ok: "year_ok ts \<Longrightarrow> (\<forall>u \<in> set us. u = ts) \<Longrightarrow> marshal us v = Inr v"
  by (auto simp: marshal_def list_all_iff)

lemma marshal_bad: "\<not> year_ok ts \<Longrightarrow> ts \<in> set us \<Longrightarrow> marshal us v = Inl MarshalError"
  by (auto simp: marshal_def list_all_iff)

lemma publish_Inr:
  "publish fails topic key (Inr b) p =
     SendMessage fails \<lparr>kTopic = topic, kKey = key, kValue = b\<rparr> p"
  by (simp add: publish_def buildMsg_def)

lemma publish_Inl: "publish fails topic key (Inl e) p = (Some e, p)"
  by (simp add: publish_def buildMsg_def)

lemma publish_ifaces_spec:
  assumes "year_ok ts"
  shows "publish_ifaces fails ts node ifs p =
    send_all fails (map if_msg (filter (\<lambda>e. iName e \<noteq> []) (map (if_of_node ts node) ifs))) p"
  by (induction ifs arbitrary: p)
     (auto simp: Let_def marshal_ok [OF assms] publish_Inr if_msg_def split: prod.split option.split)

lemma publish_if_rows_spec:
  assumes "year_ok ts"
  shows "publish_if_rows fails ts node rows p =
    send_all fails (map if_msg (filter (\<lambda>e. iName e \<noteq> [])
      (map (if_of_node ts node) (concat (map row_ifaces rows))))) p"
  by (induction rows arbitrary: p)
     (auto simp: publish_ifaces_spec [OF assms] row_ifaces_def send_all_append
       split: option.split prod.split)

lemma publish_vlan_rows_spec:
  assumes "year_ok ts"
  shows "publish_vlan_rows fails ts node rows p =
    send_all fails (map vlan_msg (filter (\<lambda>e. vVlanID e \<noteq> 0) (map (vlan_of_row ts node) rows))) p"
  by (induction rows arbitrary: p)
     (auto simp: Let_def marshal_ok [OF assms] publish_Inr vlan_msg_def
       split: prod.split option.split)

lemma publish_ifaces_bad:
  assumes "\<not> year_ok ts"
  shows "publish_ifaces fails ts node ifs p =
    (if filter (\<lambda>e. iName e \<noteq> []) (map (if_of_node ts node) ifs) = [] then None
     else Some MarshalError, p)"
  by (induction ifs) (auto simp: Let_def marshal_bad [OF assms] publish_Inl)

lemma publish_if_rows_bad:
  assumes "\<not> year_ok ts"
  shows "publish_if_rows fails ts node rows p =
    (if filter (\<lambda>e. iName e \<noteq> []) (map (if_of_node ts node) (concat (map row_ifaces rows))) = []
     then None else Some MarshalError, p)"
  by (induction rows)
     (auto simp: publish_ifaces_bad [OF assms] row_ifaces_def split: option.split)

lemma publish_vlan_rows_bad:
  assumes "\<not> year_ok ts"
  shows "publish_vlan_rows fails ts node rows p =
    (if filter (\<lambda>e. vVlanID e \<noteq> 0) (map (vlan_of_row ts node) rows) = [] then None
     else Some MarshalError, p)"
  by (induction rows) (auto simp: Let_def marshal_bad [OF assms] publish_Inl)

lemma mac_entries_time: "u \<in> set (map mTimestamp (mac_entries t)) \<Longrightarrow> u = msg_time t"
  by (auto simp: mac_entries_def)

lemma arp_entries_time: "u \<in> set (map aTimestamp (arp_entries t)) \<Longrightarrow> u = msg_time t"
  by (auto simp: arp_entries_def)

lemma send_one: "send_all fails [m] p = SendMessage fails m p"
  using SendMessage_cases [of fails m p] by auto

lemma some_time: "es \<noteq> [] \<Longrightarrow> (\<And>u. u \<in> set (map f es) \<Longrightarrow> u = ts) \<Longrightarrow> ts \<in> set (map f es)"
  by (cases es) auto

lemma publishMAC_spec:
  "publishMAC fails t p =
     (if mac_entries t = [] then (None, p)
      else if year_ok (msg_time t) then
        SendMessage fails \<lparr>kTopic = ''mac-table'', kKey = NodeIdStr t,
          kValue = JArr (map mac_json (mac_entries t))\<rparr> p
      else (Some MarshalError, p))"
proof (cases "mac_entries t = []")
  case False
  with marshal_bad [OF _ some_time [OF False mac_entries_time]] show ?thesis
    by (simp add: publishMAC_def buildMsg_def marshal_ok mac_entries_time del: set_map)
qed (simp add: publishMAC_def)

lemma publishARP_spec:
  "publishARP fails t p =
     (if arp_entries t = [] then (None, p)
      else if year_ok (msg_time t) then
        SendMessage fails \<lparr>kTopic = ''arp-table'', kKey = NodeIdStr t,
          kValue = JArr (map arp_json (arp_entries t))\<rparr> p
      else (Some MarshalError, p))"
proof (cases "arp_entries t = []")
  case False
  with marshal_bad [OF _ some_time [OF False arp_entries_time]] show ?thesis
    by (simp add: publishARP_def buildMsg_def marshal_ok arp_entries_time del: set_map)
qed (simp add: publishARP_def)

lemma dispatch_spec:
  "dispatch fails t p =
     (if year_ok (msg_time t) then send_all fails (published t) p
      else (if published t = [] then None else Some MarshalError, p))"
  by (simp add: dispatch_def published_def publishMAC_spec publishARP_spec send_one
      publishInterface_def publishVlan_def publish_if_rows_spec publish_if_rows_bad
      publish_vlan_rows_spec publish_vlan_rows_bad if_entries_def vlan_entries_def
      del: send_all.simps(2))

subsection \<open>The stream loop\<close>

text \<open>The messages the loop handles: those received before the first error that decode.\<close>

definition stream_msgs :: "(8 word list \<Rightarrow> telemetry option) \<Rightarrow> recv list \<Rightarrow> telemetry list" where
  "stream_msgs decode rs =
     List.map_filter
       (\<lambda>r. case r of RecvErr \<Rightarrow> None | RecvArgs data \<Rightarrow> if data = [] then None else decode data)
       (takeWhile (\<lambda>r. r \<noteq> RecvErr) rs)"

definition dispatch_all ::
    "(nat \<Rightarrow> bool) \<Rightarrow> telemetry list \<Rightarrow> producer \<Rightarrow> producer" where
  "dispatch_all fails ts p = fold (\<lambda>t p. snd (dispatch fails t p)) ts p"

lemma MdtDialout_spec:
  "MdtDialout decode fails rs p acks =
     (if RecvErr \<in> set rs then Some Unavailable else None,
      dispatch_all fails (stream_msgs decode rs) p,
      acks + length (stream_msgs decode rs))"
proof (induction decode fails rs p acks rule: MdtDialout.induct)
  case (3 decode fails data rs p acks)
  then show ?case
    by (cases "decode data")
       (auto simp: stream_msgs_def dispatch_all_def List.map_filter_simps)
qed (simp_all add: stream_msgs_def dispatch_all_def List.map_filter_simps)

lemma dispatch_all_no_faults:
  assumes "\<forall>k. \<not> fails k" and "\<forall>t \<in> set ts. year_ok (msg_time t)"
  shows "sent (dispatch_all fails ts p) = sent p @ concat (map published ts)"
  using assms(2)
proof (induction ts arbitrary: p)
  case (Cons t ts)
  then show ?case
    using send_all_no_faults [OF assms(1), of "published t" p]
    by (simp add: dispatch_all_def dispatch_spec)
qed (simp add: dispatch_all_def)

subsection \<open>Two layouts of an interface list\<close>

lemma fold_apply_ifaces:
  "\<forall>g \<in> set gs. isIfaceNode g \<Longrightarrow> fold (apply_if ty) gs e = e"
  by (induction gs) (simp_all add: apply_if_def)

lemma if_of_node_tail:
  "\<forall>g \<in> set gs. isIfaceNode g \<Longrightarrow>
     if_of_node ts node (TelemetryField t (fName f) (fFields f @ gs) v) = if_of_node ts node f"
  by (simp add: if_of_node_def fold_apply_ifaces)

lemma chain_of_ifaces: "\<forall>f \<in> set fs. plain_iface f \<Longrightarrow> \<forall>g \<in> set (chain_of fs). isIfaceNode g"
  by (cases fs) (auto simp: isIfaceNode_append isIfaceNode_fields plain_iface_def)

lemma if_of_node_chain:
  "\<forall>f \<in> set fs. plain_iface f \<Longrightarrow>
     map (if_of_node ts node) (concat (map ifaces (rev (chain_of fs)))) = map (if_of_node ts node) fs"
proof (induction fs)
  case (Cons f fs)
  have node: "isIfaceNode (TelemetryField t n (fFields f @ chain_of fs) v)" for t n v
    using Cons.prems by (auto simp: isIfaceNode_append isIfaceNode_fields plain_iface_def)
  let ?F = "TelemetryField (fTimestamp f) (fName f) (fFields f @ chain_of fs) (fValueByType f)"
  have rest: "\<forall>g \<in> set (chain_of fs). isIfaceNode g"
    using chain_of_ifaces [of fs] Cons.prems by simp
  then have "filter isIfaceNode (fFields f @ chain_of fs) = chain_of fs"
    using Cons.prems by (simp add: plain_iface_def)
  then have "ifaces ?F = ?F # concat (map ifaces (rev (chain_of fs)))"
    by (subst ifaces.simps) (simp only: node if_True telemetry_field.sel)
  then show ?case
    using Cons by (simp add: if_of_node_tail [OF rest])
qed simp

subsection \<open>The fields of a VLAN row\<close>

lemma apply_vlan_keys_row:
  "apply_vlan_keys c e = e\<lparr>vVlanID :=
     (case findNestedField (fFields c) [''id''] of
        Some f \<Rightarrow> GetUint32Value f
      | None \<Rightarrow> (case findNestedField (fFields c) [''vlan-id''] of
                   Some f \<Rightarrow> GetUint32Value f | None \<Rightarrow> vVlanID e))\<rparr>"
  by (simp add: apply_vlan_keys_def del: findNestedField.simps split: option.split)

lemma apply_vlan_content_row:
  assumes "vName e = None" and "vStatus e = []"
  shows "apply_vlan_content c e = e\<lparr>
    vName := (case findNestedField (fFields c) [''name''] of
        Some f \<Rightarrow> Some (GetStringValue f)
      | None \<Rightarrow> map_option GetStringValue (findNestedField (fFields c) [''state'', ''name''])),
    vStatus := (let status = (case findNestedField (fFields c) [''status''] of
                   Some f \<Rightarrow> GetStringValue f | None \<Rightarrow> [])
      in if status \<noteq> [] then status
         else (case findNestedField (fFields c) [''state'', ''status''] of
                 Some f \<Rightarrow> GetStringValue f | None \<Rightarrow> []))\<rparr>"
  using assms unfolding apply_vlan_content_def Let_def
  by (cases "findNestedField (fFields c) [''name'']"; cases "findNestedField (fFields c) [''status'']";
      cases "findNestedField (fFields c) [''state'', ''name'']";
      cases "findNestedField (fFields c) [''state'', ''status'']")
     (simp_all del: findNestedField.simps)

subsection \<open>Properties\<close>

text \<open>C19. Publishing refines a list: dispatching a message whose time has a JSON form sends the
  messages the specification \<open>published\<close> lists for it, in order, up to the first refused send, whose
  error is returned; without such a time nothing is sent and the error is that of \<open>json.Marshal\<close>,
  unless there was nothing to publish.\<close>

theorem dispatch_publishes:
  "if year_ok (msg_time t)
   then \<exists>k. k \<le> length (published t) \<and>
     sent (snd (dispatch fails t p)) = sent p @ take k (published t) \<and>
     (if k = length (published t) then fst (dispatch fails t p) = None
      else fst (dispatch fails t p) = Some SendError \<and> fails (attempts p + k))
   else dispatch fails t p = (if published t = [] then None else Some MarshalError, p)"
  using send_all_prefix [of "published t" fails p] by (auto simp: dispatch_spec)

text \<open>The dial-out loop: it ends with \<open>Unavailable\<close> at the first receive error and only then,
  skips empty wrappers and those that do not decode, acknowledges every message it dispatched even
  when publishing failed, and with a working broker publishes, in order, all that the decoded messages
  ask for.\<close>

theorem MdtDialout_stream:
  assumes "MdtDialout decode fails rs p 0 = (status, p', acks)"
  shows "(status = None \<longleftrightarrow> RecvErr \<notin> set rs) \<and> acks = length (stream_msgs decode rs) \<and>
    ((\<forall>k. \<not> fails k) \<longrightarrow> (\<forall>t \<in> set (stream_msgs decode rs). year_ok (msg_time t)) \<longrightarrow>
       sent p' = sent p @ concat (map published (stream_msgs decode rs)))"
  using assms dispatch_all_no_faults [of fails "stream_msgs decode rs" p]
  by (auto simp: MdtDialout_spec)

text \<open>C37. Both serializer layouts give the same interfaces: a flat list of interfaces and the chain in
  which each interface is nested in the one before yield the same entries, the flat list in reverse.\<close>

theorem interface_layouts_agree:
  assumes "\<forall>f \<in> set fs. plain_iface f"
  shows "map (if_of_node ts node) (collectInterfaces (TelemetryField t n (chain_of fs) v)) =
      map (if_of_node ts node) fs \<and>
    map (if_of_node ts node) (collectInterfaces (TelemetryField t n fs v)) =
      rev (map (if_of_node ts node) fs)"
proof -
  have "collectInterfaces (TelemetryField t n fs v) = rev fs"
    using assms collectInterfaces_flat [of "TelemetryField t n fs v"] by (simp add: plain_iface_def)
  then show ?thesis
    using if_of_node_chain [OF assms] by (simp add: collectInterfaces_ifaces rev_map)
qed

text \<open>The fields of a VLAN row: the id comes from \<open>keys\<close>; the name is set exactly when \<open>name\<close> or
  \<open>state/name\<close> is present, an empty one included, and \<open>name\<close> wins; an empty status falls back to
  \<open>state/status\<close>.\<close>

theorem vlan_row_fields:
  "vlan_of_row ts node (container [] [container ''keys'' ks, container ''content'' cs]) =
     \<lparr>vTimestamp = ts, vNodeID = node,
      vVlanID = (case findNestedField ks [''id''] of
          Some f \<Rightarrow> GetUint32Value f
        | None \<Rightarrow> (case findNestedField ks [''vlan-id''] of Some f \<Rightarrow> GetUint32Value f | None \<Rightarrow> 0)),
      vName = (case findNestedField cs [''name''] of
          Some f \<Rightarrow> Some (GetStringValue f)
        | None \<Rightarrow> map_option GetStringValue (findNestedField cs [''state'', ''name''])),
      vStatus = (let status = (case findNestedField cs [''status''] of
                     Some f \<Rightarrow> GetStringValue f | None \<Rightarrow> [])
        in if status \<noteq> [] then status
           else (case findNestedField cs [''state'', ''status''] of
                   Some f \<Rightarrow> GetStringValue f | None \<Rightarrow> []))\<rparr>"
  by (simp add: vlan_of_row_def apply_vlan_def apply_vlan_keys_row apply_vlan_content_row
      del: findNestedField.simps cong del: option.case_cong_weak if_weak_cong)

text \<open>What the collector marshals for an interface the consumer reads as \<open>if_entry_wire\<close> says: no
  range error, the empty VRF and the zero MTU as absent, every other field as it was.\<close>

theorem interface_round_trip:
  "unmarshal_if (if_json (if_of_node ts node f)) = Some (if_entry_wire (if_of_node ts node f))"
  using if_of_node_prefix [of ts node f] by (intro unmarshal_if_json) (fastforce simp: prefix_ok_def)

end
