(* ===== verification/Samples.thy ===== *)
theory Samples imports Collector begin

text \<open>Concrete telemetry messages, one per kind of path, at which the witnesses evaluate.\<close>

definition demo_vlans :: telemetry where
  "demo_vlans = \<lparr>NodeIdStr = ''sw1'', SubscriptionIdStr = ''103'',
     EncodingPath = ''openconfig-vlan:vlans/vlan'', CollectionId = 7, CollectionStartTime = 0,
     MsgTimestamp = 1000, DataGpbkv =
       [container '''' [container ''keys'' [leaf ''id'' (Uint32Value 10)],
                        container ''content'' [leaf ''name'' (StringValue ''users'')]],
        container '''' [container ''content'' [leaf ''name'' (StringValue ''lost'')]]]\<rparr>"

lemma demo_vlan_entries:
  "vlan_entries demo_vlans =
     [\<lparr>vTimestamp = 1000, vNodeID = ''sw1'', vVlanID = 10, vName = Some ''users'', vStatus = []\<rparr>]"
  by code_simp

definition demo_ifs :: telemetry where
  "demo_ifs = \<lparr>NodeIdStr = ''sw1'', SubscriptionIdStr = ''102'',
     EncodingPath = ''Cisco-IOS-XE-native:native/interface'', CollectionId = 7, CollectionStartTime = 0,
     MsgTimestamp = 1000, DataGpbkv =
       [container '''' [container ''keys'' [],
          container ''content'' [container ''GigabitEthernet''
            [leaf ''name'' (StringValue ''1/0/1''), leaf ''mtu'' (Uint32Value 1500)]]]]\<rparr>"

lemma demo_if_entries:
  "if_entries demo_ifs =
     [\<lparr>iTimestamp = 1000, iNodeID = ''sw1'', iName = ''GigabitEthernet1/0/1'', iDescription = None,
       iShutdown = False, iIPAddress = None, iPrefixLen = None, iVRF = [], iMTU = 1500,
       iAccessVlan = None, iVoiceVlan = None\<rparr>]"
  by code_simp

definition demo_macs :: telemetry where
  "demo_macs = \<lparr>NodeIdStr = ''sw1'', SubscriptionIdStr = ''101'',
     EncodingPath = ''Cisco-IOS-XE-matm-oper:matm-oper-data/matm-table/matm-mac-entry'',
     CollectionId = 7, CollectionStartTime = 0, MsgTimestamp = 1000, DataGpbkv =
       [container '''' [container ''keys'' [leaf ''mac'' (StringValue ''0011.2233.4455''),
                                            leaf ''vlan-id-number'' (Uint32Value 10)],
                        container ''content'' [leaf ''port'' (StringValue ''Gi1/0/1'')]]]\<rparr>"

lemma demo_mac_entries:
  "mac_entries demo_macs =
     [\<lparr>mTimestamp = 1000, mNodeID = ''sw1'', mMacAddress = ''0011.2233.4455'',
       mInterface = ''GigabitEthernet1/0/1'', mVlan = 10, mType = []\<rparr>]"
  by code_simp
subsection \<open>Witnesses\<close>

definition demo_decode :: "8 word list \<Rightarrow> telemetry option" where
  "demo_decode bs = (if bs = [1] then Some demo_vlans else if bs = [2] then Some demo_macs else None)"

lemma demo_stream:
  "stream_msgs demo_decode [RecvArgs [], RecvArgs [1], RecvArgs [7], RecvArgs [2], RecvErr, RecvArgs [1]] =
     [demo_vlans, demo_macs]"
  by (simp add: stream_msgs_def demo_decode_def List.map_filter_simps)

lemma demo_times: "year_ok (msg_time demo_vlans)" "year_ok (msg_time demo_macs)"
  by code_simp+

theorem MdtDialout_stream_witness:
  "\<exists>p' e. MdtDialout demo_decode (\<lambda>_. False)
     [RecvArgs [], RecvArgs [1], RecvArgs [7], RecvArgs [2], RecvErr, RecvArgs [1]] \<lparr>attempts = 0, sent = []\<rparr> 0
   = (Some e, p', 2) \<and> sent p' = published demo_vlans @ published demo_macs"
proof -
  obtain status p' acks where run: "MdtDialout demo_decode (\<lambda>_. False)
      [RecvArgs [], RecvArgs [1], RecvArgs [7], RecvArgs [2], RecvErr, RecvArgs [1]] \<lparr>attempts = 0, sent = []\<rparr> 0
    = (status, p', acks)"
    by (rule prod_cases3)
  from MdtDialout_stream [OF this] show ?thesis
    unfolding run by (auto simp: demo_stream demo_times)
qed

definition demo_ports :: "telemetry_field list" where
  "demo_ports =
     [container ''Vlan'' [leaf ''name'' (Uint32Value 10), leaf ''shutdown'' (BytesValue [])],
      container ''Vlan'' [leaf ''name'' (Uint32Value 20), leaf ''description'' (StringValue ''lab'')]]"

theorem interface_layouts_agree_witness:
  "map (if_of_node 5 ''sw1'') (collectInterfaces (container ''content'' (chain_of demo_ports))) =
     map (if_of_node 5 ''sw1'') demo_ports"
  using interface_layouts_agree [of demo_ports 5 "''sw1''" 0 "''content''" None]
  by (simp add: demo_ports_def plain_iface_def isIfaceNode_def strip_module_def)

end
