(* ===== verification/Server.thy ===== *)
theory Server imports Samples begin

text \<open>
  The collector as a server: many devices stream at once, their handlers share one producer, and the
  program shuts down gracefully (\<open>main\<close> of \<open>collector/main.go\<close>). A stream is one run of \<open>MdtDialout\<close>.
  \<open>server_step\<close> interleaves them at the sends: receiving a message fixes what its handler has to send
  (\<open>to_send\<close>, which \<open>dispatch_to_send\<close> shows to be what \<open>dispatch\<close> sends), and each \<open>SendMessage\<close> is a
  step of its own. After a signal \<open>GracefulStop\<close> accepts no stream and waits for those that are open.
\<close>

subsection \<open>What a handler sends\<close>

definition to_send :: "telemetry \<Rightarrow> kmsg list" where
  "to_send t = (if year_ok (msg_time t) then published t else [])"

lemma dispatch_to_send: "snd (dispatch fails t p) = snd (send_all fails (to_send t) p)"
  by (simp add: dispatch_spec to_send_def)

text \<open>The work a receive of the loop leads to.\<close>

definition received :: "(8 word list \<Rightarrow> telemetry option) \<Rightarrow> recv \<Rightarrow> telemetry option" where
  "received decode r =
     (case r of RecvErr \<Rightarrow> None | RecvArgs data \<Rightarrow> if length data = 0 then None else decode data)"

lemma takeWhile_before:
  "x \<notin> set xs \<Longrightarrow> takeWhile (\<lambda>r. r \<noteq> x) (xs @ ys) = xs @ takeWhile (\<lambda>r. r \<noteq> x) ys"
  by (induction xs) auto

lemma map_filter_append: "List.map_filter f (xs @ ys) = List.map_filter f xs @ List.map_filter f ys"
  by (simp add: List.map_filter_def)

lemma stream_msgs_snoc:
  assumes "RecvErr \<notin> set rs"
  shows "stream_msgs decode (rs @ [r]) =
    stream_msgs decode rs @ (case received decode r of None \<Rightarrow> [] | Some t \<Rightarrow> [t])"
proof -
  from assms have rs: "takeWhile (\<lambda>r. r \<noteq> RecvErr) rs = rs" "takeWhile (\<lambda>r. r \<noteq> RecvErr) (rs @ [r]) = rs @ takeWhile (\<lambda>r. r \<noteq> RecvErr) [r]"
    using takeWhile_before [OF assms, of "[]"] takeWhile_before [OF assms, of "[r]"] by simp_all
  show ?thesis
    unfolding stream_msgs_def rs map_filter_append
    by (cases r) (simp_all add: received_def List.map_filter_simps split: option.split)
qed

subsection \<open>The server\<close>

text \<open>
  A stream: what it received, what the handler of its last message still sends, and whether its
  \<open>MdtDialout\<close> has returned. \<open>smFaults\<close> records which of its sends failed; the code keeps no such list.
\<close>

record stream =
  smGot :: "recv list"
  smTodo :: "kmsg list"
  smClosed :: bool
  smFaults :: "bool list"

definition new_stream :: stream where
  "new_stream = \<lparr>smGot = [], smTodo = [], smClosed = False, smFaults = []\<rparr>"

text \<open>The server: its producer, its streams by number, and who sent what, in order.\<close>

record server =
  svProducer :: producer
  svStreams :: "nat \<rightharpoonup> stream"
  svLog :: "(nat \<times> kmsg) list"
  svStopping :: bool
  svStopped :: bool

definition server_start :: server where
  "server_start = \<lparr>svProducer = \<lparr>attempts = 0, sent = []\<rparr>, svStreams = Map.empty, svLog = [],
     svStopping = False, svStopped = False\<rparr>"

definition log_of :: "nat \<Rightarrow> server \<Rightarrow> kmsg list" where
  "log_of c s = map snd (filter (\<lambda>cm. fst cm = c) (svLog s))"

inductive server_step :: "(8 word list \<Rightarrow> telemetry option) \<Rightarrow> (nat \<Rightarrow> bool) \<Rightarrow> server \<Rightarrow> server \<Rightarrow> bool"
  for decode fails where
  Accept: "\<not> svStopping s \<Longrightarrow> svStreams s c = None \<Longrightarrow>
     server_step decode fails s (s\<lparr>svStreams := (svStreams s)(c \<mapsto> new_stream)\<rparr>)"
| Receive: "svStreams s c = Some st \<Longrightarrow> \<not> smClosed st \<Longrightarrow> smTodo st = [] \<Longrightarrow>
     server_step decode fails s (s\<lparr>svStreams := (svStreams s)(c \<mapsto>
       st\<lparr>smGot := smGot st @ [RecvArgs data],
          smTodo := case received decode (RecvArgs data) of None \<Rightarrow> [] | Some t \<Rightarrow> to_send t\<rparr>)\<rparr>)"
| Disconnect: "svStreams s c = Some st \<Longrightarrow> \<not> smClosed st \<Longrightarrow> smTodo st = [] \<Longrightarrow>
     server_step decode fails s (s\<lparr>svStreams := (svStreams s)(c \<mapsto>
       st\<lparr>smGot := smGot st @ [RecvErr], smClosed := True\<rparr>)\<rparr>)"
| Send: "svStreams s c = Some st \<Longrightarrow> smTodo st = m # ms \<Longrightarrow>
     SendMessage fails m (svProducer s) = (None, p) \<Longrightarrow>
     server_step decode fails s (s\<lparr>svProducer := p, svLog := svLog s @ [(c, m)],
       svStreams := (svStreams s)(c \<mapsto> st\<lparr>smTodo := ms, smFaults := smFaults st @ [False]\<rparr>)\<rparr>)"
| Fail: "svStreams s c = Some st \<Longrightarrow> smTodo st = m # ms \<Longrightarrow>
     SendMessage fails m (svProducer s) = (Some err, p) \<Longrightarrow>
     server_step decode fails s (s\<lparr>svProducer := p,
       svStreams := (svStreams s)(c \<mapsto> st\<lparr>smTodo := [], smFaults := smFaults st @ [True]\<rparr>)\<rparr>)"
| Signal: "server_step decode fails s (s\<lparr>svStopping := True\<rparr>)"
| Stop: "svStopping s \<Longrightarrow> (\<And>c st. svStreams s c = Some st \<Longrightarrow> smClosed st) \<Longrightarrow>
     server_step decode fails s (s\<lparr>svStopped := True\<rparr>)"

definition server_reachable :: "(8 word list \<Rightarrow> telemetry option) \<Rightarrow> (nat \<Rightarrow> bool) \<Rightarrow> server \<Rightarrow> bool" where
  "server_reachable decode fails s \<longleftrightarrow> (server_step decode fails)\<^sup>*\<^sup>* server_start s"

lemma server_reachable_induct [consumes 1, case_names start step]:
  assumes "server_reachable decode fails s" and "P server_start"
    and "\<And>s s'. server_reachable decode fails s \<Longrightarrow> P s \<Longrightarrow> server_step decode fails s s' \<Longrightarrow> P s'"
  shows "P s"
  using assms(1) unfolding server_reachable_def
proof (induction rule: rtranclp_induct)
  case (step s s')
  show ?case by (rule assms(3) [OF _ step.IH step.hyps(2)]) (simp add: server_reachable_def step.hyps(1))
qed (rule assms(2))

subsection \<open>One handler under its own faults\<close>

lemma send_all_ok:
  assumes "\<forall>k. attempts p \<le> k \<and> k < attempts p + length ms \<longrightarrow> \<not> f k"
  shows "send_all f ms p = (None, p\<lparr>attempts := attempts p + length ms, sent := sent p @ ms\<rparr>)"
  using assms
proof (induction ms arbitrary: p)
  case (Cons m ms)
  from Cons.prems have "\<not> f (attempts p)" by simp
  moreover from Cons.prems have "\<forall>k. attempts p + 1 \<le> k \<and> k < attempts p + 1 + length ms \<longrightarrow> \<not> f k" by simp
  ultimately show ?case
    using Cons.IH [of "p\<lparr>attempts := attempts p + 1, sent := sent p @ [m]\<rparr>"]
    by (simp add: SendMessage_def)
qed simp

lemma send_all_fault:
  assumes "\<forall>k. attempts p \<le> k \<and> k < attempts p + length pre \<longrightarrow> \<not> f k" and "f (attempts p + length pre)"
  shows "snd (send_all f (pre @ m # ms) p) =
    p\<lparr>attempts := attempts p + length pre + 1, sent := sent p @ pre\<rparr>"
  using assms(2) by (simp add: send_all_append send_all_ok [OF assms(1)] SendMessage_def)

lemma send_all_cong:
  assumes "\<forall>k < attempts (snd (send_all f ms p)). g k = f k"
  shows "send_all g ms p = send_all f ms p \<and> attempts p \<le> attempts (snd (send_all f ms p))"
  using assms
proof (induction ms arbitrary: p)
  case (Cons m ms)
  let ?p = "p\<lparr>attempts := attempts p + 1, sent := sent p @ [m]\<rparr>"
  show ?case
  proof (cases "f (attempts p)")
    case True
    with Cons.prems show ?thesis by (simp add: SendMessage_def)
  next
    case False
    then have eq: "send_all f (m # ms) p = send_all f ms ?p" by (simp add: SendMessage_def)
    from Cons.IH [of ?p] Cons.prems have IH: "send_all g ms ?p = send_all f ms ?p"
      "attempts p + 1 \<le> attempts (snd (send_all f ms ?p))"
      unfolding eq by auto
    with Cons.prems False have "\<not> g (attempts p)" unfolding eq by auto
    with IH show ?thesis unfolding eq by (simp add: SendMessage_def)
  qed
qed simp

lemma dispatch_all_snoc:
  "dispatch_all f (ts @ [t]) p = snd (send_all f (to_send t) (dispatch_all f ts p))"
  by (simp add: dispatch_all_def dispatch_to_send)

lemma dispatch_all_cong:
  assumes "\<forall>k < attempts (dispatch_all f ts p). g k = f k"
  shows "dispatch_all g ts p = dispatch_all f ts p"
  using assms
proof (induction ts rule: rev_induct)
  case (snoc t ts)
  let ?d = "dispatch_all f ts p"
  have cong: "send_all g (to_send t) ?d = send_all f (to_send t) ?d"
    "attempts ?d \<le> attempts (dispatch_all f (ts @ [t]) p)"
    using send_all_cong [of f "to_send t" ?d g] snoc.prems by (simp_all add: dispatch_all_snoc)
  with snoc have "dispatch_all g ts p = ?d" by auto
  with cong(1) show ?case by (simp add: dispatch_all_snoc)
qed (simp add: dispatch_all_def)

subsection \<open>Every stream is one run of the loop\<close>

text \<open>The faults of the sends of a stream as an oracle for a run of its own.\<close>

definition faults :: "bool list \<Rightarrow> nat \<Rightarrow> bool" where
  "faults fs k \<longleftrightarrow> k < length fs \<and> fs ! k"

lemma faults_snoc: "k < length fs \<Longrightarrow> faults (fs @ [b]) k = faults fs k"
  by (simp add: faults_def nth_append)

lemma faults_last: "faults (fs @ [b]) (length fs) = b"
  by (simp add: faults_def)

text \<open>
  How far a stream is, with the messages \<open>ts\<close> its loop has handled, the message it is at, and the part
  \<open>pre\<close> of that message's sends which is done.
\<close>

definition at_message ::
    "(8 word list \<Rightarrow> telemetry option) \<Rightarrow> kmsg list \<Rightarrow> stream \<Rightarrow> telemetry list \<Rightarrow> kmsg list \<Rightarrow> bool" where
  "at_message decode out st ts pre \<longleftrightarrow>
     (let d = dispatch_all (faults (smFaults st)) ts \<lparr>attempts = 0, sent = []\<rparr> in
        attempts d + length pre = length (smFaults st) \<and> sent d @ pre = out \<and>
        (\<forall>k. attempts d \<le> k \<and> k < length (smFaults st) \<longrightarrow> \<not> faults (smFaults st) k))"

definition stream_inv :: "(8 word list \<Rightarrow> telemetry option) \<Rightarrow> kmsg list \<Rightarrow> stream \<Rightarrow> bool" where
  "stream_inv decode out st \<longleftrightarrow>
     (if smTodo st = [] then
        at_message decode out st (stream_msgs decode (smGot st)) [] \<and>
        (smClosed st \<longleftrightarrow> RecvErr \<in> set (smGot st))
      else
        \<not> smClosed st \<and> RecvErr \<notin> set (smGot st) \<and>
        (\<exists>ts t pre. stream_msgs decode (smGot st) = ts @ [t] \<and> to_send t = pre @ smTodo st \<and>
           at_message decode out st ts pre))"

lemma at_message_send:
  assumes "at_message decode out st ts pre"
  shows "at_message decode (out @ [m]) (st\<lparr>smTodo := ms, smFaults := smFaults st @ [False]\<rparr>) ts (pre @ [m])"
proof -
  have "faults (smFaults st @ [False]) = faults (smFaults st)"
    by (auto simp: fun_eq_iff faults_def nth_append)
  with assms show ?thesis
    by (auto simp: at_message_def Let_def faults_def less_Suc_eq)
qed

lemma at_message_done:
  assumes "at_message decode out st ts (to_send t)"
  shows "at_message decode out st (ts @ [t]) []"
proof -
  let ?d = "dispatch_all (faults (smFaults st)) ts \<lparr>attempts = 0, sent = []\<rparr>"
  from assms have "send_all (faults (smFaults st)) (to_send t) ?d =
      (None, ?d\<lparr>attempts := attempts ?d + length (to_send t), sent := sent ?d @ to_send t\<rparr>)"
    by (intro send_all_ok) (simp add: at_message_def Let_def)
  with assms show ?thesis by (simp add: at_message_def Let_def dispatch_all_snoc)
qed

lemma at_message_fail:
  assumes "at_message decode out st ts pre" and "to_send t = pre @ m # ms"
  shows "at_message decode out (st\<lparr>smTodo := [], smFaults := smFaults st @ [True]\<rparr>) (ts @ [t]) []"
proof -
  let ?f = "faults (smFaults st)" and ?g = "faults (smFaults st @ [True])"
  let ?d = "dispatch_all ?f ts \<lparr>attempts = 0, sent = []\<rparr>"
  from assms(1) have d: "attempts ?d + length pre = length (smFaults st)" "sent ?d @ pre = out"
    "\<And>k. attempts ?d \<le> k \<Longrightarrow> k < length (smFaults st) \<Longrightarrow> \<not> ?f k"
    by (simp_all add: at_message_def Let_def)
  have "dispatch_all ?g ts \<lparr>attempts = 0, sent = []\<rparr> = ?d"
    using d(1) by (intro dispatch_all_cong) (simp add: faults_snoc)
  moreover have "snd (send_all ?g (pre @ m # ms) ?d) = ?d\<lparr>attempts := attempts ?d + length pre + 1, sent := sent ?d @ pre\<rparr>"
    using d(1,3) by (intro send_all_fault) (auto simp: faults_snoc faults_last)
  ultimately show ?thesis
    using d by (auto simp: at_message_def Let_def dispatch_all_snoc assms(2))
qed

lemma stream_inv_new: "stream_inv decode [] new_stream"
  by (simp add: stream_inv_def new_stream_def at_message_def dispatch_all_def stream_msgs_def List.map_filter_def Let_def)

lemma at_message_cong:
  "at_message decode out (st\<lparr>smGot := got, smTodo := todo\<rparr>) ts pre = at_message decode out st ts pre"
  "at_message decode out (st\<lparr>smGot := got, smClosed := b\<rparr>) ts pre = at_message decode out st ts pre"
  "at_message decode out (st\<lparr>smGot := got\<rparr>) ts pre = at_message decode out st ts pre"
  by (simp_all add: at_message_def)

lemma stream_inv_receive:
  assumes "stream_inv decode out st" and "smTodo st = []" and "\<not> smClosed st"
  shows "stream_inv decode out (st\<lparr>smGot := smGot st @ [RecvArgs data],
    smTodo := case received decode (RecvArgs data) of None \<Rightarrow> [] | Some t \<Rightarrow> to_send t\<rparr>)"
proof -
  from assms have at: "at_message decode out st (stream_msgs decode (smGot st)) []" and ok: "RecvErr \<notin> set (smGot st)"
    by (simp_all add: stream_inv_def)
  show ?thesis
  proof (cases "received decode (RecvArgs data)")
    case None
    with at ok assms(3) show ?thesis
      by (simp add: stream_inv_def stream_msgs_snoc at_message_cong)
  next
    case (Some t)
    show ?thesis
    proof (cases "to_send t = []")
      case True
      with at have "at_message decode out st (stream_msgs decode (smGot st) @ [t]) []"
        by (intro at_message_done) simp
      with Some True ok assms(3) show ?thesis
        by (simp add: stream_inv_def stream_msgs_snoc at_message_cong)
    next
      case False
      with Some at ok assms(3) show ?thesis
        by (simp add: stream_inv_def stream_msgs_snoc at_message_cong)
    qed
  qed
qed

lemma stream_inv_disconnect:
  assumes "stream_inv decode out st" and "smTodo st = []" and "\<not> smClosed st"
  shows "stream_inv decode out (st\<lparr>smGot := smGot st @ [RecvErr], smClosed := True\<rparr>)"
  using assms by (simp add: stream_inv_def stream_msgs_snoc received_def at_message_cong)

lemma stream_inv_send:
  assumes "stream_inv decode out st" and "smTodo st = m # ms"
  shows "stream_inv decode (out @ [m]) (st\<lparr>smTodo := ms, smFaults := smFaults st @ [False]\<rparr>)"
proof -
  from assms obtain ts t pre where msgs: "stream_msgs decode (smGot st) = ts @ [t]"
    and todo: "to_send t = pre @ m # ms" and at: "at_message decode out st ts pre"
    and ok: "\<not> smClosed st" "RecvErr \<notin> set (smGot st)"
    by (auto simp: stream_inv_def)
  have at': "at_message decode (out @ [m]) (st\<lparr>smTodo := ms, smFaults := smFaults st @ [False]\<rparr>) ts (pre @ [m])"
    by (rule at_message_send [OF at])
  show ?thesis
  proof (cases "ms = []")
    case True
    with todo at' have "at_message decode (out @ [m]) (st\<lparr>smTodo := ms, smFaults := smFaults st @ [False]\<rparr>) (ts @ [t]) []"
      by (intro at_message_done) simp
    with True msgs ok show ?thesis by (simp add: stream_inv_def)
  next
    case False
    have "to_send t = (pre @ [m]) @ ms" using todo by simp
    with False msgs ok at' show ?thesis by (auto simp: stream_inv_def)
  qed
qed

lemma stream_inv_fail:
  assumes "stream_inv decode out st" and "smTodo st = m # ms"
  shows "stream_inv decode out (st\<lparr>smTodo := [], smFaults := smFaults st @ [True]\<rparr>)"
proof -
  from assms obtain ts t pre where msgs: "stream_msgs decode (smGot st) = ts @ [t]"
    and todo: "to_send t = pre @ m # ms" and at: "at_message decode out st ts pre"
    and ok: "\<not> smClosed st" "RecvErr \<notin> set (smGot st)"
    by (auto simp: stream_inv_def)
  from at_message_fail [OF at todo] msgs ok show ?thesis by (simp add: stream_inv_def)
qed

subsection \<open>The server as a whole\<close>

definition entry_ok ::
    "(8 word list \<Rightarrow> telemetry option) \<Rightarrow> (nat \<Rightarrow> bool) \<Rightarrow> kmsg list \<Rightarrow> stream option \<Rightarrow> bool" where
  "entry_ok decode fails out entry =
     (case entry of
        None \<Rightarrow> out = []
      | Some st \<Rightarrow> stream_inv decode out st \<and> ((\<forall>k. \<not> fails k) \<longrightarrow> True \<notin> set (smFaults st)))"

definition server_inv :: "(8 word list \<Rightarrow> telemetry option) \<Rightarrow> (nat \<Rightarrow> bool) \<Rightarrow> server \<Rightarrow> bool" where
  "server_inv decode fails s \<longleftrightarrow>
     (\<forall>c. entry_ok decode fails (log_of c s) (svStreams s c)) \<and>
     finite (dom (svStreams s)) \<and> sent (svProducer s) = map snd (svLog s) \<and>
     (svStopped s \<longrightarrow> svStopping s \<and> (\<forall>st \<in> ran (svStreams s). smClosed st))"

lemma log_of_update [simp]:
  "log_of c (s\<lparr>svStreams := sts\<rparr>) = log_of c s" "log_of c (s\<lparr>svProducer := p\<rparr>) = log_of c s"
  "log_of c (s\<lparr>svStopping := b\<rparr>) = log_of c s" "log_of c (s\<lparr>svStopped := b\<rparr>) = log_of c s"
  by (simp_all add: log_of_def)

lemma closed_done: "stream_inv decode out st \<Longrightarrow> smClosed st \<Longrightarrow> smTodo st = []"
  by (auto simp: stream_inv_def split: if_splits)

lemma server_inv_update:
  assumes "server_inv decode fails s" and "svStreams s c = Some st \<and> \<not> smClosed st \<or> \<not> svStopping s"
    and "entry_ok decode fails (log_of c s') (Some st')"
    and "svStreams s' = (svStreams s)(c \<mapsto> st')" and "\<And>c'. c' \<noteq> c \<Longrightarrow> log_of c' s' = log_of c' s"
    and "sent (svProducer s') = map snd (svLog s')" and "svStopping s' = svStopping s" and "svStopped s' = svStopped s"
  shows "server_inv decode fails s'"
proof -
  have "\<not> svStopped s"
    using assms(1,2) by (auto simp: server_inv_def ran_def)
  with assms show ?thesis by (simp add: server_inv_def)
qed

lemma server_inv_entry: "server_inv decode fails s \<Longrightarrow> entry_ok decode fails (log_of c s) (svStreams s c)"
  by (simp add: server_inv_def)

lemma server_inv_stream:
  "server_inv decode fails s \<Longrightarrow> svStreams s c = Some st \<Longrightarrow>
     stream_inv decode (log_of c s) st \<and> ((\<forall>k. \<not> fails k) \<longrightarrow> True \<notin> set (smFaults st))"
  using server_inv_entry [of decode fails s c] by (simp add: entry_ok_def)

lemma server_inv_open:
  assumes "server_inv decode fails s" and "svStreams s c = Some st" and "smTodo st \<noteq> []"
  shows "\<not> smClosed st"
  using server_inv_stream [OF assms(1,2)] assms(3) by (auto dest: closed_done)

lemma server_inv_step:
  assumes "server_inv decode fails s" and "server_step decode fails s s'"
  shows "server_inv decode fails s'"
  using assms(2)
proof cases
  case (Accept c)
  from server_inv_entry [OF assms(1), of c] have "log_of c s = []" by (simp add: entry_ok_def Accept(3))
  then have "entry_ok decode fails (log_of c s') (Some new_stream)"
    by (simp add: entry_ok_def Accept(1) stream_inv_new) (simp add: new_stream_def)
  with assms(1) Accept show ?thesis
    by (intro server_inv_update [of decode fails s c _ s' new_stream]) (simp_all add: server_inv_def)
next
  case (Receive c st data)
  from server_inv_stream [OF assms(1) Receive(2)] assms(1) Receive show ?thesis
    by (intro server_inv_update [OF assms(1), of c st]) (simp_all add: entry_ok_def stream_inv_receive server_inv_def)
next
  case (Disconnect c st)
  from server_inv_stream [OF assms(1) Disconnect(2)] assms(1) Disconnect show ?thesis
    by (intro server_inv_update [OF assms(1), of c st]) (simp_all add: entry_ok_def stream_inv_disconnect server_inv_def)
next
  case (Send c st m ms p)
  have "\<not> smClosed st" using server_inv_open [OF assms(1) Send(2)] Send(3) by simp
  moreover from Send(4) have "sent p = sent (svProducer s) @ [m]" by (auto simp: SendMessage_def split: if_splits)
  moreover have log: "log_of c' s' = log_of c' s @ (if c' = c then [m] else [])" for c'
    using Send(1) by (simp add: log_of_def)
  moreover have "entry_ok decode fails (log_of c s') (Some (st\<lparr>smTodo := ms, smFaults := smFaults st @ [False]\<rparr>))"
    using server_inv_stream [OF assms(1) Send(2)] Send(3) by (simp add: log entry_ok_def stream_inv_send)
  ultimately show ?thesis
    using assms(1) Send(1,2) by (intro server_inv_update [OF assms(1), of c st]) (simp_all add: server_inv_def)
next
  case (Fail c st m ms err p)
  have "\<not> smClosed st" using server_inv_open [OF assms(1) Fail(2)] Fail(3) by simp
  moreover from Fail(4) have "sent p = sent (svProducer s)" "\<exists>k. fails k" by (auto simp: SendMessage_def split: if_splits)
  moreover have "entry_ok decode fails (log_of c s') (Some (st\<lparr>smTodo := [], smFaults := smFaults st @ [True]\<rparr>))"
    using server_inv_stream [OF assms(1) Fail(2)] Fail(1,3) \<open>\<exists>k. fails k\<close> by (simp add: entry_ok_def stream_inv_fail)
  ultimately show ?thesis
    using assms(1) Fail(1,2) by (intro server_inv_update [OF assms(1), of c st]) (simp_all add: server_inv_def)
next
  case Signal
  with assms(1) show ?thesis by (simp add: server_inv_def)
next
  case Stop
  with assms(1) show ?thesis by (auto simp: server_inv_def ran_def)
qed

lemma server_reachable_inv: "server_reachable decode fails s \<Longrightarrow> server_inv decode fails s"
proof (induction rule: server_reachable_induct)
  case start
  then show ?case by (simp add: server_inv_def entry_ok_def server_start_def log_of_def)
qed (rule server_inv_step)

subsection \<open>Shutdown\<close>

lemma steps_step:
  "(server_step decode fails)\<^sup>*\<^sup>* s s1 \<Longrightarrow> server_step decode fails s1 s2 \<Longrightarrow> (server_step decode fails)\<^sup>*\<^sup>* s s2"
  by (rule rtranclp.rtrancl_into_rtrancl)

lemma reachable_steps:
  "server_reachable decode fails s \<Longrightarrow> (server_step decode fails)\<^sup>*\<^sup>* s s' \<Longrightarrow> server_reachable decode fails s'"
  unfolding server_reachable_def by (rule rtranclp_trans)

text \<open>A stream ends when its device leaves: its handler sends what is left, then the loop returns.\<close>

lemma idle_stream_leaves:
  assumes "svStreams s c = Some st" and "\<not> smClosed st" and "smTodo st = []"
  shows "\<exists>s' st'. (server_step decode fails)\<^sup>*\<^sup>* s s' \<and> svStreams s' = (svStreams s)(c \<mapsto> st') \<and>
    smClosed st' \<and> smGot st' = smGot st @ [RecvErr] \<and> svStopping s' = svStopping s"
proof -
  let ?st = "st\<lparr>smGot := smGot st @ [RecvErr], smClosed := True\<rparr>"
  have "(server_step decode fails)\<^sup>*\<^sup>* s (s\<lparr>svStreams := (svStreams s)(c \<mapsto> ?st)\<rparr>)"
    by (rule r_into_rtranclp, rule server_step.Disconnect [OF assms])
  then show ?thesis
    by (intro exI [of _ "s\<lparr>svStreams := (svStreams s)(c \<mapsto> ?st)\<rparr>"] exI [of _ ?st]) simp
qed

lemma handler_sends:
  assumes "svStreams s c = Some st" and "smTodo st = m # ms" and "\<not> smClosed st"
  shows "\<exists>s' st'. server_step decode fails s s' \<and> svStreams s' = (svStreams s)(c \<mapsto> st') \<and>
    (smTodo st' = ms \<or> smTodo st' = []) \<and> \<not> smClosed st' \<and> smGot st' = smGot st \<and> svStopping s' = svStopping s"
proof -
  obtain err p where send: "SendMessage fails m (svProducer s) = (err, p)" by fastforce
  show ?thesis
  proof (cases err)
    case None
    let ?st = "st\<lparr>smTodo := ms, smFaults := smFaults st @ [False]\<rparr>"
    from server_step.Send [OF assms(1,2), of fails p decode] send None assms(3) show ?thesis
      by (intro exI [of _ "s\<lparr>svProducer := p, svLog := svLog s @ [(c, m)], svStreams := (svStreams s)(c \<mapsto> ?st)\<rparr>"]
          exI [of _ ?st]) simp
  next
    case (Some e)
    let ?st = "st\<lparr>smTodo := [], smFaults := smFaults st @ [True]\<rparr>"
    from server_step.Fail [OF assms(1,2), of fails e p decode] send Some assms(3) show ?thesis
      by (intro exI [of _ "s\<lparr>svProducer := p, svStreams := (svStreams s)(c \<mapsto> ?st)\<rparr>"] exI [of _ ?st]) simp
  qed
qed

lemma stream_leaves:
  assumes "svStreams s c = Some st" and "\<not> smClosed st"
  shows "\<exists>s' st'. (server_step decode fails)\<^sup>*\<^sup>* s s' \<and> svStreams s' = (svStreams s)(c \<mapsto> st') \<and>
    smClosed st' \<and> smGot st' = smGot st @ [RecvErr] \<and> svStopping s' = svStopping s"
  using assms
proof (induction "length (smTodo st)" arbitrary: s st rule: less_induct)
  case less
  show ?case
  proof (cases "smTodo st")
    case Nil
    with less.prems show ?thesis by (rule idle_stream_leaves)
  next
    case (Cons m ms)
    from handler_sends [OF less.prems(1) Cons less.prems(2), of decode fails] obtain s1 st1 where
      s1: "server_step decode fails s s1" "svStreams s1 = (svStreams s)(c \<mapsto> st1)" "smTodo st1 = ms \<or> smTodo st1 = []"
        "\<not> smClosed st1" "smGot st1 = smGot st" "svStopping s1 = svStopping s"
      by blast
    have "length (smTodo st1) < length (smTodo st)" using s1(3) Cons by auto
    from less.hyps [OF this, of s1] s1 obtain s' st' where
      "(server_step decode fails)\<^sup>*\<^sup>* s1 s'" "svStreams s' = (svStreams s1)(c \<mapsto> st')" "smClosed st'"
      "smGot st' = smGot st1 @ [RecvErr]" "svStopping s' = svStopping s1"
      by auto
    with s1 show ?thesis
      by (intro exI [of _ s'] exI [of _ st']) (auto intro: converse_rtranclp_into_rtranclp)
  qed
qed

definition open_streams :: "server \<Rightarrow> nat set" where
  "open_streams s = {c. \<exists>st. svStreams s c = Some st \<and> \<not> smClosed st}"

lemma all_leave:
  assumes "finite (open_streams s)"
  shows "\<exists>s'. (server_step decode fails)\<^sup>*\<^sup>* s s' \<and> open_streams s' = {} \<and> svStopping s' = svStopping s"
  using assms
proof (induction "open_streams s" arbitrary: s rule: finite_psubset_induct)
  case psubset
  show ?case
  proof (cases "open_streams s = {}")
    case False
    then obtain c st where c: "svStreams s c = Some st" "\<not> smClosed st" by (auto simp: open_streams_def)
    from stream_leaves [OF this, of decode fails] obtain s1 st1 where
      s1: "(server_step decode fails)\<^sup>*\<^sup>* s s1" "svStreams s1 = (svStreams s)(c \<mapsto> st1)" "smClosed st1"
        "svStopping s1 = svStopping s" by blast
    then have "open_streams s1 \<subset> open_streams s" using c by (auto simp: open_streams_def)
    from psubset.hyps(2) [OF this] s1 show ?thesis by (metis rtranclp_trans)
  qed auto
qed

subsection \<open>Properties\<close>

text \<open>C9. Streams do not disturb each other: whatever the interleaving of devices, messages, sends, send
  failures and shutdown, what the handler of a stream has sent between two receives is exactly what
  \<open>MdtDialout\<close> sends when it runs alone on what the stream received, under faults of its own (none when
  the broker works); it has returned exactly when the loop returned, and nothing else is ever sent.\<close>

theorem streams_as_alone:
  assumes "server_reachable decode fails s" and "svStreams s c = Some st" and "smTodo st = []"
  shows "(\<exists>own. ((\<forall>k. \<not> fails k) \<longrightarrow> (\<forall>k. \<not> own k)) \<and>
      (case MdtDialout decode own (smGot st) \<lparr>attempts = 0, sent = []\<rparr> 0 of
         (status, p, acks) \<Rightarrow> sent p = log_of c s \<and> (status = Some Unavailable \<longleftrightarrow> smClosed st))) \<and>
    sent (svProducer s) = map snd (svLog s)"
proof -
  note inv = server_reachable_inv [OF assms(1)]
  have "True \<notin> set (smFaults st) \<Longrightarrow> \<not> faults (smFaults st) k" for k
    by (metis faults_def nth_mem)
  with server_inv_stream [OF inv assms(2)] assms(3) inv show ?thesis
    by (intro conjI exI [of _ "faults (smFaults st)"])
       (auto simp: MdtDialout_spec stream_inv_def at_message_def Let_def server_inv_def)
qed

text \<open>C30. Graceful shutdown: once stopped the server accepts nothing more and every stream has ended by a
  receive error of its own, so no message it had received is cut off, and a device that stays connected
  keeps the program from ending, since \<open>MdtDialout\<close> does not look at the shutdown. And from every state
  after the signal the server can still stop: it does when the devices leave.\<close>

theorem shutdown_waits_for_devices:
  assumes "server_reachable decode fails s"
  shows "(svStopped s \<longrightarrow> (\<forall>c st. svStreams s c = Some st \<longrightarrow> RecvErr \<in> set (smGot st) \<and> smTodo st = []) \<and>
      (\<forall>s'. server_step decode fails s s' \<longrightarrow> s' = s)) \<and>
    (svStopping s \<longrightarrow> (\<exists>s'. (server_step decode fails)\<^sup>*\<^sup>* s s' \<and> svStopped s'))"
proof (intro conjI impI allI)
  note inv = server_reachable_inv [OF assms]
  assume stopped: "svStopped s"
  with inv have closed: "smClosed st" if "svStreams s c = Some st" for c st
    using that by (auto simp: server_inv_def ran_def)
  fix c st assume c: "svStreams s c = Some st"
  from server_inv_stream [OF inv c] closed [OF c] show "RecvErr \<in> set (smGot st)" "smTodo st = []"
    by (auto simp: stream_inv_def split: if_splits)
next
  note inv = server_reachable_inv [OF assms]
  fix s' assume stopped: "svStopped s" and "server_step decode fails s s'"
  from inv stopped have closed: "\<And>c st. svStreams s c = Some st \<Longrightarrow> smClosed st" "svStopping s"
    by (auto simp: server_inv_def ran_def)
  from \<open>server_step decode fails s s'\<close> show "s' = s"
    using server_inv_open [OF inv] closed stopped by cases force+
next
  assume stopping: "svStopping s"
  have "finite (open_streams s)"
    using server_reachable_inv [OF assms]
    by (rule_tac finite_subset [of _ "dom (svStreams s)"]) (auto simp: server_inv_def open_streams_def)
  from all_leave [OF this, of decode fails] obtain s1 where
    s1: "(server_step decode fails)\<^sup>*\<^sup>* s s1" "open_streams s1 = {}" "svStopping s1" using stopping by blast
  have "server_step decode fails s1 (s1\<lparr>svStopped := True\<rparr>)"
    using s1(2,3) by (intro server_step.Stop) (auto simp: open_streams_def)
  with s1(1) show "\<exists>s'. (server_step decode fails)\<^sup>*\<^sup>* s s' \<and> svStopped s'"
    by (intro exI [of _ "s1\<lparr>svStopped := True\<rparr>"]) (auto intro: steps_step)
qed

subsection \<open>Witnesses\<close>

text \<open>Two devices whose messages overlap: what the second one says, \<open>mu\<close>, is sent before what the first
  one says, \<open>mt\<close>; then the signal comes.\<close>

definition demo_stream_state :: "8 word list \<Rightarrow> bool list \<Rightarrow> stream" where
  "demo_stream_state data fs = \<lparr>smGot = [RecvArgs data], smTodo = [], smClosed = False, smFaults = fs\<rparr>"

definition two_streams :: "kmsg \<Rightarrow> kmsg \<Rightarrow> server" where
  "two_streams mt mu = \<lparr>svProducer = \<lparr>attempts = 2, sent = [mu, mt]\<rparr>,
     svStreams = [0 \<mapsto> demo_stream_state [1] [False], 1 \<mapsto> demo_stream_state [2] [False]],
     svLog = [(1, mu), (0, mt)], svStopping = True, svStopped = False\<rparr>"

lemma reach:
  "server_reachable decode fails s \<Longrightarrow> server_step decode fails s s' \<Longrightarrow> s' = s'' \<Longrightarrow> server_reachable decode fails s''"
  unfolding server_reachable_def by (simp add: rtranclp.rtrancl_into_rtrancl)

lemma two_streams_reachable:
  assumes "decode [1] = Some t" "to_send t = [mt]" "decode [2] = Some u" "to_send u = [mu]"
  shows "server_reachable decode (\<lambda>_. False) (two_streams mt mu)"
proof -
  let ?reach = "server_reachable decode (\<lambda>_. False)"
  let ?s = "\<lambda>p sts l. \<lparr>svProducer = p, svStreams = sts, svLog = l, svStopping = False, svStopped = False\<rparr>"
  let ?p = "\<lambda>ms. \<lparr>attempts = length ms, sent = ms\<rparr>"
  let ?st = "\<lambda>data todo fs. \<lparr>smGot = [RecvArgs data], smTodo = todo, smClosed = False, smFaults = fs\<rparr>"
  have "?reach (?s (?p []) Map.empty [])"
    by (simp add: server_reachable_def server_start_def)
  then have "?reach (?s (?p []) [0 \<mapsto> new_stream] [])"
    by (rule reach [OF _ server_step.Accept [of _ 0]]) simp_all
  then have "?reach (?s (?p []) [0 \<mapsto> new_stream, 1 \<mapsto> new_stream] [])"
    by (rule reach [OF _ server_step.Accept [of _ 1]]) simp_all
  then have "?reach (?s (?p []) [0 \<mapsto> ?st [1] [mt] [], 1 \<mapsto> new_stream] [])"
    by (rule reach [OF _ server_step.Receive [of _ 0 new_stream _ _ "[1]"]])
       (simp_all add: new_stream_def received_def assms fun_eq_iff)
  then have "?reach (?s (?p []) [0 \<mapsto> ?st [1] [mt] [], 1 \<mapsto> ?st [2] [mu] []] [])"
    by (rule reach [OF _ server_step.Receive [of _ 1 new_stream _ _ "[2]"]])
       (simp_all add: new_stream_def received_def assms fun_eq_iff)
  then have "?reach (?s (?p [mu]) [0 \<mapsto> ?st [1] [mt] [], 1 \<mapsto> ?st [2] [] [False]] [(1, mu)])"
    by (rule reach [OF _ server_step.Send [of _ 1 "?st [2] [mu] []" mu "[]" _ "?p [mu]"]])
       (simp_all add: SendMessage_def fun_eq_iff)
  then have "?reach (?s (?p [mu, mt]) [0 \<mapsto> ?st [1] [] [False], 1 \<mapsto> ?st [2] [] [False]] [(1, mu), (0, mt)])"
    by (rule reach [OF _ server_step.Send [of _ 0 "?st [1] [mt] []" mt "[]" _ "?p [mu, mt]"]])
       (simp_all add: SendMessage_def fun_eq_iff)
  then show ?thesis
    by (rule reach [OF _ server_step.Signal]) (simp add: two_streams_def demo_stream_state_def)
qed

lemma demo_to_send:
  "to_send demo_vlans = [vlan_msg (hd (vlan_entries demo_vlans))]"
  "to_send demo_macs = [\<lparr>kTopic = ''mac-table'', kKey = ''sw1'', kValue = JArr (map mac_json (mac_entries demo_macs))\<rparr>]"
  by code_simp+

definition demo_server :: server where
  "demo_server = two_streams (hd (to_send demo_vlans)) (hd (to_send demo_macs))"

lemma demo_server_reachable: "server_reachable demo_decode (\<lambda>_. False) demo_server"
  unfolding demo_server_def
  by (rule two_streams_reachable [of _ demo_vlans _ demo_macs]) (simp_all add: demo_decode_def demo_to_send)

theorem streams_as_alone_witness:
  "\<exists>own. (\<forall>k. \<not> own k) \<and>
    (case MdtDialout demo_decode own [RecvArgs [1]] \<lparr>attempts = 0, sent = []\<rparr> 0 of
       (status, p, acks) \<Rightarrow> sent p = to_send demo_vlans \<and> status \<noteq> Some Unavailable)"
proof -
  have "svStreams demo_server 0 = Some (demo_stream_state [1] [False])"
    by (simp add: demo_server_def two_streams_def)
  from streams_as_alone [OF demo_server_reachable this] show ?thesis
    by (auto simp: demo_stream_state_def log_of_def demo_server_def two_streams_def demo_to_send)
qed

theorem shutdown_waits_for_devices_witness:
  "\<exists>s'. (server_step demo_decode (\<lambda>_. False))\<^sup>*\<^sup>* demo_server s' \<and> svStopped s'"
  using shutdown_waits_for_devices [OF demo_server_reachable] by (simp add: demo_server_def two_streams_def)

end
