(* ===== verification/Store.thy ===== *)
theory Store imports Prelude begin

text \<open>
  Tables with a unique key, as the SQL statements of the programs use them, and the contracts those
  statements offer. A table holds rows tagged with their BIGSERIAL id and the next id of its
  sequence. The locales \<open>kv_store\<close>, \<open>last_write_store\<close> and \<open>guarded_store\<close> state what a client
  may rely on after an upsert; \<open>Tables\<close> interprets them on the four telemetry tables.
\<close>

record 'r table =
  rows :: "(int \<times> 'r) list"
  next_id :: int

definition empty_table :: "'r table" where
  "empty_table = \<lparr>rows = [], next_id = 1\<rparr>"

definition get :: "('r \<Rightarrow> 'k) \<Rightarrow> 'r table \<Rightarrow> 'k \<Rightarrow> 'r option" where
  "get key t k = map_option snd (find (\<lambda>ir. key (snd ir) = k) (rows t))"

text \<open>
  \<open>INSERT \<dots> ON CONFLICT (key) DO UPDATE \<dots> WHERE \<dots>\<close>: \<open>new\<close> is the proposed row; \<open>conf old\<close> is the
  updated row, or \<open>None\<close> when the WHERE clause of DO UPDATE fails. The sequence advances either way.
\<close>

definition upsert :: "('r \<Rightarrow> 'k) \<Rightarrow> 'r \<Rightarrow> ('r \<Rightarrow> 'r option) \<Rightarrow> 'r table \<Rightarrow> 'r table" where
  "upsert key new conf t =
     (if list_ex (\<lambda>ir. key (snd ir) = key new) (rows t) then
        t\<lparr>rows := map (\<lambda>ir. if key (snd ir) = key new
                            then (fst ir, case conf (snd ir) of Some r \<Rightarrow> r | None \<Rightarrow> snd ir)
                            else ir) (rows t),
          next_id := next_id t + 1\<rparr>
      else
        t\<lparr>rows := rows t @ [(next_id t, new)], next_id := next_id t + 1\<rparr>)"

text \<open>\<open>DELETE FROM \<dots> WHERE P\<close>.\<close>

definition delete_where :: "('r \<Rightarrow> bool) \<Rightarrow> 'r table \<Rightarrow> 'r table" where
  "delete_where P t = t\<lparr>rows := filter (\<lambda>ir. \<not> P (snd ir)) (rows t)\<rparr>"

text \<open>The UNIQUE constraint, and ids that are distinct and below the sequence.\<close>

definition table_ok :: "('r \<Rightarrow> 'k) \<Rightarrow> 'r table \<Rightarrow> bool" where
  "table_ok key t \<longleftrightarrow>
     distinct (map (\<lambda>ir. key (snd ir)) (rows t)) \<and>
     distinct (map fst (rows t)) \<and> (\<forall>ir \<in> set (rows t). fst ir < next_id t)"

lemma table_ok_empty [simp]: "table_ok key empty_table"
  by (simp add: table_ok_def empty_table_def)

lemma get_empty [simp]: "get key empty_table k = None"
  by (simp add: get_def empty_table_def)

lemma get_key: "get key t k = Some r \<Longrightarrow> key r = k"
  by (auto simp: get_def dest: find_Some_mem)

lemma get_None_iff: "get key t k = None \<longleftrightarrow> (\<forall>ir \<in> set (rows t). key (snd ir) \<noteq> k)"
  by (force simp: get_def find_None_iff)

lemma has_key_iff: "list_ex (\<lambda>ir. key (snd ir) = k) (rows t) \<longleftrightarrow> get key t k \<noteq> None"
  by (simp add: get_None_iff list_ex_iff)

lemma get_Some_iff:
  assumes "table_ok key t"
  shows "get key t k = Some r \<longleftrightarrow> (\<exists>i. (i, r) \<in> set (rows t)) \<and> key r = k"
proof
  assume "get key t k = Some r"
  then show "(\<exists>i. (i, r) \<in> set (rows t)) \<and> key r = k"
    by (auto simp: get_def dest!: find_Some_mem)
next
  assume "(\<exists>i. (i, r) \<in> set (rows t)) \<and> key r = k"
  then obtain i where "(i, r) \<in> set (rows t)" and "key r = k" by blast
  with find_Some_unique [of "\<lambda>ir. key (snd ir)" "rows t" "(i, r)"] assms
  show "get key t k = Some r" by (simp add: get_def table_ok_def)
qed

lemma find_map_key:
  assumes "\<And>x. k (f x) = k x"
  shows "find (\<lambda>x. k x = a) (map f xs) = map_option f (find (\<lambda>x. k x = a) xs)"
  by (induction xs) (auto simp: assms)

lemma find_snoc: "find P (xs @ [x]) = (case find P xs of Some y \<Rightarrow> Some y | None \<Rightarrow> if P x then Some x else None)"
  by (induction xs) auto

text \<open>What an upsert does to the row of its key.\<close>

definition on_conflict :: "('r \<Rightarrow> 'r option) \<Rightarrow> 'r \<Rightarrow> 'r" where
  "on_conflict conf r = (case conf r of Some r' \<Rightarrow> r' | None \<Rightarrow> r)"

definition update_key :: "('r \<Rightarrow> 'k) \<Rightarrow> 'k \<Rightarrow> ('r \<Rightarrow> 'r option) \<Rightarrow> int \<times> 'r \<Rightarrow> int \<times> 'r" where
  "update_key key k conf ir =
     (if key (snd ir) = k then (fst ir, on_conflict conf (snd ir)) else ir)"

lemma upsert_present:
  "get key t (key new) \<noteq> None \<Longrightarrow>
     rows (upsert key new conf t) = map (update_key key (key new) conf) (rows t) \<and>
     next_id (upsert key new conf t) = next_id t + 1"
  by (simp add: upsert_def has_key_iff update_key_def on_conflict_def cong: map_cong)

lemma upsert_absent:
  "get key t (key new) = None \<Longrightarrow>
     rows (upsert key new conf t) = rows t @ [(next_id t, new)] \<and>
     next_id (upsert key new conf t) = next_id t + 1"
  by (simp add: upsert_def has_key_iff)

lemma fst_update_key [simp]: "fst (update_key key k conf ir) = fst ir"
  by (simp add: update_key_def)

lemma key_update_key:
  assumes "\<And>r r'. key r = k \<Longrightarrow> conf r = Some r' \<Longrightarrow> key r' = k"
  shows "key (snd (update_key key k conf ir)) = key (snd ir)"
  using assms by (simp add: update_key_def on_conflict_def split: option.split)

lemma upsert_ok:
  assumes "table_ok key t" and "\<And>r r'. key r = key new \<Longrightarrow> conf r = Some r' \<Longrightarrow> key r' = key new"
  shows "table_ok key (upsert key new conf t)"
proof (cases "get key t (key new) = None")
  case True
  then have "key new \<notin> set (map (\<lambda>ir. key (snd ir)) (rows t))"
    by (auto simp: get_None_iff)
  moreover have "next_id t \<notin> set (map fst (rows t))"
    using assms(1) by (auto simp: table_ok_def)
  ultimately show ?thesis
    using assms(1) upsert_absent [OF True, of conf] by (auto simp: table_ok_def)
next
  case False
  have keep: "key (snd (update_key key (key new) conf ir)) = key (snd ir)" for ir
    by (rule key_update_key) (rule assms(2))
  have keys: "map (\<lambda>ir. key (snd ir)) (map (update_key key (key new) conf) (rows t))
          = map (\<lambda>ir. key (snd ir)) (rows t)"
    by (simp add: keep)
  have ids: "map fst (map (update_key key (key new) conf) (rows t)) = map fst (rows t)"
    by simp
  from assms(1) upsert_present [OF False, of conf] show ?thesis
    unfolding table_ok_def by (simp only: keys ids) (auto simp: less_Suc_eq)
qed

lemma get_upsert:
  assumes "\<And>r r'. key r = key new \<Longrightarrow> conf r = Some r' \<Longrightarrow> key r' = key new"
  shows "get key (upsert key new conf t) k =
           (if k = key new
            then Some (case get key t k of None \<Rightarrow> new | Some r \<Rightarrow> on_conflict conf r)
            else get key t k)"
proof (cases "get key t (key new) = None")
  case True
  then show ?thesis
    using upsert_absent [OF True, of conf]
    by (auto simp: get_def find_snoc split: option.split)
next
  case False
  have keep: "key (snd (update_key key (key new) conf ir)) = key (snd ir)" for ir
    by (rule key_update_key) (rule assms)
  have "get key (upsert key new conf t) k =
      map_option snd (map_option (update_key key (key new) conf)
        (find (\<lambda>ir. key (snd ir) = k) (rows t)))"
    using upsert_present [OF False, of conf]
      find_map_key [of "\<lambda>ir. key (snd ir)" "update_key key (key new) conf", OF keep]
    by (simp add: get_def)
  moreover have "key (snd ir) = k" if "find (\<lambda>ir. key (snd ir) = k) (rows t) = Some ir" for ir
    using find_Some_mem [OF that] by simp
  ultimately show ?thesis
    using False by (cases "find (\<lambda>ir. key (snd ir) = k) (rows t)")
       (auto simp: get_def update_key_def)
qed

lemma delete_where_ok: "table_ok key t \<Longrightarrow> table_ok key (delete_where P t)"
  by (auto simp: table_ok_def delete_where_def distinct_map_filter)

lemma get_delete_where:
  assumes "table_ok key t"
  shows "get key (delete_where P t) k =
           (case get key t k of None \<Rightarrow> None | Some r \<Rightarrow> if P r then None else Some r)"
proof (cases "get key t k")
  case None
  then have "get key (delete_where P t) k = None" by (simp add: get_None_iff delete_where_def)
  with None show ?thesis by simp
next
  case (Some r)
  show ?thesis
  proof (cases "P r")
    case True
    have "get key (delete_where P t) k \<noteq> Some r'" for r'
    proof
      assume "get key (delete_where P t) k = Some r'"
      then have "get key t k = Some r' \<and> \<not> P r'"
        using assms delete_where_ok [OF assms, of P]
        by (auto simp: get_Some_iff) (auto simp: delete_where_def)
      with Some True show False by simp
    qed
    with True Some show ?thesis by (cases "get key (delete_where P t) k") auto
  next
    case False
    have "get key (delete_where P t) k = Some r"
      using assms Some False delete_where_ok [OF assms, of P]
      by (auto simp: get_Some_iff) (auto simp: delete_where_def)
    with False Some show ?thesis by simp
  qed
qed

subsection \<open>The contract of an upsert\<close>

text \<open>
  A store that writes arguments \<open>'a\<close> under the key \<open>akey\<close>: after \<open>put a\<close> the key holds
  \<open>merge a old\<close> and every other key is as before.
\<close>

locale kv_store =
  fixes put :: "'a \<Rightarrow> 't \<Rightarrow> 't"
    and look :: "'t \<Rightarrow> 'k \<Rightarrow> 'r option"
    and akey :: "'a \<Rightarrow> 'k"
    and merge :: "'a \<Rightarrow> 'r option \<Rightarrow> 'r"
    and invar :: "'t \<Rightarrow> bool"
  assumes invar_put: "invar t \<Longrightarrow> invar (put a t)"
    and look_put: "invar t \<Longrightarrow>
      look (put a t) k = (if k = akey a then Some (merge a (look t k)) else look t k)"
begin

lemma invar_puts: "invar t \<Longrightarrow> invar (fold put as t)"
  by (induction as arbitrary: t) (simp_all add: invar_put)

lemma look_puts_other:
  "invar t \<Longrightarrow> k \<notin> akey ` set as \<Longrightarrow> look (fold put as t) k = look t k"
  by (induction as arbitrary: t) (auto simp: invar_put look_put)

lemma look_puts_single:
  "invar t \<Longrightarrow> filter (\<lambda>a. akey a = k) as = [a] \<Longrightarrow> look (fold put as t) k = Some (merge a (look t k))"
proof (induction as arbitrary: t)
  case (Cons b as)
  show ?case
  proof (cases "akey b = k")
    case True
    with Cons.prems(2) have "b = a" "k \<notin> akey ` set as" by (auto simp: filter_empty_conv)
    with True Cons.prems(1) show ?thesis by (simp add: look_puts_other invar_put look_put)
  next
    case False
    with Cons.IH [of "put b t"] Cons.prems show ?thesis by (simp add: invar_put look_put)
  qed
qed simp

text \<open>A batch with distinct keys: each key meets its one argument.\<close>

lemma look_puts_distinct:
  assumes "invar t" and "distinct (map akey as)"
  shows "look (fold put as t) k =
    (case find (\<lambda>a. akey a = k) as of
       None \<Rightarrow> look t k | Some a \<Rightarrow> Some (merge a (look t k)))"
  using assms
proof (induction as arbitrary: t)
  case (Cons a as)
  show ?case
  proof (cases "akey a = k")
    case True
    with Cons.prems show ?thesis
      by (simp add: look_puts_other invar_put look_put)
  next
    case False
    with Cons.IH [of "put a t"] Cons.prems show ?thesis
      by (simp add: invar_put look_put split: option.split)
  qed
qed simp

text \<open>So the order in which such a batch is written does not matter.\<close>

lemma look_puts_order:
  assumes "invar t" and "distinct (map akey as)" and "distinct (map akey bs)" and "set as = set bs"
  shows "look (fold put as t) k = look (fold put bs t) k"
  using assms find_mset_cong [OF assms(2,4,3), of k] by (simp add: look_puts_distinct)

lemma look_puts_mono:
  "invar t \<Longrightarrow> look t k \<noteq> None \<Longrightarrow> look (fold put as t) k \<noteq> None"
  by (induction as arbitrary: t) (auto simp: invar_put look_put)

end

text \<open>A store whose updates ignore the old row: the last write wins.\<close>

locale last_write_store = kv_store +
  fixes row_of :: "'a \<Rightarrow> 'r"
  assumes merge_row: "merge a old = row_of a"
begin

lemma look_puts_last:
  assumes "invar t" and "filter (\<lambda>a. akey a = k) as \<noteq> []"
  shows "look (fold put as t) k = Some (row_of (last (filter (\<lambda>a. akey a = k) as)))"
  using assms
proof (induction as arbitrary: t)
  case (Cons a as)
  show ?case
  proof (cases "filter (\<lambda>a. akey a = k) as = []")
    case True
    then have "k \<notin> akey ` set as" by (auto simp: filter_empty_conv)
    with True Cons.prems show ?thesis
      by (simp add: look_puts_other invar_put look_put merge_row split: if_splits)
  next
    case False
    with Cons.IH [of "put a t"] Cons.prems(1) show ?thesis by (simp add: invar_put)
  qed
qed simp

end

lemma Max_insert_max:
  "finite A \<Longrightarrow> Max (insert (max x y) A) = Max (insert y A \<union> {x :: 'a::linorder})"
  by (cases "A = {}") (simp_all add: max.commute max.left_commute)

text \<open>
  A store with a time guard: an argument older than the stored row changes nothing, any other
  argument stamps the row with its own time.
\<close>

locale guarded_store = kv_store +
  fixes stamp_of :: "'a \<Rightarrow> instant"
    and stamp :: "'r \<Rightarrow> instant"
  assumes merge_stale: "stamp_of a < stamp r \<Longrightarrow> merge a (Some r) = r"
    and merge_fresh: "stamp r \<le> stamp_of a \<Longrightarrow> stamp (merge a (Some r)) = stamp_of a"
    and merge_new: "stamp (merge a None) = stamp_of a"
begin

lemma stamp_put:
  assumes "invar t"
  shows "map_option stamp (look (put a t) k) =
    (if k = akey a then
       Some (case look t k of None \<Rightarrow> stamp_of a | Some r \<Rightarrow> max (stamp r) (stamp_of a))
     else map_option stamp (look t k))"
  using merge_fresh [of _ a] merge_stale [of a] merge_new [of a]
  by (auto simp: look_put [OF assms] max_def split: option.split)

text \<open>Whatever is written, in whatever order, the stamp of a key never goes back \<dots>\<close>

lemma stamp_monotone:
  assumes "invar t" and "look t k = Some r"
  shows "\<exists>r'. look (fold put as t) k = Some r' \<and> stamp r \<le> stamp r'"
  using assms
proof (induction as arbitrary: t r)
  case (Cons a as)
  have "map_option stamp (look (put a t) k) \<noteq> None"
    using stamp_put [OF Cons.prems(1), of a k] Cons.prems(2) by simp
  then obtain r1 where r1: "look (put a t) k = Some r1" by auto
  with stamp_put [OF Cons.prems(1), of a k] Cons.prems(2) have "stamp r \<le> stamp r1"
    by (auto split: if_splits)
  with Cons.IH [OF invar_put [OF Cons.prems(1)] r1] show ?case by force
qed auto

text \<open>\<dots> and ends as the newest time of all that was written to the key.\<close>

lemma stamp_newest:
  assumes "invar t" and "look t k = None" and "k \<in> akey ` set as"
  shows "map_option stamp (look (fold put as t) k) =
           Some (Max (stamp_of ` {a \<in> set as. akey a = k}))"
proof -
  have gen: "map_option stamp (look (fold put as t) k) =
      (let S = stamp_of ` {a \<in> set as. akey a = k} \<union> set_option (map_option stamp (look t k))
       in if S = {} then None else Some (Max S))" if "invar t" for as t
    using that
  proof (induction as arbitrary: t)
    case Nil
    then show ?case by (cases "look t k") (auto simp: Let_def)
  next
    case (Cons a as)
    let ?A = "stamp_of ` {a \<in> set as. akey a = k}"
    have fin: "finite ?A" by simp
    show ?case
    proof (cases "akey a = k")
      case True
      let ?S = "set_option (map_option stamp (look (put a t) k))"
      from True have eq: "stamp_of ` {b \<in> set (a # as). akey b = k} = insert (stamp_of a) ?A"
        by auto
      obtain r1 where r1: "look (put a t) k = Some r1"
        and st: "stamp r1 = (case look t k of None \<Rightarrow> stamp_of a
                              | Some r \<Rightarrow> max (stamp r) (stamp_of a))"
        using stamp_put [OF Cons.prems, of a k] True by auto
      have "map_option stamp (look (fold put (a # as) t) k) = Some (Max (insert (stamp r1) ?A))"
        using Cons.IH [OF invar_put [OF Cons.prems], of a] r1 by (simp add: Let_def)
      also have "Max (insert (stamp r1) ?A) =
          Max (insert (stamp_of a) ?A \<union> set_option (map_option stamp (look t k)))"
        by (cases "look t k") (simp_all add: st Max_insert_max [OF fin])
      finally show ?thesis unfolding eq by (simp add: Let_def)
    next
      case False
      then have "{b \<in> set (a # as). akey b = k} = {b \<in> set as. akey b = k}" by auto
      with Cons.IH [OF invar_put [OF Cons.prems], of a] stamp_put [OF Cons.prems, of a k] False
      show ?thesis by simp
    qed
  qed
  from gen [OF assms(1), of as] assms(2,3) show ?thesis by (auto simp: Let_def)
qed

end

end
