(* ===== verification/Tables.thy ===== *)
theory Tables imports Store Payload begin

text \<open>
  The telemetry tables of \<open>migrations/001_init.sql\<close> and the statements \<open>consumer/main.go\<close> runs on
  them: the two batched upserts, the two guarded upserts and the retention delete. Nullable columns
  are options. A statement is a function from the database to \<open>None\<close> (the statement fails and
  changes nothing) or the new database; \<open>db_exec\<close> adds the failures of the connection.
\<close>

subsection \<open>Rows\<close>

record mac_row =
  rmNode :: string
  rmMac :: string
  rmInterface :: "string option"
  rmVlan :: "int option"
  rmType :: "string option"
  rmAt :: instant

record arp_row =
  raNode :: string
  raIp :: string
  raMac :: "string option"
  raInterface :: "string option"
  raAge :: "int option"
  raAt :: instant

record if_row =
  riNode :: string
  riName :: string
  riDescription :: "string option"
  riShutdown :: bool
  riIp :: "string option"
  riPrefixLen :: "int option"
  riVrf :: "string option"
  riMtu :: "int option"
  riAccessVlan :: int
  riVoiceVlan :: "int option"
  riAt :: instant

record vlan_row =
  rvNode :: string
  rvVlanId :: int
  rvName :: "string option"
  rvStatus :: "string option"
  rvAt :: instant

record db =
  macT :: "mac_row table"
  arpT :: "arp_row table"
  ifT :: "if_row table"
  vlanT :: "vlan_row table"
  execs :: nat

definition empty_db :: db where
  "empty_db = \<lparr>macT = empty_table, arpT = empty_table, ifT = empty_table, vlanT = empty_table,
     execs = 0\<rparr>"

abbreviation mac_key :: "mac_row \<Rightarrow> string \<times> string" where
  "mac_key r \<equiv> (rmNode r, rmMac r)"

abbreviation arp_key :: "arp_row \<Rightarrow> string \<times> string" where
  "arp_key r \<equiv> (raNode r, raIp r)"

abbreviation if_key :: "if_row \<Rightarrow> string \<times> string" where
  "if_key r \<equiv> (riNode r, riName r)"

abbreviation vlan_key :: "vlan_row \<Rightarrow> string \<times> int" where
  "vlan_key r \<equiv> (rvNode r, rvVlanId r)"

definition db_ok :: "db \<Rightarrow> bool" where
  "db_ok d \<longleftrightarrow> table_ok mac_key (macT d) \<and> table_ok arp_key (arpT d) \<and>
     table_ok if_key (ifT d) \<and> table_ok vlan_key (vlanT d)"

text \<open>The k-th \<open>Exec\<close> fails when the connection does (\<open>db_fails k\<close>) or the statement is refused.\<close>

definition db_exec ::
    "(nat \<Rightarrow> bool) \<Rightarrow> (db \<Rightarrow> db option) \<Rightarrow> db \<Rightarrow> go_error option \<times> db" where
  "db_exec db_fails stmt d =
     (let d1 = d\<lparr>execs := execs d + 1\<rparr> in
      if db_fails (execs d) then (Some DbError, d1)
      else case stmt d1 of None \<Rightarrow> (Some DbError, d1) | Some d2 \<Rightarrow> (None, d2))"

text \<open>\<open>COALESCE(a, b)\<close>\<close>

definition coalesce :: "'a option \<Rightarrow> 'a option \<Rightarrow> 'a option" where
  "coalesce a b = (case a of None \<Rightarrow> b | Some x \<Rightarrow> Some x)"

subsection \<open>The batched upserts of mac_table and arp_table\<close>

text \<open>\<open>int32(e.Vlan)\<close> keeps the bits of the unsigned value.\<close>

definition mac_row_of :: "mac_entry \<Rightarrow> mac_row" where
  "mac_row_of e = \<lparr>rmNode = mNodeID e, rmMac = mMacAddress e, rmInterface = Some (mInterface e),
     rmVlan = Some (sint (mVlan e)), rmType = Some (mType e), rmAt = mTimestamp e\<rparr>"

definition mac_put :: "mac_entry \<Rightarrow> mac_row table \<Rightarrow> mac_row table" where
  "mac_put e t =
     (let new = mac_row_of e in
      upsert mac_key new
        (\<lambda>old. Some (old\<lparr>rmInterface := rmInterface new, rmVlan := rmVlan new,
                         rmType := rmType new, rmAt := rmAt new\<rparr>)) t)"

abbreviation mac_entry_key :: "mac_entry \<Rightarrow> string \<times> string" where
  "mac_entry_key e \<equiv> (mNodeID e, mMacAddress e)"

text \<open>PostgreSQL refuses an ON CONFLICT DO UPDATE that meets one key twice in a statement.\<close>

definition mac_upsert :: "mac_entry list \<Rightarrow> db \<Rightarrow> db option" where
  "mac_upsert es d =
     (if distinct (map mac_entry_key es) then Some (d\<lparr>macT := fold mac_put es (macT d)\<rparr>)
      else None)"

definition arp_row_of :: "arp_entry \<Rightarrow> arp_row" where
  "arp_row_of e = \<lparr>raNode = aNodeID e, raIp = aIPAddress e, raMac = Some (aMacAddress e),
     raInterface = Some (aInterface e), raAge = Some (sint (aAge e)), raAt = aTimestamp e\<rparr>"

definition arp_put :: "arp_entry \<Rightarrow> arp_row table \<Rightarrow> arp_row table" where
  "arp_put e t =
     (let new = arp_row_of e in
      upsert arp_key new
        (\<lambda>old. Some (old\<lparr>raMac := raMac new, raInterface := raInterface new,
                         raAge := raAge new, raAt := raAt new\<rparr>)) t)"

abbreviation arp_entry_key :: "arp_entry \<Rightarrow> string \<times> string" where
  "arp_entry_key e \<equiv> (aNodeID e, aIPAddress e)"

definition arp_upsert :: "arp_entry list \<Rightarrow> db \<Rightarrow> db option" where
  "arp_upsert es d =
     (if distinct (map arp_entry_key es) then Some (d\<lparr>arpT := fold arp_put es (arpT d)\<rparr>)
      else None)"

subsection \<open>The guarded upserts of interface_table and vlan_table\<close>

text \<open>
  Parameters must fit their columns (SMALLINT, INTEGER); an interface row must have a value for the
  NOT NULL column \<open>shutdown\<close>, which is checked on the proposed row before any conflict is looked
  for.
\<close>

definition fits_smallint :: "int \<Rightarrow> bool" where
  "fits_smallint n \<longleftrightarrow> -32768 \<le> n \<and> n < 32768"

definition fits_integer :: "int \<Rightarrow> bool" where
  "fits_integer n \<longleftrightarrow> -2147483648 \<le> n \<and> n < 2147483648"

definition if_args_ok :: "if_entry_in \<Rightarrow> bool" where
  "if_args_ok e \<longleftrightarrow>
     jShutdown e \<noteq> None \<and>
     pred_option fits_smallint (jPrefixLen e) \<and>
     pred_option (\<lambda>w. fits_integer (uint w)) (jMTU e) \<and>
     pred_option (\<lambda>w. fits_smallint (uint w)) (jAccessVlan e) \<and>
     pred_option (\<lambda>w. fits_smallint (uint w)) (jVoiceVlan e)"

definition if_row_of :: "if_entry_in \<Rightarrow> if_row" where
  "if_row_of e =
     \<lparr>riNode = jNodeID e, riName = jName e, riDescription = jDescription e,
      riShutdown = (jShutdown e = Some True), riIp = jIPAddress e, riPrefixLen = jPrefixLen e,
      riVrf = jVRF e, riMtu = map_option uint (jMTU e),
      riAccessVlan = (case jAccessVlan e of None \<Rightarrow> 1 | Some w \<Rightarrow> uint w),
      riVoiceVlan = map_option uint (jVoiceVlan e), riAt = jTimestamp e\<rparr>"

definition if_update :: "if_entry_in \<Rightarrow> if_row \<Rightarrow> if_row option" where
  "if_update e old =
     (if jTimestamp e \<ge> riAt old then
        Some (old\<lparr>
          riDescription := coalesce (jDescription e) (riDescription old),
          riShutdown := (case jShutdown e of Some b \<Rightarrow> b | None \<Rightarrow> riShutdown old),
          riIp := coalesce (jIPAddress e) (riIp old),
          riPrefixLen := coalesce (jPrefixLen e) (riPrefixLen old),
          riVrf := coalesce (jVRF e) (riVrf old),
          riMtu := coalesce (map_option uint (jMTU e)) (riMtu old),
          riAccessVlan := (case jAccessVlan e of Some w \<Rightarrow> uint w | None \<Rightarrow> riAccessVlan old),
          riVoiceVlan := coalesce (map_option uint (jVoiceVlan e)) (riVoiceVlan old),
          riAt := jTimestamp e\<rparr>)
      else None)"

definition if_put :: "if_entry_in \<Rightarrow> if_row table \<Rightarrow> if_row table" where
  "if_put e t = upsert if_key (if_row_of e) (if_update e) t"

definition if_upsert :: "if_entry_in \<Rightarrow> db \<Rightarrow> db option" where
  "if_upsert e d = (if if_args_ok e then Some (d\<lparr>ifT := if_put e (ifT d)\<rparr>) else None)"

text \<open>\<open>NULLIF($4,'')\<close>\<close>

definition nullif_empty :: "string \<Rightarrow> string option" where
  "nullif_empty s = (if s = [] then None else Some s)"

definition vlan_row_of :: "vlan_entry \<Rightarrow> vlan_row" where
  "vlan_row_of e = \<lparr>rvNode = vNodeID e, rvVlanId = uint (vVlanID e), rvName = vName e,
     rvStatus = nullif_empty (vStatus e), rvAt = vTimestamp e\<rparr>"

definition vlan_update :: "vlan_entry \<Rightarrow> vlan_row \<Rightarrow> vlan_row option" where
  "vlan_update e old =
     (if vTimestamp e \<ge> rvAt old then
        Some (old\<lparr>rvName := coalesce (vName e) (rvName old),
                  rvStatus := coalesce (nullif_empty (vStatus e)) (rvStatus old),
                  rvAt := vTimestamp e\<rparr>)
      else None)"

definition vlan_put :: "vlan_entry \<Rightarrow> vlan_row table \<Rightarrow> vlan_row table" where
  "vlan_put e t = upsert vlan_key (vlan_row_of e) (vlan_update e) t"

definition vlan_upsert :: "vlan_entry \<Rightarrow> db \<Rightarrow> db option" where
  "vlan_upsert e d =
     (if fits_integer (uint (vVlanID e)) then Some (d\<lparr>vlanT := vlan_put e (vlanT d)\<rparr>) else None)"

subsection \<open>Retention\<close>

datatype tbl = MacTable | ArpTable | InterfaceTable | VlanTable

definition delete_older :: "tbl \<Rightarrow> instant \<Rightarrow> db \<Rightarrow> db" where
  "delete_older tb cutoff d =
     (case tb of
        MacTable \<Rightarrow> d\<lparr>macT := delete_where (\<lambda>r. rmAt r < cutoff) (macT d)\<rparr>
      | ArpTable \<Rightarrow> d\<lparr>arpT := delete_where (\<lambda>r. raAt r < cutoff) (arpT d)\<rparr>
      | InterfaceTable \<Rightarrow> d\<lparr>ifT := delete_where (\<lambda>r. riAt r < cutoff) (ifT d)\<rparr>
      | VlanTable \<Rightarrow> d\<lparr>vlanT := delete_where (\<lambda>r. rvAt r < cutoff) (vlanT d)\<rparr>)"

subsection \<open>The contracts\<close>

interpretation macs: last_write_store mac_put "get mac_key" mac_entry_key "\<lambda>e old. mac_row_of e"
  "table_ok mac_key" mac_row_of
proof (unfold_locales, goal_cases)
  case (1 t a)
  then show ?case unfolding mac_put_def Let_def by (rule upsert_ok) auto
next
  case (2 t a k)
  show ?case unfolding mac_put_def Let_def
    by (subst get_upsert)
       (auto simp: on_conflict_def mac_row_of_def split: option.split dest!: get_key)
qed simp

interpretation arps: last_write_store arp_put "get arp_key" arp_entry_key "\<lambda>e old. arp_row_of e"
  "table_ok arp_key" arp_row_of
proof (unfold_locales, goal_cases)
  case (1 t a)
  then show ?case unfolding arp_put_def Let_def by (rule upsert_ok) auto
next
  case (2 t a k)
  show ?case unfolding arp_put_def Let_def
    by (subst get_upsert)
       (auto simp: on_conflict_def arp_row_of_def split: option.split dest!: get_key)
qed simp

definition if_merge :: "if_entry_in \<Rightarrow> if_row option \<Rightarrow> if_row" where
  "if_merge e old = (case old of None \<Rightarrow> if_row_of e | Some r \<Rightarrow> on_conflict (if_update e) r)"

definition vlan_merge :: "vlan_entry \<Rightarrow> vlan_row option \<Rightarrow> vlan_row" where
  "vlan_merge e old = (case old of None \<Rightarrow> vlan_row_of e | Some r \<Rightarrow> on_conflict (vlan_update e) r)"

abbreviation if_entry_key :: "if_entry_in \<Rightarrow> string \<times> string" where
  "if_entry_key e \<equiv> (jNodeID e, jName e)"

abbreviation vlan_entry_key :: "vlan_entry \<Rightarrow> string \<times> int" where
  "vlan_entry_key e \<equiv> (vNodeID e, uint (vVlanID e))"

lemma if_update_key: "if_update e r = Some r' \<Longrightarrow> if_key r' = if_key r"
  by (auto simp: if_update_def split: if_splits)

lemma vlan_update_key: "vlan_update e r = Some r' \<Longrightarrow> vlan_key r' = vlan_key r"
  by (auto simp: vlan_update_def split: if_splits)

lemma if_row_of_key: "if_key (if_row_of e) = if_entry_key e"
  by (simp add: if_row_of_def)

lemma vlan_row_of_key: "vlan_key (vlan_row_of e) = vlan_entry_key e"
  by (simp add: vlan_row_of_def)

interpretation ifs: guarded_store if_put "get if_key" if_entry_key if_merge "table_ok if_key"
  jTimestamp riAt
proof (unfold_locales, goal_cases)
  case (1 t a)
  then show ?case
    unfolding if_put_def using if_update_key by (intro upsert_ok) metis+
next
  case (2 t a k)
  have "get if_key (upsert if_key (if_row_of a) (if_update a) t) k =
      (if k = if_key (if_row_of a)
       then Some (case get if_key t k of None \<Rightarrow> if_row_of a
                  | Some r \<Rightarrow> on_conflict (if_update a) r)
       else get if_key t k)"
    by (rule get_upsert) (metis if_update_key)
  then show ?case
    by (simp add: if_put_def if_row_of_key if_merge_def)
qed (auto simp: if_merge_def on_conflict_def if_update_def if_row_of_def)

interpretation vlans: guarded_store vlan_put "get vlan_key" vlan_entry_key vlan_merge
  "table_ok vlan_key" vTimestamp rvAt
proof (unfold_locales, goal_cases)
  case (1 t a)
  then show ?case
    unfolding vlan_put_def using vlan_update_key by (intro upsert_ok) metis+
next
  case (2 t a k)
  have "get vlan_key (upsert vlan_key (vlan_row_of a) (vlan_update a) t) k =
      (if k = vlan_key (vlan_row_of a)
       then Some (case get vlan_key t k of None \<Rightarrow> vlan_row_of a
                  | Some r \<Rightarrow> on_conflict (vlan_update a) r)
       else get vlan_key t k)"
    by (rule get_upsert) (metis vlan_update_key)
  then show ?case
    by (simp add: vlan_put_def vlan_row_of_key vlan_merge_def)
qed (auto simp: vlan_merge_def on_conflict_def vlan_update_def vlan_row_of_def)

lemmas table_stores [store_simps] =
  macs.look_put arps.look_put ifs.look_put vlans.look_put

subsection \<open>Statements and the well-formedness of the database\<close>

lemma mac_upsert_ok: "db_ok d \<Longrightarrow> mac_upsert es d = Some d' \<Longrightarrow> db_ok d'"
  by (auto simp: mac_upsert_def db_ok_def macs.invar_puts split: if_splits)

lemma arp_upsert_ok: "db_ok d \<Longrightarrow> arp_upsert es d = Some d' \<Longrightarrow> db_ok d'"
  by (auto simp: arp_upsert_def db_ok_def arps.invar_puts split: if_splits)

lemma if_upsert_ok: "db_ok d \<Longrightarrow> if_upsert e d = Some d' \<Longrightarrow> db_ok d'"
  by (auto simp: if_upsert_def db_ok_def ifs.invar_put split: if_splits)

lemma vlan_upsert_ok: "db_ok d \<Longrightarrow> vlan_upsert e d = Some d' \<Longrightarrow> db_ok d'"
  by (auto simp: vlan_upsert_def db_ok_def vlans.invar_put split: if_splits)

lemma delete_older_ok: "db_ok d \<Longrightarrow> db_ok (delete_older tb cutoff d)"
  by (cases tb) (simp_all add: db_ok_def delete_older_def delete_where_ok)

lemma db_ok_execs [simp]: "db_ok (d\<lparr>execs := n\<rparr>) = db_ok d"
  by (simp add: db_ok_def)

lemma db_ok_empty [simp]: "db_ok empty_db"
  by (simp add: db_ok_def empty_db_def)

lemma db_exec_ok:
  assumes "db_ok d" and "\<And>d d'. db_ok d \<Longrightarrow> stmt d = Some d' \<Longrightarrow> db_ok d'"
  shows "db_ok (snd (db_exec db_fails stmt d))"
  using assms(1) assms(2) [of "d\<lparr>execs := execs d + 1\<rparr>"] by (auto simp: db_exec_def Let_def split: option.split)

text \<open>A statement that runs without an error has taken effect; with an error nothing changed.\<close>

lemma db_exec_None:
  "fst (db_exec db_fails stmt d) = None \<longleftrightarrow>
     \<not> db_fails (execs d) \<and> stmt (d\<lparr>execs := execs d + 1\<rparr>) = Some (snd (db_exec db_fails stmt d))"
  by (auto simp: db_exec_def Let_def split: option.splits)

lemma db_exec_error:
  "fst (db_exec db_fails stmt d) \<noteq> None \<Longrightarrow>
     snd (db_exec db_fails stmt d) = d\<lparr>execs := execs d + 1\<rparr>"
  by (auto simp: db_exec_def Let_def split: option.splits if_splits)

subsection \<open>Properties\<close>

text \<open>C29. Stale pushes never win: after writes of interface and VLAN entries in any order, a row bears
  the newest time among all entries written for its key, and there is a row exactly for the keys
  written.\<close>

theorem guarded_rows_are_newest:
  "map_option riAt (get if_key (fold if_put es empty_table) k) =
     (if k \<in> if_entry_key ` set es then Some (Max (jTimestamp ` {e \<in> set es. if_entry_key e = k}))
      else None) \<and>
   map_option rvAt (get vlan_key (fold vlan_put vs empty_table) v) =
     (if v \<in> vlan_entry_key ` set vs then Some (Max (vTimestamp ` {e \<in> set vs. vlan_entry_key e = v}))
      else None)"
  using ifs.stamp_newest [of empty_table k es] vlans.stamp_newest [of empty_table v vs]
    ifs.look_puts_other [of empty_table k es] vlans.look_puts_other [of empty_table v vs]
  by auto

text \<open>MAC and ARP rows are the last write, whatever its time: writing entries in a row leaves for
  each key the row of the last entry written for it, even when an earlier one was newer. So a
  snapshot consumed late replaces a newer one.\<close>

theorem dynamic_rows_are_last_write:
  assumes "filter (\<lambda>e. mac_entry_key e = k) es \<noteq> []" and "filter (\<lambda>e. arp_entry_key e = j) as \<noteq> []"
  shows "get mac_key (fold mac_put es empty_table) k =
      Some (mac_row_of (last (filter (\<lambda>e. mac_entry_key e = k) es))) \<and>
    get arp_key (fold arp_put as empty_table) j =
      Some (arp_row_of (last (filter (\<lambda>e. arp_entry_key e = j) as)))"
  using macs.look_puts_last [OF _ assms(1), of empty_table] arps.look_puts_last [OF _ assms(2), of empty_table]
  by simp

theorem dynamic_rows_are_last_write_witness:
  "map_option rmAt (get mac_key (fold mac_put
     [\<lparr>mTimestamp = 9000, mNodeID = ''sw1'', mMacAddress = ''m'', mInterface = ''new'', mVlan = 1, mType = []\<rparr>,
      \<lparr>mTimestamp = 4000, mNodeID = ''sw1'', mMacAddress = ''m'', mInterface = ''old'', mVlan = 1, mType = []\<rparr>]
     empty_table) (''sw1'', ''m'')) = Some 4000"
  using dynamic_rows_are_last_write [of "(''sw1'', ''m'')"
     "[\<lparr>mTimestamp = 9000, mNodeID = ''sw1'', mMacAddress = ''m'', mInterface = ''new'', mVlan = 1, mType = []\<rparr>,
      \<lparr>mTimestamp = 4000, mNodeID = ''sw1'', mMacAddress = ''m'', mInterface = ''old'', mVlan = 1, mType = []\<rparr>]"
     "([], [])" "[\<lparr>aTimestamp = 1, aNodeID = [], aIPAddress = [], aMacAddress = [], aInterface = [], aAge = 0\<rparr>]"]
  by (simp add: mac_row_of_def)

text \<open>A batched upsert may be built by ranging over the Go map in any order: two orders of the same
  batch, whose keys are distinct, leave the same rows, in the MAC and in the ARP table.\<close>

theorem batch_order_irrelevant:
  assumes "db_ok d" and "distinct (map mac_entry_key es)" and "distinct (map mac_entry_key es')"
    and "set es = set es'" and "distinct (map arp_entry_key as)" and "distinct (map arp_entry_key as')"
    and "set as = set as'"
  shows "map_option (\<lambda>d. get mac_key (macT d)) (mac_upsert es d) =
      map_option (\<lambda>d. get mac_key (macT d)) (mac_upsert es' d) \<and>
    map_option (\<lambda>d. get arp_key (arpT d)) (arp_upsert as d) =
      map_option (\<lambda>d. get arp_key (arpT d)) (arp_upsert as' d)"
  using assms macs.look_puts_order [of "macT d" es es'] arps.look_puts_order [of "arpT d" as as']
  by (auto simp: mac_upsert_def arp_upsert_def db_ok_def fun_eq_iff)

theorem batch_order_irrelevant_witness:
  "map_option (\<lambda>d. get mac_key (macT d)) (mac_upsert
     [\<lparr>mTimestamp = 1, mNodeID = ''sw1'', mMacAddress = ''a'', mInterface = [], mVlan = 1, mType = []\<rparr>,
      \<lparr>mTimestamp = 2, mNodeID = ''sw1'', mMacAddress = ''b'', mInterface = [], mVlan = 1, mType = []\<rparr>] empty_db) =
   map_option (\<lambda>d. get mac_key (macT d)) (mac_upsert
     [\<lparr>mTimestamp = 2, mNodeID = ''sw1'', mMacAddress = ''b'', mInterface = [], mVlan = 1, mType = []\<rparr>,
      \<lparr>mTimestamp = 1, mNodeID = ''sw1'', mMacAddress = ''a'', mInterface = [], mVlan = 1, mType = []\<rparr>] empty_db)"
  by (rule batch_order_irrelevant [where as = "[]" and as' = "[]", THEN conjunct1]) auto

text \<open>Every statement keeps the unique keys and the ids of the four tables, and one that fails,
  because the connection does or because PostgreSQL refuses it, changes no row.\<close>

theorem statements_keep_tables:
  assumes "db_ok d"
    and "stmt \<in> {mac_upsert ms, arp_upsert as, if_upsert i, vlan_upsert v, \<lambda>d. Some (delete_older tb cutoff d)}"
  shows "db_ok (snd (db_exec db_fails stmt d)) \<and>
    (fst (db_exec db_fails stmt d) = None \<or> snd (db_exec db_fails stmt d) = d\<lparr>execs := execs d + 1\<rparr>)"
proof -
  have "db_ok (snd (db_exec db_fails stmt d))"
    using assms(1)
  proof (rule db_exec_ok)
    fix d d' assume "db_ok d" "stmt d = Some d'"
    from assms(2) consider "stmt = mac_upsert ms" | "stmt = arp_upsert as" | "stmt = if_upsert i"
      | "stmt = vlan_upsert v" | "stmt = (\<lambda>d. Some (delete_older tb cutoff d))" by blast
    then show "db_ok d'"
    proof cases
      case 1 then show ?thesis using mac_upsert_ok [OF \<open>db_ok d\<close>, of ms d'] \<open>stmt d = Some d'\<close> by simp
    next
      case 2 then show ?thesis using arp_upsert_ok [OF \<open>db_ok d\<close>, of as d'] \<open>stmt d = Some d'\<close> by simp
    next
      case 3 then show ?thesis using if_upsert_ok [OF \<open>db_ok d\<close>, of i d'] \<open>stmt d = Some d'\<close> by simp
    next
      case 4 then show ?thesis using vlan_upsert_ok [OF \<open>db_ok d\<close>, of v d'] \<open>stmt d = Some d'\<close> by simp
    next
      case 5 then show ?thesis using delete_older_ok [OF \<open>db_ok d\<close>, of tb cutoff] \<open>stmt d = Some d'\<close> by simp
    qed
  qed
  with db_exec_error [of db_fails stmt d] show ?thesis by blast
qed

theorem statements_keep_tables_witness:
  "db_ok (snd (db_exec (\<lambda>n. n = 1) (\<lambda>d. Some (delete_older MacTable 5 d)) empty_db))"
  using statements_keep_tables [of empty_db "\<lambda>d. Some (delete_older MacTable 5 d)" "[]" "[]"
      undefined undefined MacTable 5 "\<lambda>n. n = 1"]
  by simp

end
