(* ===== verification/Consumer.thy ===== *)
theory Consumer imports Tables begin

text \<open>
  \<open>consumer/main.go\<close>: the batching loops of \<open>consumeMACBatch\<close> and \<open>consumeARPBatch\<close>, the row
  handlers \<open>handleInterface\<close> and \<open>handleVlan\<close>, \<open>ConsumeClaim\<close> and the retention loop. A Kafka
  message carries its offset and its value (\<open>None\<close> when the bytes are not JSON). The session is the
  list of offsets given to \<open>MarkMessage\<close>; \<open>resume_offset\<close> is what the group commits for them, one
  past the highest (sarama never moves a mark back).
\<close>

record cmsg =
  cmOffset :: nat
  cmTopic :: string
  cmValue :: "json option"

definition resume_offset :: "nat list \<Rightarrow> nat" where
  "resume_offset marks = fold (\<lambda>o' acc. max acc (o' + 1)) marks 0"

definition macBatchSize :: nat where "macBatchSize = 500"
definition arpBatchSize :: nat where "arpBatchSize = 500"

subsection \<open>Batches\<close>

text \<open>
  The Go map of a batch is an association list; what a Go \<open>range\<close> over it yields is a permutation
  of it. \<open>lastMsg\<close> is nil or the offset of the last message added.
\<close>

record ('k, 'e) batch_state =
  batch :: "('k \<times> 'e) list"
  lastMsg :: "nat option"
  marks :: "nat list"
  database :: db

definition set_entry :: "'k \<Rightarrow> 'e \<Rightarrow> ('k \<times> 'e) list \<Rightarrow> ('k \<times> 'e) list" where
  "set_entry k e b =
     (if map_of b k = None then b @ [(k, e)]
      else map (\<lambda>ke. if fst ke = k then (k, e) else ke) b)"

text \<open>\<open>if cur, exists := batch[k]; !exists || e.Timestamp.After(cur.Timestamp) { batch[k] = e }\<close>\<close>

definition add_entry ::
    "('e \<Rightarrow> 'k) \<Rightarrow> ('e \<Rightarrow> instant) \<Rightarrow> 'e \<Rightarrow> ('k \<times> 'e) list \<Rightarrow> ('k \<times> 'e) list" where
  "add_entry key ts e b =
     (case map_of b (key e) of
        None \<Rightarrow> set_entry (key e) e b
      | Some cur \<Rightarrow> (if ts e > ts cur then set_entry (key e) e b else b))"

text \<open>
  The closure \<open>flush\<close>: nothing on an empty batch; after a failed \<open>Exec\<close> the batch stays; otherwise
  the last message is marked and the batch emptied. \<open>None\<close> is the panic of \<open>MarkMessage(nil)\<close>.
\<close>

definition flush ::
    "(nat \<Rightarrow> bool) \<Rightarrow> ('e list \<Rightarrow> db \<Rightarrow> db option) \<Rightarrow> ('k, 'e) batch_state \<Rightarrow>
     ('k, 'e) batch_state option" where
  "flush db_fails stmt s =
     (if length (batch s) = 0 then Some s
      else case db_exec db_fails (stmt (map snd (batch s))) (database s) of
             (Some err, d) \<Rightarrow> Some (s\<lparr>database := d\<rparr>)
           | (None, d) \<Rightarrow>
               (case lastMsg s of
                  None \<Rightarrow> None
                | Some m \<Rightarrow>
                    Some (s\<lparr>database := d, marks := marks s @ [m], batch := [], lastMsg := None\<rparr>)))"

text \<open>
  One round of the select loop. \<open>Received m\<close>: a message that unmarshals is added to the batch, which
  is flushed when it reached its size; a message that does not is marked and skipped. \<open>Tick\<close>: the
  timer fired. \<open>Closed\<close>: the channel is closed, the last flush before the return.
\<close>

datatype event = Received cmsg | Tick | Closed

definition on_message ::
    "(nat \<Rightarrow> bool) \<Rightarrow> (json \<Rightarrow> 'e list option) \<Rightarrow> ('e \<Rightarrow> 'k) \<Rightarrow> ('e \<Rightarrow> instant) \<Rightarrow> nat \<Rightarrow>
     ('e list \<Rightarrow> db \<Rightarrow> db option) \<Rightarrow> cmsg \<Rightarrow> ('k, 'e) batch_state \<Rightarrow>
     ('k, 'e) batch_state option" where
  "on_message db_fails unmarshal key ts lim stmt m s =
     (case Option.bind (cmValue m) unmarshal of
        None \<Rightarrow> Some (s\<lparr>marks := marks s @ [cmOffset m]\<rparr>)
      | Some entries \<Rightarrow>
          (let s1 = s\<lparr>batch := fold (add_entry key ts) entries (batch s),
                      lastMsg := Some (cmOffset m)\<rparr>
           in if length (batch s1) \<ge> lim then flush db_fails stmt s1 else Some s1))"

fun consume_batch ::
    "(nat \<Rightarrow> bool) \<Rightarrow> (json \<Rightarrow> 'e list option) \<Rightarrow> ('e \<Rightarrow> 'k) \<Rightarrow> ('e \<Rightarrow> instant) \<Rightarrow> nat \<Rightarrow>
     ('e list \<Rightarrow> db \<Rightarrow> db option) \<Rightarrow> event list \<Rightarrow> ('k, 'e) batch_state \<Rightarrow>
     ('k, 'e) batch_state option" where
  "consume_batch db_fails unmarshal key ts lim stmt [] s = Some s"
| "consume_batch db_fails unmarshal key ts lim stmt (ev # evs) s =
     (case ev of
        Closed \<Rightarrow> flush db_fails stmt s
      | Tick \<Rightarrow>
          Option.bind (flush db_fails stmt s)
            (consume_batch db_fails unmarshal key ts lim stmt evs)
      | Received m \<Rightarrow>
          Option.bind (on_message db_fails unmarshal key ts lim stmt m s)
            (consume_batch db_fails unmarshal key ts lim stmt evs))"

definition start_batch :: "db \<Rightarrow> ('k, 'e) batch_state" where
  "start_batch d = \<lparr>batch = [], lastMsg = None, marks = [], database = d\<rparr>"

definition consumeMACBatch ::
    "(nat \<Rightarrow> bool) \<Rightarrow> event list \<Rightarrow> db \<Rightarrow> (string \<times> string, mac_entry) batch_state option" where
  "consumeMACBatch db_fails evs d =
     consume_batch db_fails (unmarshal_slice unmarshal_mac) mac_entry_key mTimestamp macBatchSize
       mac_upsert evs (start_batch d)"

definition consumeARPBatch ::
    "(nat \<Rightarrow> bool) \<Rightarrow> event list \<Rightarrow> db \<Rightarrow> (string \<times> string, arp_entry) batch_state option" where
  "consumeARPBatch db_fails evs d =
     consume_batch db_fails (unmarshal_slice unmarshal_arp) arp_entry_key aTimestamp arpBatchSize
       arp_upsert evs (start_batch d)"

subsection \<open>Row handlers and \<open>ConsumeClaim\<close>\<close>

definition handleInterface ::
    "(nat \<Rightarrow> bool) \<Rightarrow> json option \<Rightarrow> db \<Rightarrow> go_error option \<times> db" where
  "handleInterface db_fails b d =
     (case Option.bind b unmarshal_if of
        None \<Rightarrow> (Some UnmarshalError, d)
      | Some e \<Rightarrow> db_exec db_fails (if_upsert e) d)"

definition handleVlan ::
    "(nat \<Rightarrow> bool) \<Rightarrow> json option \<Rightarrow> db \<Rightarrow> go_error option \<times> db" where
  "handleVlan db_fails b d =
     (case Option.bind b unmarshal_vlan of
        None \<Rightarrow> (Some UnmarshalError, d)
      | Some e \<Rightarrow> db_exec db_fails (vlan_upsert e) d)"

definition handle_row ::
    "(nat \<Rightarrow> bool) \<Rightarrow> cmsg \<Rightarrow> db \<Rightarrow> go_error option \<times> db" where
  "handle_row db_fails m d =
     (if cmTopic m = ''interface-table'' then handleInterface db_fails (cmValue m) d
      else if cmTopic m = ''vlan-table'' then handleVlan db_fails (cmValue m) d
      else (None, d))"

text \<open>The loop over \<open>claim.Messages()\<close>: a message is marked when its handler returned nil.\<close>

fun consume_rows ::
    "(nat \<Rightarrow> bool) \<Rightarrow> cmsg list \<Rightarrow> nat list \<times> db \<Rightarrow> nat list \<times> db" where
  "consume_rows db_fails [] s = s"
| "consume_rows db_fails (m # ms) (mk, d) =
     (case handle_row db_fails m d of
        (Some err, d') \<Rightarrow> consume_rows db_fails ms (mk, d')
      | (None, d') \<Rightarrow> consume_rows db_fails ms (mk @ [cmOffset m], d'))"

text \<open>
  \<open>ConsumeClaim\<close> on a claim of one topic, its events being messages, ticks of the batch timer (the
  row topics have none) and the closing of the channel. The result is the session's marks and the
  database; \<open>None\<close> is a panic.
\<close>

definition ConsumeClaim ::
    "(nat \<Rightarrow> bool) \<Rightarrow> string \<Rightarrow> event list \<Rightarrow> db \<Rightarrow> (nat list \<times> db) option" where
  "ConsumeClaim db_fails topic evs d =
     (if topic = ''mac-table'' then
        map_option (\<lambda>s. (marks s, database s)) (consumeMACBatch db_fails evs d)
      else if topic = ''arp-table'' then
        map_option (\<lambda>s. (marks s, database s)) (consumeARPBatch db_fails evs d)
      else
        Some (consume_rows db_fails
          (List.map_filter (\<lambda>ev. case ev of Received m \<Rightarrow> Some m | _ \<Rightarrow> None)
             (takeWhile (\<lambda>ev. ev \<noteq> Closed) evs))
          ([], d)))"

subsection \<open>Retention\<close>

text \<open>
  One tick of \<open>startCleanup\<close>: the tables in the order the range over \<open>ttls\<close> yields, each with its
  TTL in milliseconds and the clock read for it.
\<close>

fun cleanup_tick ::
    "(nat \<Rightarrow> bool) \<Rightarrow> (tbl \<times> int \<times> instant) list \<Rightarrow> db \<Rightarrow> db" where
  "cleanup_tick db_fails [] d = d"
| "cleanup_tick db_fails ((tb, ttl, now) # ts) d =
     cleanup_tick db_fails ts
       (snd (db_exec db_fails (\<lambda>d. Some (delete_older tb (now - ttl) d)) d))"

subsection \<open>Deduplication\<close>

text \<open>A batch well keyed: one entry per key, stored under its own key.\<close>

definition keyed :: "('e \<Rightarrow> 'k) \<Rightarrow> ('k \<times> 'e) list \<Rightarrow> bool" where
  "keyed key b \<longleftrightarrow> distinct (map fst b) \<and> (\<forall>ke \<in> set b. key (snd ke) = fst ke)"

lemma keyed_Nil [simp]: "keyed key []"
  by (simp add: keyed_def)

lemma map_fst_set_entry:
  "map fst (set_entry k e b) = (if map_of b k = None then map fst b @ [k] else map fst b)"
  by (auto simp: set_entry_def)

lemma map_of_set_entry: "map_of (set_entry k e b) = (map_of b)(k \<mapsto> e)"
proof
  fix j
  have "map_of (map (\<lambda>ke. if fst ke = k then (k, e) else ke) b) j =
          (if j = k \<and> map_of b k \<noteq> None then Some e else map_of b j)" for b :: "('a \<times> 'b) list"
    by (induction b) auto
  then show "map_of (set_entry k e b) j = ((map_of b)(k \<mapsto> e)) j"
    by (auto simp: set_entry_def map_add_def split: option.split)
qed

lemma keyed_set_entry:
  assumes "keyed key b" and "key e = k"
  shows "keyed key (set_entry k e b)"
proof -
  have "distinct (map fst (set_entry k e b))"
    using assms(1) by (simp add: map_fst_set_entry keyed_def map_of_eq_None_iff)
  moreover have "\<forall>ke \<in> set (set_entry k e b). key (snd ke) = fst ke"
    using assms by (auto simp: set_entry_def keyed_def split: if_splits)
  ultimately show ?thesis by (simp add: keyed_def)
qed

lemma keyed_add_entry: "keyed key b \<Longrightarrow> keyed key (add_entry key ts e b)"
  by (simp add: add_entry_def keyed_set_entry split: option.split)

lemma keyed_add_entries: "keyed key b \<Longrightarrow> keyed key (fold (add_entry key ts) es b)"
  by (induction es arbitrary: b) (simp_all add: keyed_add_entry)

text \<open>The entry kept for a key: the first of those with the latest time.\<close>

definition newer :: "('e \<Rightarrow> instant) \<Rightarrow> 'e \<Rightarrow> 'e option \<Rightarrow> 'e option" where
  "newer ts e cur = (case cur of None \<Rightarrow> Some e | Some c \<Rightarrow> Some (if ts e > ts c then e else c))"

lemma map_of_add_entry:
  "map_of (add_entry key ts e b) k =
     (if k = key e then newer ts e (map_of b k) else map_of b k)"
  by (auto simp: add_entry_def newer_def map_of_set_entry split: option.split)

lemma map_of_add_entries:
  "map_of (fold (add_entry key ts) es b) k =
     fold (newer ts) (filter (\<lambda>e. key e = k) es) (map_of b k)"
  by (induction es arbitrary: b) (simp_all add: map_of_add_entry)

lemma newer_fold:
  assumes "fold (newer ts) es cur = Some e"
  shows "(e \<in> set es \<or> cur = Some e) \<and> (\<forall>x \<in> set es \<union> set_option cur. ts x \<le> ts e)"
  using assms
proof (induction es arbitrary: cur)
  case (Cons x es)
  from Cons.IH [of "newer ts x cur"] Cons.prems show ?case
    by (cases cur) (auto simp: newer_def split: if_splits)
qed auto

lemma newer_fold_None: "fold (newer ts) es cur = None \<longleftrightarrow> es = [] \<and> cur = None"
proof (induction es arbitrary: cur)
  case (Cons x es)
  then show ?case by (simp add: newer_def split: option.split)
qed simp

lemma add_entries_newest:
  assumes "map_of (fold (add_entry key ts) es []) k = Some e"
  shows "e \<in> set es \<and> key e = k \<and> (\<forall>x \<in> set es. key x = k \<longrightarrow> ts x \<le> ts e)"
  using newer_fold [of ts "filter (\<lambda>e. key e = k) es" None e] assms
  by (auto simp: map_of_add_entries)

lemma add_entries_dom:
  "map_of (fold (add_entry key ts) es []) k = None \<longleftrightarrow> (\<forall>x \<in> set es. key x \<noteq> k)"
  by (auto simp: map_of_add_entries newer_fold_None filter_empty_conv)

lemma keyed_entries: "keyed key b \<Longrightarrow> map key (map snd b) = map fst b"
  by (simp add: keyed_def)

subsection \<open>Resuming after a restart\<close>

lemma resume_offset_snoc: "resume_offset (mk @ [o']) = max (resume_offset mk) (o' + 1)"
  by (simp add: resume_offset_def)

lemma resume_offset_Nil [simp]: "resume_offset [] = 0"
  by (simp add: resume_offset_def)

lemma resume_offset_le: "(\<And>x. x \<in> set mk \<Longrightarrow> x < n) \<Longrightarrow> resume_offset mk \<le> n"
  by (induction mk rule: rev_induct) (auto simp: resume_offset_snoc Suc_le_eq)

lemma resume_offset_ge: "x \<in> set mk \<Longrightarrow> x < resume_offset mk"
  by (induction mk rule: rev_induct) (auto simp: resume_offset_snoc less_max_iff_disj)

end
