(* ===== verification/Batches.thy ===== *)
theory Batches imports Consumer begin

text \<open>
  What the batching loops guarantee. The locale \<open>batch_consumer\<close> states what the loop needs of the
  statement it flushes with; its lemmas hold for both tables and are proved once. The history of a
  loop is split in two: \<open>h1\<close>, the messages whose batch was written, and \<open>h2\<close>, those still pending.
\<close>

subsection \<open>Histories\<close>

text \<open>The messages the loop takes and decodes, with their entries, and those it cannot decode.\<close>

fun received :: "(json \<Rightarrow> 'e list option) \<Rightarrow> event list \<Rightarrow> (nat \<times> 'e list) list" where
  "received unmarshal [] = []"
| "received unmarshal (Closed # evs) = []"
| "received unmarshal (Tick # evs) = received unmarshal evs"
| "received unmarshal (Received m # evs) =
     (case Option.bind (cmValue m) unmarshal of
        None \<Rightarrow> received unmarshal evs
      | Some es \<Rightarrow> (cmOffset m, es) # received unmarshal evs)"

fun skipped :: "(json \<Rightarrow> 'e list option) \<Rightarrow> event list \<Rightarrow> nat list" where
  "skipped unmarshal [] = []"
| "skipped unmarshal (Closed # evs) = []"
| "skipped unmarshal (Tick # evs) = skipped unmarshal evs"
| "skipped unmarshal (Received m # evs) =
     (case Option.bind (cmValue m) unmarshal of
        None \<Rightarrow> cmOffset m # skipped unmarshal evs
      | Some es \<Rightarrow> skipped unmarshal evs)"

abbreviation entries_of :: "(nat \<times> 'e list) list \<Rightarrow> 'e list" where
  "entries_of h \<equiv> concat (map snd h)"

subsection \<open>The loop over a statement with distinct keys\<close>

locale batch_consumer =
  fixes key :: "'e \<Rightarrow> 'k"
    and ts :: "'e \<Rightarrow> instant"
    and stmt :: "'e list \<Rightarrow> db \<Rightarrow> db option"
    and look :: "db \<Rightarrow> 'k \<Rightarrow> 'r option"
    and row_of :: "'e \<Rightarrow> 'r"
    and others :: "db \<Rightarrow> 'o"
  assumes accepts: "distinct (map key es) \<Longrightarrow> stmt es d \<noteq> None"
    and stmt_ok: "db_ok d \<Longrightarrow> stmt es d = Some d' \<Longrightarrow> db_ok d'"
    and stmt_execs: "stmt es d = Some d' \<Longrightarrow> execs d' = execs d"
    and stmt_others: "stmt es d = Some d' \<Longrightarrow> others d' = others d"
    and stmt_look: "db_ok d \<Longrightarrow> stmt es d = Some d' \<Longrightarrow>
      look d' k = (case find (\<lambda>e. key e = k) es of None \<Rightarrow> look d k | Some e \<Rightarrow> Some (row_of e))"
    and look_execs: "look (d\<lparr>execs := n\<rparr>) k = look d k"
    and others_execs: "others (d\<lparr>execs := n\<rparr>) = others d"
begin

definition inv where
  "inv h1 h2 bad s \<longleftrightarrow>
     batch s = fold (add_entry key ts) (entries_of h2) [] \<and>
     lastMsg s = (if h2 = [] then None else Some (fst (last h2))) \<and>
     set (marks s) \<subseteq> fst ` set h1 \<union> bad \<and> db_ok (database s) \<and>
     (\<forall>e \<in> set (entries_of h1). \<exists>e' \<in> set (entries_of h1).
        key e' = key e \<and> look (database s) (key e) = Some (row_of e'))"

lemma inv_keyed: "inv h1 h2 bad s \<Longrightarrow> keyed key (batch s)"
  by (simp add: inv_def keyed_add_entries)

text \<open>A batch satisfies the statement: it can only fail because the connection does.\<close>

lemma flush_cases:
  assumes "inv h1 h2 bad s" and "batch s \<noteq> []"
  obtains (failed) "db_fails (execs (database s))"
      "flush db_fails stmt s = Some (s\<lparr>database := (database s)\<lparr>execs := execs (database s) + 1\<rparr>\<rparr>)"
    | (written) d where "\<not> db_fails (execs (database s))"
      "stmt (map snd (batch s)) ((database s)\<lparr>execs := execs (database s) + 1\<rparr>) = Some d"
      "flush db_fails stmt s =
         Some (s\<lparr>database := d, marks := marks s @ [fst (last h2)], batch := [], lastMsg := None\<rparr>)"
proof (cases "db_fails (execs (database s))")
  case True
  with assms(2) failed show ?thesis by (simp add: flush_def db_exec_def Let_def)
next
  case False
  have "h2 \<noteq> []" using assms by (auto simp: inv_def)
  then have last: "lastMsg s = Some (fst (last h2))" using assms(1) by (simp add: inv_def)
  have "distinct (map key (map snd (batch s)))"
    using inv_keyed [OF assms(1)] by (metis keyed_def keyed_entries)
  with accepts obtain d where
    "stmt (map snd (batch s)) ((database s)\<lparr>execs := execs (database s) + 1\<rparr>) = Some d"
    by blast
  with False last assms(2) written show ?thesis
    by (simp add: flush_def db_exec_def Let_def)
qed

lemma stmt_batch_look:
  assumes "db_ok d" and "keyed key b" and "stmt (map snd b) d = Some d'"
  shows "look d' k = (case map_of b k of None \<Rightarrow> look d k | Some e \<Rightarrow> Some (row_of e))"
proof -
  have "find (\<lambda>e. key e = k) (map snd b) = map_of b k"
    using assms(2) unfolding keyed_def by (induction b) auto
  with stmt_look [OF assms(1,3)] show ?thesis by simp
qed

lemma flush_inv:
  assumes "inv h1 h2 bad s"
  obtains s' where "flush db_fails stmt s = Some s'"
    "inv h1 h2 bad s' \<and> length (batch s') = length (batch s) \<or> inv (h1 @ h2) [] bad s'"
    "others (database s') = others (database s)"
    "(\<forall>n. \<not> db_fails n) \<longrightarrow> batch s' = []"
proof (cases "batch s = []")
  case True
  with assms that show ?thesis by (simp add: flush_def)
next
  case False
  from assms False show ?thesis
  proof (cases rule: flush_cases [where db_fails = db_fails])
    case failed
    let ?s' = "s\<lparr>database := (database s)\<lparr>execs := execs (database s) + 1\<rparr>\<rparr>"
    have "inv h1 h2 bad ?s'" using assms by (simp add: inv_def look_execs)
    with failed that [of ?s'] show ?thesis by (auto simp: others_execs)
  next
    case (written d)
    let ?s' = "s\<lparr>database := d, marks := marks s @ [fst (last h2)], batch := [], lastMsg := None\<rparr>"
    have ok: "db_ok d" using stmt_ok [OF _ written(2)] assms by (simp add: inv_def)
    have h2: "h2 \<noteq> []" using assms False by (auto simp: inv_def)
    have look: "look d k = (case map_of (batch s) k of
        None \<Rightarrow> look (database s) k | Some e \<Rightarrow> Some (row_of e))" for k
      using stmt_batch_look [OF _ inv_keyed [OF assms] written(2), of k] assms
      unfolding look_execs by (simp add: inv_def)
    have rows: "\<exists>e' \<in> set (entries_of (h1 @ h2)).
        key e' = key e \<and> look d (key e) = Some (row_of e')"
      if e: "e \<in> set (entries_of (h1 @ h2))" for e
    proof (cases "map_of (batch s) (key e)")
      case None
      then have "\<forall>x \<in> set (entries_of h2). key x \<noteq> key e"
        using add_entries_dom [of key ts "entries_of h2" "key e"] assms unfolding inv_def by metis
      with e have "e \<in> set (entries_of h1)" by auto
      then obtain e' where "e' \<in> set (entries_of h1)" "key e' = key e"
          "look (database s) (key e) = Some (row_of e')"
        using assms unfolding inv_def by blast
      with None look [of "key e"] show ?thesis by auto
    next
      case (Some e')
      then have "map_of (fold (add_entry key ts) (entries_of h2) []) (key e) = Some e'"
        using assms by (simp add: inv_def)
      from add_entries_newest [OF this] Some look [of "key e"] show ?thesis by auto
    qed
    have "set (marks ?s') \<subseteq> fst ` set (h1 @ h2) \<union> bad"
      using assms last_in_set [OF h2] by (auto simp: inv_def)
    with ok rows have "inv (h1 @ h2) [] bad ?s'" unfolding inv_def by simp
    moreover have "others d = others (database s)"
      using stmt_others [OF written(2)] by (simp add: others_execs)
    ultimately show ?thesis using written(3) that [of ?s'] by simp
  qed
qed

lemma inv_received:
  "inv h1 h2 bad s \<Longrightarrow>
     inv h1 (h2 @ [(n, es)]) bad (s\<lparr>batch := fold (add_entry key ts) es (batch s), lastMsg := Some n\<rparr>)"
  by (simp add: inv_def)

lemma inv_skipped:
  "inv h1 h2 bad s \<Longrightarrow> inv h1 h2 (insert n bad) (s\<lparr>marks := marks s @ [n]\<rparr>)"
  by (auto simp: inv_def)

lemma inv_mono: "inv h1 h2 bad s \<Longrightarrow> bad \<subseteq> bad' \<Longrightarrow> inv h1 h2 bad' s"
  by (auto simp: inv_def)

lemma on_message_inv:
  assumes "inv h1 h2 bad s"
  obtains s' k1 k2 where "on_message db_fails unmarshal key ts lim stmt m s = Some s'"
    "h1 @ h2 @ received unmarshal [Received m] = k1 @ k2"
    "inv k1 k2 (bad \<union> set (skipped unmarshal [Received m])) s'"
    "others (database s') = others (database s)"
    "(\<forall>n. \<not> db_fails n) \<longrightarrow> 0 < lim \<longrightarrow> length (batch s) < lim \<longrightarrow> length (batch s') < lim"
proof (cases "Option.bind (cmValue m) unmarshal")
  case None
  with inv_skipped [OF assms, of "cmOffset m"]
    that [of "s\<lparr>marks := marks s @ [cmOffset m]\<rparr>" h1 h2] show ?thesis
    by (simp add: on_message_def)
next
  case (Some es)
  let ?s1 = "s\<lparr>batch := fold (add_entry key ts) es (batch s), lastMsg := Some (cmOffset m)\<rparr>"
  let ?h2 = "h2 @ [(cmOffset m, es)]"
  have inv1: "inv h1 ?h2 bad ?s1" by (rule inv_received) (rule assms)
  show ?thesis
  proof (cases "length (batch ?s1) \<ge> lim")
    case True
    from flush_inv [OF inv1, of db_fails] obtain s' where s': "flush db_fails stmt ?s1 = Some s'"
      "inv h1 ?h2 bad s' \<or> inv (h1 @ ?h2) [] bad s'" "others (database s') = others (database ?s1)"
      "(\<forall>n. \<not> db_fails n) \<longrightarrow> batch s' = []"
      by metis
    have step: "on_message db_fails unmarshal key ts lim stmt m s = Some s'"
      using True s'(1) Some by (simp add: on_message_def Let_def)
    from s'(2) obtain k1 k2 where "h1 @ ?h2 = k1 @ k2" "inv k1 k2 bad s'"
      by (metis append_Nil2)
    with step s'(3,4) Some that [of s' k1 k2] show ?thesis by simp
  next
    case False
    then have step: "on_message db_fails unmarshal key ts lim stmt m s = Some ?s1"
      using Some by (simp add: on_message_def Let_def)
    with inv1 Some False that [of ?s1 h1 ?h2] show ?thesis by simp
  qed
qed

lemma consume_inv:
  assumes "inv h1 h2 bad s"
  shows "\<exists>s' k1 k2. consume_batch db_fails unmarshal key ts lim stmt evs s = Some s' \<and>
     h1 @ h2 @ received unmarshal evs = k1 @ k2 \<and>
     inv k1 k2 (bad \<union> set (skipped unmarshal evs)) s' \<and>
     others (database s') = others (database s) \<and>
     ((\<forall>n. \<not> db_fails n) \<longrightarrow> 0 < lim \<longrightarrow> length (batch s) < lim \<longrightarrow> length (batch s') < lim)"
  using assms
proof (induction evs arbitrary: h1 h2 bad s)
  case Nil
  then show ?case by auto
next
  case (Cons ev evs)
  from flush_inv [OF Cons.prems, of db_fails] obtain sf where sf: "flush db_fails stmt s = Some sf"
    "inv h1 h2 bad sf \<or> inv (h1 @ h2) [] bad sf" "others (database sf) = others (database s)"
    "(\<forall>n. \<not> db_fails n) \<longrightarrow> batch sf = []"
    by metis
  from sf(2) obtain f1 f2 where f: "h1 @ h2 = f1 @ f2" "inv f1 f2 bad sf"
    by (metis append_Nil2)
  show ?case
  proof (cases ev)
    case Closed
    with sf f show ?thesis by auto
  next
    case Tick
    have "h1 @ h2 @ received unmarshal evs = f1 @ f2 @ received unmarshal evs"
      using f(1) by (metis append_assoc)
    with Cons.IH [OF f(2)] sf Tick show ?thesis by force
  next
    case (Received m)
    from on_message_inv [OF Cons.prems, of db_fails unmarshal lim m] obtain s1 k1 k2 where
      s1: "on_message db_fails unmarshal key ts lim stmt m s = Some s1"
        "h1 @ h2 @ received unmarshal [Received m] = k1 @ k2"
        "inv k1 k2 (bad \<union> set (skipped unmarshal [Received m])) s1"
        "others (database s1) = others (database s)"
        "(\<forall>n. \<not> db_fails n) \<longrightarrow> 0 < lim \<longrightarrow> length (batch s) < lim \<longrightarrow> length (batch s1) < lim"
      by metis
    have hist: "received unmarshal (Received m # evs) =
        received unmarshal [Received m] @ received unmarshal evs"
      "set (skipped unmarshal (Received m # evs)) =
        set (skipped unmarshal [Received m]) \<union> set (skipped unmarshal evs)"
      by (auto split: option.split)
    have "h1 @ h2 @ received unmarshal (Received m # evs) = k1 @ k2 @ received unmarshal evs"
      using s1(2) hist(1) by (metis append_assoc)
    with Cons.IH [OF s1(3)] s1(1,4,5) Received hist(2) show ?thesis
      by (force simp: Un_assoc)
  qed
qed

lemma inv_start: "db_ok d \<Longrightarrow> inv [] [] {} (start_batch d)"
  by (simp add: inv_def start_batch_def)

lemma run:
  assumes "db_ok d"
  obtains s h1 h2 where
    "consume_batch db_fails unmarshal key ts lim stmt evs (start_batch d) = Some s"
    "received unmarshal evs = h1 @ h2" "inv h1 h2 (set (skipped unmarshal evs)) s"
    "others (database s) = others d"
    "(\<forall>n. \<not> db_fails n) \<longrightarrow> 0 < lim \<longrightarrow> length (batch s) < lim"
  using consume_inv [OF inv_start [OF assms], of db_fails unmarshal lim evs]
  by (auto simp: start_batch_def)

lemma run_total:
  "db_ok d \<Longrightarrow> \<exists>s. consume_batch db_fails unmarshal key ts lim stmt evs (start_batch d) = Some s \<and>
     keyed key (batch s) \<and> db_ok (database s) \<and> others (database s) = others d \<and>
     ((\<forall>n. \<not> db_fails n) \<longrightarrow> 0 < lim \<longrightarrow> length (batch s) < lim)"
  by (erule run [of d db_fails unmarshal lim evs]) (auto simp: inv_def keyed_add_entries)

text \<open>
  Without messages that fail to decode: what lies below the offset the group would resume at has
  been written.
\<close>

lemma resume_covered:
  assumes "db_ok d" and "skipped unmarshal evs = []"
    and "sorted_wrt (<) (map fst (received unmarshal evs))"
    and ran: "consume_batch db_fails unmarshal key ts lim stmt evs (start_batch d) = Some s"
    and "(n, es) \<in> set (received unmarshal evs)" and "n < resume_offset (marks s)" and "e \<in> set es"
  shows "\<exists>e' \<in> set (entries_of (received unmarshal evs)).
     key e' = key e \<and> look (database s) (key e) = Some (row_of e')"
proof -
  obtain h1 h2 where h: "received unmarshal evs = h1 @ h2" "inv h1 h2 {} s"
    using run [OF assms(1), of db_fails unmarshal lim evs thesis] assms(2) ran by simp
  have "(n, es) \<in> set h1"
  proof (rule ccontr)
    assume "(n, es) \<notin> set h1"
    with assms(5) h(1) have "(n, es) \<in> set h2" by simp
    then have "x < n" if "x \<in> fst ` set h1" for x
      using that assms(3) h(1) by (fastforce simp: sorted_wrt_append)
    moreover have "set (marks s) \<subseteq> fst ` set h1" using h(2) by (simp add: inv_def)
    ultimately have "resume_offset (marks s) \<le> n" by (intro resume_offset_le) blast
    with assms(6) show False by simp
  qed
  with assms(7) have "e \<in> set (entries_of h1)" by force
  then obtain e' where "e' \<in> set (entries_of h1)" "key e' = key e"
      "look (database s) (key e) = Some (row_of e')"
    using h(2) unfolding inv_def by blast
  with h(1) show ?thesis by auto
qed

text \<open>A close of the channel that meets a working database leaves nothing behind.\<close>

lemma inv_empty:
  assumes "inv h1 h2 bad s" and "batch s = []" and "e \<in> set (entries_of (h1 @ h2))"
  shows "\<exists>e' \<in> set (entries_of (h1 @ h2)). key e' = key e \<and>
     look (database s) (key e) = Some (row_of e')"
proof -
  have "x \<notin> set (entries_of h2)" for x
    using add_entries_dom [of key ts "entries_of h2" "key x"] assms(1,2) by (auto simp: inv_def)
  with assms(3) have "e \<in> set (entries_of h1)" by auto
  with assms(1) show ?thesis unfolding inv_def by fastforce
qed

text \<open>One message and the close: each of its keys gets its newest entry.\<close>

lemma flush_look:
  assumes "inv h1 h2 bad s" and "\<forall>n. \<not> db_fails n"
  shows "\<exists>s'. flush db_fails stmt s = Some s' \<and> batch s' = [] \<and>
     look (database s') k = (case map_of (batch s) k of
        None \<Rightarrow> look (database s) k | Some e \<Rightarrow> Some (row_of e))"
proof (cases "batch s = []")
  case False
  from assms(1) False show ?thesis
  proof (cases rule: flush_cases [where db_fails = db_fails])
    case (written d)
    have "db_ok (database s)" using assms(1) by (simp add: inv_def)
    with stmt_batch_look [OF _ inv_keyed [OF assms(1)] written(2), of k] written(3)
    show ?thesis unfolding look_execs by simp
  qed (use assms(2) in simp)
qed (simp add: flush_def)

lemma single_message:
  assumes "\<forall>n. \<not> db_fails n" and "db_ok d" and "Option.bind (cmValue m) unmarshal = Some es"
  shows "\<exists>s. consume_batch db_fails unmarshal key ts lim stmt [Received m, Closed] (start_batch d) = Some s \<and>
     batch s = [] \<and> look (database s) k =
       (case map_of (fold (add_entry key ts) es []) k of
          None \<Rightarrow> look d k | Some e \<Rightarrow> Some (row_of e))"
proof -
  let ?s1 = "\<lparr>batch = fold (add_entry key ts) es [], lastMsg = Some (cmOffset m), marks = [],
    database = d\<rparr>"
  have inv1: "inv [] [(cmOffset m, es)] {} ?s1"
    using assms(2) by (simp add: inv_def)
  from flush_look [OF inv1 assms(1), of k] obtain s where s: "flush db_fails stmt ?s1 = Some s"
    "batch s = []" "look (database s) k = (case map_of (fold (add_entry key ts) es []) k of
        None \<Rightarrow> look d k | Some e \<Rightarrow> Some (row_of e))" unfolding batch_state.select_convs by blast
  moreover have "flush db_fails stmt s = Some s" using s(2) by (simp add: flush_def)
  ultimately show ?thesis
    using assms(3) by (simp add: on_message_def Let_def start_batch_def)
qed

lemma consume_append:
  "Closed \<notin> set evs \<Longrightarrow>
     consume_batch db_fails unmarshal key ts lim stmt (evs @ evs') s =
     Option.bind (consume_batch db_fails unmarshal key ts lim stmt evs s)
       (consume_batch db_fails unmarshal key ts lim stmt evs')"
  by (induction evs arbitrary: s) (auto split: event.split intro!: Option.bind_cong)

lemma received_append:
  "Closed \<notin> set evs \<Longrightarrow> received unmarshal (evs @ evs') = received unmarshal evs @ received unmarshal evs'"
  by (induction unmarshal evs rule: received.induct) (auto split: option.split)

lemma closed_complete:
  assumes "db_ok d" and "Closed \<notin> set evs" and "\<forall>n. \<not> db_fails n"
    and "e \<in> set (entries_of (received unmarshal evs))"
  shows "\<exists>s. consume_batch db_fails unmarshal key ts lim stmt (evs @ [Closed]) (start_batch d) = Some s \<and>
     batch s = [] \<and>
     (\<exists>e' \<in> set (entries_of (received unmarshal evs)). key e' = key e \<and>
        look (database s) (key e) = Some (row_of e'))"
proof -
  obtain s h1 h2 where s: "consume_batch db_fails unmarshal key ts lim stmt evs (start_batch d) = Some s"
    "received unmarshal evs = h1 @ h2" "inv h1 h2 (set (skipped unmarshal evs)) s"
    by (rule run [OF assms(1)])
  obtain s' where s': "flush db_fails stmt s = Some s'" "batch s' = []"
    "inv h1 h2 (set (skipped unmarshal evs)) s' \<or> inv (h1 @ h2) [] (set (skipped unmarshal evs)) s'"
    using flush_inv [OF s(3), of db_fails] assms(3) by metis
  from s'(3) obtain k1 k2 where "h1 @ h2 = k1 @ k2" "inv k1 k2 (set (skipped unmarshal evs)) s'"
    by (metis append_Nil2)
  with inv_empty [OF _ s'(2)] assms(4) s(2)
  have "\<exists>e' \<in> set (entries_of (received unmarshal evs)). key e' = key e \<and>
      look (database s') (key e) = Some (row_of e')"
    by metis
  moreover have "consume_batch db_fails unmarshal key ts lim stmt (evs @ [Closed]) (start_batch d) = Some s'"
    using s(1) s'(1) assms(2) by (simp add: consume_append)
  ultimately show ?thesis using s'(2) by blast
qed

end

subsection \<open>The two tables\<close>

interpretation mac_batches: batch_consumer mac_entry_key mTimestamp mac_upsert
  "\<lambda>d. get mac_key (macT d)" mac_row_of "\<lambda>d. (arpT d, ifT d, vlanT d)"
  by unfold_locales
    (auto simp: mac_upsert_def mac_upsert_ok db_ok_def macs.look_puts_distinct macs.invar_puts split: if_splits option.splits)

interpretation arp_batches: batch_consumer arp_entry_key aTimestamp arp_upsert
  "\<lambda>d. get arp_key (arpT d)" arp_row_of "\<lambda>d. (macT d, ifT d, vlanT d)"
  by unfold_locales
    (auto simp: arp_upsert_def arp_upsert_ok db_ok_def arps.look_puts_distinct arps.invar_puts split: if_splits option.splits)

subsection \<open>Rows handled one at a time\<close>

text \<open>The statement a row message leads to, or none when it is refused.\<close>

definition if_of_msg :: "cmsg \<Rightarrow> if_entry_in option" where
  "if_of_msg m =
     (case (if cmTopic m = ''interface-table'' then Option.bind (cmValue m) unmarshal_if else None) of
        None \<Rightarrow> None
      | Some e \<Rightarrow> if if_args_ok e then Some e else None)"

definition vlan_of_msg :: "cmsg \<Rightarrow> vlan_entry option" where
  "vlan_of_msg m =
     (case (if cmTopic m = ''vlan-table'' then Option.bind (cmValue m) unmarshal_vlan else None) of
        None \<Rightarrow> None
      | Some e \<Rightarrow> if fits_integer (uint (vVlanID e)) then Some e else None)"

definition row_accepted :: "cmsg \<Rightarrow> bool" where
  "row_accepted m \<longleftrightarrow>
     (cmTopic m = ''interface-table'' \<longrightarrow> if_of_msg m \<noteq> None) \<and>
     (cmTopic m = ''vlan-table'' \<longrightarrow> vlan_of_msg m \<noteq> None)"

lemma handle_row_no_faults:
  assumes "\<forall>n. \<not> db_fails n" and "handle_row db_fails m d = (err, d')"
  shows "(err = None \<longleftrightarrow> row_accepted m) \<and>
    ifT d' = (case if_of_msg m of None \<Rightarrow> ifT d | Some e \<Rightarrow> if_put e (ifT d)) \<and>
    vlanT d' = (case vlan_of_msg m of None \<Rightarrow> vlanT d | Some e \<Rightarrow> vlan_put e (vlanT d)) \<and>
    macT d' = macT d \<and> arpT d' = arpT d"
  using assms
  by (auto simp: handle_row_def handleInterface_def handleVlan_def if_of_msg_def vlan_of_msg_def
      row_accepted_def db_exec_def Let_def if_upsert_def vlan_upsert_def split: option.splits if_splits)

lemma consume_rows_no_faults:
  assumes "\<forall>n. \<not> db_fails n" and "consume_rows db_fails ms (mk, d) = (mk', d')"
  shows "mk' = mk @ map cmOffset (filter row_accepted ms) \<and>
    ifT d' = fold if_put (List.map_filter if_of_msg ms) (ifT d) \<and>
    vlanT d' = fold vlan_put (List.map_filter vlan_of_msg ms) (vlanT d) \<and>
    macT d' = macT d \<and> arpT d' = arpT d"
  using assms(2)
proof (induction ms arbitrary: mk d)
  case (Cons m ms)
  obtain err d1 where h: "handle_row db_fails m d = (err, d1)" by fastforce
  from handle_row_no_faults [OF assms(1) h] Cons.IH [of "mk @ [cmOffset m]" d1]
    Cons.IH [of mk d1] Cons.prems h show ?case
    by (cases err) (simp_all add: List.map_filter_simps split: option.splits)
qed (simp add: List.map_filter_simps)

lemma if_exec_ok: "db_ok d \<Longrightarrow> db_ok (snd (db_exec db_fails (if_upsert e) d))"
  by (erule db_exec_ok) (rule if_upsert_ok)

lemma vlan_exec_ok: "db_ok d \<Longrightarrow> db_ok (snd (db_exec db_fails (vlan_upsert e) d))"
  by (erule db_exec_ok) (rule vlan_upsert_ok)

lemma handle_row_ok: "db_ok d \<Longrightarrow> db_ok (snd (handle_row db_fails m d))"
  by (simp add: handle_row_def handleInterface_def handleVlan_def if_exec_ok vlan_exec_ok
      split: option.split)

lemma handle_row_error:
  "handle_row db_fails m d = (Some err, d') \<Longrightarrow> d'\<lparr>execs := execs d\<rparr> = d"
  by (auto simp: handle_row_def handleInterface_def handleVlan_def db_exec_def Let_def
      split: option.splits if_splits)

lemma consume_rows_ok: "db_ok (snd s) \<Longrightarrow> db_ok (snd (consume_rows db_fails ms s))"
proof (induction db_fails ms s rule: consume_rows.induct)
  case (2 db_fails m ms mk d)
  then show ?case
    using handle_row_ok [of d db_fails m] by (auto split: prod.split option.split)
qed simp

lemma consume_rows_append:
  "consume_rows db_fails (ms @ ms') s = consume_rows db_fails ms' (consume_rows db_fails ms s)"
  by (induction db_fails ms s rule: consume_rows.induct) (auto split: prod.split option.split)

subsection \<open>Retention\<close>

definition expired :: "(tbl \<times> int \<times> instant) list \<Rightarrow> tbl \<Rightarrow> instant \<Rightarrow> bool" where
  "expired plan tb at \<longleftrightarrow> (\<exists>(tb', ttl, now) \<in> set plan. tb' = tb \<and> at < now - ttl)"

definition kept :: "('r \<Rightarrow> instant) \<Rightarrow> (instant \<Rightarrow> bool) \<Rightarrow> 'r table \<Rightarrow> 'r table" where
  "kept at gone t = delete_where (\<lambda>r. gone (at r)) t"

lemma cleanup_tick_no_faults:
  assumes "\<forall>n. \<not> db_fails n"
  shows "macT (cleanup_tick db_fails plan d) = kept rmAt (expired plan MacTable) (macT d) \<and>
    arpT (cleanup_tick db_fails plan d) = kept raAt (expired plan ArpTable) (arpT d) \<and>
    ifT (cleanup_tick db_fails plan d) = kept riAt (expired plan InterfaceTable) (ifT d) \<and>
    vlanT (cleanup_tick db_fails plan d) = kept rvAt (expired plan VlanTable) (vlanT d)"
  using assms
proof (induction db_fails plan d rule: cleanup_tick.induct)
  case (2 db_fails tb ttl now ts d)
  show ?case
    using "2.IH" [OF "2.prems"] "2.prems"
    by (cases tb) (simp_all add: db_exec_def Let_def delete_older_def kept_def delete_where_def
        expired_def conj_commute cong: filter_cong)
qed (simp add: kept_def expired_def delete_where_def)

text \<open>A failing connection deletes less, never more.\<close>

lemma cleanup_tick_fresh:
  assumes "ir \<in> set (rows (macT d))" and "\<not> expired plan MacTable (rmAt (snd ir))"
  shows "ir \<in> set (rows (macT (cleanup_tick db_fails plan d)))"
  using assms
proof (induction db_fails plan d rule: cleanup_tick.induct)
  case (2 db_fails tb ttl now ts d)
  have "ir \<in> set (rows (macT (snd (db_exec db_fails (\<lambda>d. Some (delete_older tb (now - ttl) d)) d))))"
    using "2.prems" by (cases tb) (auto simp: db_exec_def Let_def delete_older_def delete_where_def expired_def)
  with "2.IH" "2.prems" show ?case by (simp add: expired_def)
qed simp

lemma cleanup_tick_ok: "db_ok d \<Longrightarrow> db_ok (cleanup_tick db_fails plan d)"
proof (induction db_fails plan d rule: cleanup_tick.induct)
  case (2 db_fails tb ttl now ts d)
  have "db_ok (snd (db_exec db_fails (\<lambda>d. Some (delete_older tb (now - ttl) d)) d))"
    using "2.prems" by (rule db_exec_ok) (auto simp: delete_older_ok)
  with "2.IH" show ?case by simp
qed simp

subsection \<open>Properties\<close>

definition mac_received :: "event list \<Rightarrow> (nat \<times> mac_entry list) list" where
  "mac_received evs = received (unmarshal_slice unmarshal_mac) evs"

definition mac_skipped :: "event list \<Rightarrow> nat list" where
  "mac_skipped evs = skipped (unmarshal_slice unmarshal_mac) evs"

definition arp_received :: "event list \<Rightarrow> (nat \<times> arp_entry list) list" where
  "arp_received evs = received (unmarshal_slice unmarshal_arp) evs"

text \<open>C23. The batching loops are safe on any messages, ticks and database faults: they never mark a nil
  message (which would panic), keep the tables well formed, never write another table than their own,
  hold one entry per key, and while the database works they never hold a full batch between events.\<close>

theorem batch_loops_are_safe:
  assumes "db_ok d"
  shows "\<exists>s s'. consumeMACBatch db_fails evs d = Some s \<and> consumeARPBatch db_fails evs' d = Some s' \<and>
    db_ok (database s) \<and> db_ok (database s') \<and>
    keyed mac_entry_key (batch s) \<and> keyed arp_entry_key (batch s') \<and>
    arpT (database s) = arpT d \<and> macT (database s') = macT d \<and>
    ifT (database s) = ifT d \<and> ifT (database s') = ifT d \<and>
    vlanT (database s) = vlanT d \<and> vlanT (database s') = vlanT d \<and>
    ((\<exists>n. db_fails n) \<or> length (batch s) < 500 \<and> length (batch s') < 500)"
  using mac_batches.run_total [OF assms, of db_fails "unmarshal_slice unmarshal_mac" macBatchSize evs]
    arp_batches.run_total [OF assms, of db_fails "unmarshal_slice unmarshal_arp" arpBatchSize evs']
  by (auto simp: consumeMACBatch_def consumeARPBatch_def macBatchSize_def arpBatchSize_def)

theorem batch_loops_are_safe_witness:
  "\<exists>s. consumeMACBatch (\<lambda>n. n = 0) [Tick, Received \<lparr>cmOffset = 3, cmTopic = ''mac-table'', cmValue = None\<rparr>]
     empty_db = Some s \<and> db_ok (database s)"
  using batch_loops_are_safe [OF db_ok_empty, of "\<lambda>n. n = 0"
    "[Tick, Received \<lparr>cmOffset = 3, cmTopic = ''mac-table'', cmValue = None\<rparr>]" "[]"]
  by blast

text \<open>At least once: on a claim without malformed messages, whatever the timing and the database
  faults, every MAC entry of a message below the offset the group would resume at has been written:
  its key has a row, written from an entry received for that key.\<close>

theorem mac_resume_loses_nothing:
  assumes "db_ok d" and "mac_skipped evs = []" and "sorted_wrt (<) (map fst (mac_received evs))"
    and "consumeMACBatch db_fails evs d = Some s"
    and "(n, es) \<in> set (mac_received evs)" and "n < resume_offset (marks s)" and "e \<in> set es"
  shows "\<exists>e' \<in> set (concat (map snd (mac_received evs))). mac_entry_key e' = mac_entry_key e \<and>
    get mac_key (macT (database s)) (mac_entry_key e) = Some (mac_row_of e')"
  using mac_batches.resume_covered [OF assms(1), of "unmarshal_slice unmarshal_mac" evs db_fails
      macBatchSize s n es e] assms
  by (simp add: mac_received_def mac_skipped_def consumeMACBatch_def)

text \<open>A MAC message of one entry, and one that is not JSON.\<close>

definition one_mac :: mac_entry where
  "one_mac = \<lparr>mTimestamp = 1, mNodeID = ''sw1'', mMacAddress = ''a'', mInterface = ''Gi1'',
     mVlan = 1, mType = []\<rparr>"

definition mac_msg_at :: "nat \<Rightarrow> cmsg" where
  "mac_msg_at n = \<lparr>cmOffset = n, cmTopic = ''mac-table'', cmValue = Some (JArr [mac_json one_mac])\<rparr>"

definition junk_at :: "nat \<Rightarrow> cmsg" where
  "junk_at n = \<lparr>cmOffset = n, cmTopic = ''mac-table'', cmValue = None\<rparr>"

lemma one_mac_batch: "unmarshal_slice unmarshal_mac (JArr [mac_json one_mac]) = Some [one_mac]"
  using unmarshal_macs_json [of "[one_mac]"] by simp

lemma mac_msg_received:
  "mac_received [Received (mac_msg_at n), Tick] = [(n, [one_mac])]"
  "mac_skipped [Received (mac_msg_at n), Tick] = []"
  by (simp_all add: mac_received_def mac_skipped_def mac_msg_at_def one_mac_batch)

lemma mac_msg_marks:
  "\<exists>s. consumeMACBatch (\<lambda>_. False) [Received (mac_msg_at n), Tick] empty_db = Some s \<and> marks s = [n]"
  by (simp add: consumeMACBatch_def on_message_def mac_msg_at_def one_mac_batch start_batch_def
      macBatchSize_def add_entry_def set_entry_def flush_def db_exec_def Let_def mac_upsert_def)

theorem mac_resume_loses_nothing_witness:
  "\<exists>s r. consumeMACBatch (\<lambda>_. False) [Received (mac_msg_at 5), Tick] empty_db = Some s \<and>
     get mac_key (macT (database s)) (''sw1'', ''a'') = Some r"
proof -
  obtain s where s: "consumeMACBatch (\<lambda>_. False) [Received (mac_msg_at 5), Tick] empty_db = Some s"
      "marks s = [5]" using mac_msg_marks by blast
  from mac_resume_loses_nothing [OF db_ok_empty mac_msg_received(2) _ s(1), of 5 "[one_mac]" one_mac]
  have "\<exists>r. get mac_key (macT (database s)) (''sw1'', ''a'') = Some r"
    by (auto simp: mac_msg_received s(2) resume_offset_def one_mac_def)
  with s(1) show ?thesis by blast
qed

text \<open>C33. A malformed message is marked at once, past entries that still wait in the batch: from a state
  in which messages are pending, receiving a message that does not decode at a later offset moves the
  resume offset beyond them while they are neither written nor marked, so that a crash or a rebalance
  before the next flush loses them.\<close>

theorem malformed_message_passes_pending:
  assumes "Option.bind (cmValue m) unmarshal = None" and "length (batch s) \<noteq> 0"
    and "lastMsg s = Some n" and "n < cmOffset m"
  shows "\<exists>s'. on_message db_fails unmarshal key ts lim stmt m s = Some s' \<and>
    batch s' = batch s \<and> database s' = database s \<and> lastMsg s' = Some n \<and>
    n < resume_offset (marks s')"
  using assms by (simp add: on_message_def resume_offset_snoc less_max_iff_disj)

theorem malformed_message_passes_pending_witness:
  "\<exists>s. consumeMACBatch (\<lambda>_. False) [Received (mac_msg_at 7), Received (junk_at 8)] empty_db = Some s \<and>
     resume_offset (marks s) = 9 \<and> macT (database s) = empty_table \<and> batch s \<noteq> []"
  using malformed_message_passes_pending [of "junk_at 8" "unmarshal_slice unmarshal_mac"
      "\<lparr>batch = [((''sw1'', ''a''), one_mac)], lastMsg = Some 7, marks = [], database = empty_db\<rparr>"
      7 "\<lambda>_. False" mac_entry_key mTimestamp 500 mac_upsert]
  by (simp add: consumeMACBatch_def on_message_def mac_msg_at_def junk_at_def one_mac_batch
      start_batch_def macBatchSize_def add_entry_def set_entry_def resume_offset_def empty_db_def)

text \<open>A graceful close loses nothing: when the channel is closed while the database works, the last
  flush leaves no entry behind; every ARP entry received on the claim, in any message and before or
  after malformed ones, has a row written from an entry received for its key.\<close>

theorem arp_close_loses_nothing:
  assumes "db_ok d" and "Closed \<notin> set evs" and "\<forall>n. \<not> db_fails n"
    and "e \<in> set (concat (map snd (arp_received evs)))"
  shows "\<exists>s. consumeARPBatch db_fails (evs @ [Closed]) d = Some s \<and> batch s = [] \<and>
    (\<exists>e' \<in> set (concat (map snd (arp_received evs))). arp_entry_key e' = arp_entry_key e \<and>
       get arp_key (arpT (database s)) (arp_entry_key e) = Some (arp_row_of e'))"
  using arp_batches.closed_complete [OF assms(1-3), of e "unmarshal_slice unmarshal_arp" arpBatchSize] assms(4)
  by (simp add: consumeARPBatch_def arp_received_def)

definition one_arp :: arp_entry where
  "one_arp = \<lparr>aTimestamp = 1, aNodeID = ''sw1'', aIPAddress = ''10.0.0.9'', aMacAddress = ''a'',
     aInterface = ''Vlan10'', aAge = 60\<rparr>"

lemma one_arp_received:
  "arp_received [Received \<lparr>cmOffset = 1, cmTopic = ''arp-table'', cmValue = None\<rparr>,
     Received \<lparr>cmOffset = 2, cmTopic = ''arp-table'', cmValue = Some (JArr [arp_json one_arp])\<rparr>] = [(2, [one_arp])]"
  using unmarshal_arps_json [of "[one_arp]"] by (simp add: arp_received_def)

theorem arp_close_loses_nothing_witness:
  "\<exists>s. consumeARPBatch (\<lambda>_. False)
     ([Received \<lparr>cmOffset = 1, cmTopic = ''arp-table'', cmValue = None\<rparr>,
       Received \<lparr>cmOffset = 2, cmTopic = ''arp-table'', cmValue = Some (JArr [arp_json one_arp])\<rparr>] @ [Closed])
     empty_db = Some s \<and>
     get arp_key (arpT (database s)) (''sw1'', ''10.0.0.9'') = Some (arp_row_of one_arp)"
  using arp_close_loses_nothing [of empty_db
      "[Received \<lparr>cmOffset = 1, cmTopic = ''arp-table'', cmValue = None\<rparr>,
        Received \<lparr>cmOffset = 2, cmTopic = ''arp-table'', cmValue = Some (JArr [arp_json one_arp])\<rparr>]"
      "\<lambda>_. False" one_arp]
  unfolding one_arp_received by (simp, simp add: one_arp_def, blast)

text \<open>The row topics, while the database works: the accepted interface and VLAN messages are written
  one by one in claim order through the guarded upserts, exactly the accepted ones are marked (a
  message of another topic counts as accepted), and the MAC and ARP tables are not touched.\<close>

theorem row_claim_writes_in_order:
  assumes "\<forall>n. \<not> db_fails n" and "consume_rows db_fails ms ([], d) = (mk, d')"
  shows "mk = map cmOffset (filter row_accepted ms) \<and>
    ifT d' = fold if_put (List.map_filter if_of_msg ms) (ifT d) \<and>
    vlanT d' = fold vlan_put (List.map_filter vlan_of_msg ms) (vlanT d) \<and>
    macT d' = macT d \<and> arpT d' = arpT d"
  using consume_rows_no_faults [OF assms] by simp

definition vlan_msg_at :: "nat \<Rightarrow> 32 word \<Rightarrow> cmsg" where
  "vlan_msg_at n v = \<lparr>cmOffset = n, cmTopic = ''vlan-table'', cmValue = Some (vlan_json
     \<lparr>vTimestamp = 1, vNodeID = ''sw1'', vVlanID = v, vName = None, vStatus = []\<rparr>)\<rparr>"

lemma vlan_msg_at_accepted:
  "vlan_of_msg (vlan_msg_at n v) = (if fits_integer (uint v)
     then Some \<lparr>vTimestamp = 1, vNodeID = ''sw1'', vVlanID = v, vName = None, vStatus = []\<rparr> else None)"
  "if_of_msg (vlan_msg_at n v) = None"
  by (simp_all add: vlan_of_msg_def if_of_msg_def vlan_msg_at_def unmarshal_vlan_json)

lemma vlan_msg_at_row:
  "row_accepted (vlan_msg_at n v) = fits_integer (uint v)" "cmOffset (vlan_msg_at n v) = n"
  by (simp_all add: row_accepted_def vlan_msg_at_accepted) (simp_all add: vlan_msg_at_def)

theorem row_claim_writes_in_order_witness:
  "fst (consume_rows (\<lambda>_. False) [vlan_msg_at 0 10, vlan_msg_at 1 3000000000, vlan_msg_at 2 20] ([], empty_db)) =
     [0, 2]"
  using row_claim_writes_in_order [of "\<lambda>_. False" "[vlan_msg_at 0 10, vlan_msg_at 1 3000000000, vlan_msg_at 2 20]"
      empty_db, OF _ prod.collapse [symmetric]]
  by (simp add: vlan_msg_at_row fits_integer_def del: consume_rows.simps)

text \<open>C34. A failed row is not retried: when the handler of one message fails and that of a later message
  on the claim succeeds, the later mark moves the resume offset past the failed message, whose
  statement never took effect.\<close>

theorem failed_row_is_passed:
  assumes "handle_row db_fails m d = (Some err, d1)"
    and "handle_row db_fails m' d1 = (None, d2)" and "cmOffset m < cmOffset m'"
  shows "\<exists>mk. consume_rows db_fails [m, m'] ([], d) = (mk, d2) \<and> cmOffset m < resume_offset mk \<and>
    cmOffset m \<notin> set mk \<and> d1\<lparr>execs := execs d\<rparr> = d"
  using assms handle_row_error [OF assms(1)] by (simp add: resume_offset_def)

theorem failed_row_is_passed_witness:
  "\<exists>mk d'. consume_rows (\<lambda>n. n = 0) [vlan_msg_at 0 10, vlan_msg_at 1 20] ([], empty_db) = (mk, d') \<and>
     resume_offset mk = 2 \<and> get vlan_key (vlanT d') (''sw1'', 10) = None"
proof -
  let ?d1 = "empty_db\<lparr>execs := 1\<rparr>"
  have first: "handle_row (\<lambda>n. n = 0) (vlan_msg_at 0 10) empty_db = (Some DbError, ?d1)"
    by (simp add: handle_row_def handleVlan_def vlan_msg_at_def unmarshal_vlan_json db_exec_def empty_db_def)
  obtain d2 where second: "handle_row (\<lambda>n. n = 0) (vlan_msg_at 1 20) ?d1 = (None, d2)"
      and table: "get vlan_key (vlanT d2) (''sw1'', 10) = None"
    by (simp add: handle_row_def handleVlan_def vlan_msg_at_def unmarshal_vlan_json db_exec_def Let_def
        vlan_upsert_def fits_integer_def vlans.look_put empty_db_def)
  from failed_row_is_passed [OF first second] table first second show ?thesis
    by (simp add: vlan_msg_at_def resume_offset_def)
qed

text \<open>One retention tick, while the database works, deletes from each of the four tables exactly the
  rows older than a TTL its plan gives that table, measured at the time read for it; with a failing
  database a MAC row that is not expired still survives.\<close>

theorem cleanup_deletes_expired:
  assumes "\<forall>n. \<not> db_fails n" and "ir \<in> set (rows (macT d))" and "\<not> expired plan MacTable (rmAt (snd ir))"
  shows "macT (cleanup_tick db_fails plan d) = delete_where (\<lambda>r. expired plan MacTable (rmAt r)) (macT d) \<and>
    arpT (cleanup_tick db_fails plan d) = delete_where (\<lambda>r. expired plan ArpTable (raAt r)) (arpT d) \<and>
    ifT (cleanup_tick db_fails plan d) = delete_where (\<lambda>r. expired plan InterfaceTable (riAt r)) (ifT d) \<and>
    vlanT (cleanup_tick db_fails plan d) = delete_where (\<lambda>r. expired plan VlanTable (rvAt r)) (vlanT d) \<and>
    ir \<in> set (rows (macT (cleanup_tick faulty plan d)))"
  using cleanup_tick_no_faults [OF assms(1), of plan d] cleanup_tick_fresh [OF assms(2,3), of faulty]
  by (simp add: kept_def)

definition aged_db :: db where
  "aged_db = empty_db\<lparr>macT := \<lparr>rows = [(1, mac_row_of one_mac), (2, (mac_row_of one_mac)\<lparr>rmMac := ''b'', rmAt := 900\<rparr>)],
     next_id = 3\<rparr>\<rparr>"

theorem cleanup_deletes_expired_witness:
  "rows (macT (cleanup_tick (\<lambda>_. False) [(MacTable, 300, 1000), (ArpTable, 300, 1000)] aged_db)) =
     [(2, (mac_row_of one_mac)\<lparr>rmMac := ''b'', rmAt := 900\<rparr>)]"
  using cleanup_deletes_expired [of "\<lambda>_. False" "(2, (mac_row_of one_mac)\<lparr>rmMac := ''b'', rmAt := 900\<rparr>)"
      aged_db "[(MacTable, 300, 1000), (ArpTable, 300, 1000)]" "\<lambda>_. True"]
  by (simp add: aged_db_def expired_def delete_where_def mac_row_of_def one_mac_def)

end
