(* ===== verification/Pipeline.thy ===== *)
theory Pipeline imports Samples Batches begin

text \<open>
  The collector and the consumer together: what a telemetry message leaves in the database once the
  Kafka messages it was published as have been consumed. Kafka itself is not modelled: the claims a
  consumer reads are any messages that carry the published values of their topic in order.
\<close>

definition carries :: "string \<Rightarrow> kmsg list \<Rightarrow> cmsg list \<Rightarrow> bool" where
  "carries topic sent' ms \<longleftrightarrow>
     map cmValue ms = map (\<lambda>m. Some (kValue m)) (filter (\<lambda>m. kTopic m = topic) sent') \<and>
     (\<forall>m \<in> set ms. cmTopic m = topic)"

lemma carries_vlans:
  assumes "carries ''vlan-table'' (map vlan_msg es) ms"
  shows "List.map_filter vlan_of_msg ms = filter (\<lambda>e. fits_integer (uint (vVlanID e))) es"
    and "List.map_filter if_of_msg ms = []"
proof -
  have "map cmValue ms = map (\<lambda>e. Some (vlan_json e)) es"
    using assms by (simp add: carries_def vlan_msg_def comp_def)
  moreover have "\<forall>m \<in> set ms. cmTopic m = ''vlan-table''"
    using assms by (simp add: carries_def)
  ultimately have "List.map_filter vlan_of_msg ms = filter (\<lambda>e. fits_integer (uint (vVlanID e))) es \<and>
      List.map_filter if_of_msg ms = []"
  proof (induction es arbitrary: ms)
    case (Cons e es)
    then obtain m ms' where "ms = m # ms'" "cmValue m = Some (vlan_json e)"
        "map cmValue ms' = map (\<lambda>e. Some (vlan_json e)) es" by (cases ms) auto
    with Cons show ?case
      by (simp add: List.map_filter_simps vlan_of_msg_def if_of_msg_def unmarshal_vlan_json)
  qed (simp add: List.map_filter_simps)
  then show "List.map_filter vlan_of_msg ms = filter (\<lambda>e. fits_integer (uint (vVlanID e))) es"
    and "List.map_filter if_of_msg ms = []" by blast+
qed

lemma carries_ifs:
  assumes "carries ''interface-table'' (map if_msg es) ms" and "\<forall>e \<in> set es. prefix_ok e"
  shows "List.map_filter if_of_msg ms = filter if_args_ok (map if_entry_wire es)"
    and "List.map_filter vlan_of_msg ms = []"
proof -
  have "map cmValue ms = map (\<lambda>e. Some (if_json e)) es"
    using assms by (simp add: carries_def if_msg_def comp_def)
  moreover have "\<forall>m \<in> set ms. cmTopic m = ''interface-table''"
    using assms by (simp add: carries_def)
  ultimately have "List.map_filter if_of_msg ms = filter if_args_ok (map if_entry_wire es) \<and>
      List.map_filter vlan_of_msg ms = []"
    using assms(2)
  proof (induction es arbitrary: ms)
    case (Cons e es)
    then obtain m ms' where m: "ms = m # ms'" "cmValue m = Some (if_json e)"
        "map cmValue ms' = map (\<lambda>e. Some (if_json e)) es" by (cases ms) auto
    have "unmarshal_if (if_json e) = Some (if_entry_wire e)"
      using Cons.prems(3) by (intro unmarshal_if_json) (fastforce simp: prefix_ok_def)
    with m Cons show ?case
      by (simp add: List.map_filter_simps vlan_of_msg_def if_of_msg_def)
  qed (simp add: List.map_filter_simps)
  then show "List.map_filter if_of_msg ms = filter if_args_ok (map if_entry_wire es)"
    and "List.map_filter vlan_of_msg ms = []" by blast+
qed

text \<open>The smallint columns refuse an access or voice VLAN of 32768 and more, mtu one of \<open>2 ^ 31\<close>.\<close>

definition small_vlan :: "16 word option \<Rightarrow> bool" where
  "small_vlan v = (case v of None \<Rightarrow> True | Some w \<Rightarrow> w < 32768)"

definition columns_fit :: "if_entry \<Rightarrow> bool" where
  "columns_fit e \<longleftrightarrow> iMTU e < 2147483648 \<and> small_vlan (iAccessVlan e) \<and> small_vlan (iVoiceVlan e)"

lemma if_entry_wire_args:
  assumes "prefix_ok e"
  shows "if_args_ok (if_entry_wire e) \<longleftrightarrow> columns_fit e"
proof -
  have prefix: "pred_option fits_smallint (iPrefixLen e)"
    using assms by (cases "iPrefixLen e") (auto simp: prefix_ok_def fits_smallint_def)
  have small: "fits_smallint (uint w) \<longleftrightarrow> w < 32768" for w :: "16 word"
    using order_trans [OF _ uint_ge_0 [of w], of "- 32768"] by (simp add: fits_smallint_def word_less_def)
  have "fits_integer (uint w) \<longleftrightarrow> w < 2147483648" for w :: "32 word"
    using order_trans [OF _ uint_ge_0 [of w], of "- 2147483648"]
    by (simp add: fits_integer_def word_less_def)
  with prefix small show ?thesis
    by (simp add: if_args_ok_def if_entry_wire_def columns_fit_def small_vlan_def split: option.split)
qed

text \<open>What a newer interface entry does to the row of its interface, column by column.\<close>

lemma if_merge_columns:
  assumes "riAt old \<le> iTimestamp e"
  shows "if_merge (if_entry_wire e) (Some old) = old\<lparr>
    riDescription := coalesce (iDescription e) (riDescription old),
    riShutdown := iShutdown e,
    riIp := coalesce (iIPAddress e) (riIp old),
    riPrefixLen := coalesce (iPrefixLen e) (riPrefixLen old),
    riVrf := (if iVRF e = [] then riVrf old else Some (iVRF e)),
    riMtu := (if iMTU e = 0 then riMtu old else Some (uint (iMTU e))),
    riAccessVlan := (case iAccessVlan e of None \<Rightarrow> riAccessVlan old | Some w \<Rightarrow> uint w),
    riVoiceVlan := coalesce (map_option uint (iVoiceVlan e)) (riVoiceVlan old),
    riAt := iTimestamp e\<rparr>"
  using assms
  by (simp add: if_merge_def on_conflict_def if_update_def if_entry_wire_def coalesce_def
      split: option.split)

lemma vlan_merge_columns:
  assumes "rvAt old \<le> vTimestamp e"
  shows "vlan_merge e (Some old) = old\<lparr>
    rvName := coalesce (vName e) (rvName old),
    rvStatus := (if vStatus e = [] then rvStatus old else Some (vStatus e)),
    rvAt := vTimestamp e\<rparr>"
  using assms
  by (simp add: vlan_merge_def on_conflict_def vlan_update_def nullif_empty_def coalesce_def)

subsection \<open>One telemetry message, published and consumed\<close>

lemma published_topics:
  "isVlan (EncodingPath t) \<Longrightarrow> published t = map vlan_msg (vlan_entries t)"
  "isInterface (EncodingPath t) \<Longrightarrow> published t = map if_msg (if_entries t)"
  "isMAC (EncodingPath t) \<Longrightarrow> mac_entries t \<noteq> [] \<Longrightarrow>
     published t = [\<lparr>kTopic = ''mac-table'', kKey = NodeIdStr t,
                     kValue = JArr (map mac_json (mac_entries t))\<rparr>]"
  by (auto simp: published_def isMAC_def isARP_def isInterface_def isVlan_def)

lemma if_entries_prefix: "e \<in> set (if_entries t) \<Longrightarrow> prefix_ok e"
  by (auto simp: if_entries_def if_of_node_prefix)

lemma dispatch_no_faults:
  assumes "\<forall>k. \<not> fails k" and "year_ok (msg_time t)" and "dispatch fails t p = (err, p')"
  shows "err = None \<and> drop (length (sent p)) (sent p') = published t"
proof -
  have "send_all fails (published t) p = (err, p')"
    using assms(2,3) by (simp add: dispatch_spec)
  with send_all_no_faults [OF assms(1), of "published t" p] show ?thesis by simp
qed

text \<open>What one message of each path leaves once it has been published and consumed.\<close>

lemma vlans_consumed:
  assumes "isVlan (EncodingPath t)" and "year_ok (msg_time t)"
    and "\<forall>k. \<not> fails k" and "\<forall>n. \<not> db_fails n"
    and "dispatch fails t p = (err, p')"
    and "carries ''vlan-table'' (drop (length (sent p)) (sent p')) ms"
    and "consume_rows db_fails ms ([], d) = (mk, d')"
  shows "err = None" and "mk = map cmOffset (filter row_accepted ms)"
    and "vlanT d' = fold vlan_put (filter (\<lambda>e. fits_integer (uint (vVlanID e))) (vlan_entries t)) (vlanT d)"
    and "macT d' = macT d" "arpT d' = arpT d" "ifT d' = ifT d"
proof -
  have e: "err = None" and carried: "carries ''vlan-table'' (map vlan_msg (vlan_entries t)) ms"
    using dispatch_no_faults [OF assms(3,2,5)] assms(6) published_topics(1) [OF assms(1)] by simp_all
  show "err = None" by (rule e)
  from consume_rows_no_faults [OF assms(4,7)] carries_vlans [OF carried]
  show "mk = map cmOffset (filter row_accepted ms)"
    "vlanT d' = fold vlan_put (filter (\<lambda>e. fits_integer (uint (vVlanID e))) (vlan_entries t)) (vlanT d)"
    "macT d' = macT d" "arpT d' = arpT d" "ifT d' = ifT d" by simp_all
qed

lemma interfaces_consumed:
  assumes "isInterface (EncodingPath t)" and "year_ok (msg_time t)"
    and "\<forall>k. \<not> fails k" and "\<forall>n. \<not> db_fails n"
    and "dispatch fails t p = (err, p')"
    and "carries ''interface-table'' (drop (length (sent p)) (sent p')) ms"
    and "consume_rows db_fails ms ([], d) = (mk, d')"
  shows "err = None" and "mk = map cmOffset (filter row_accepted ms)"
    and "ifT d' = fold if_put (map if_entry_wire (filter columns_fit (if_entries t))) (ifT d)"
    and "macT d' = macT d" "arpT d' = arpT d" "vlanT d' = vlanT d"
proof -
  have e: "err = None" and carried: "carries ''interface-table'' (map if_msg (if_entries t)) ms"
    using dispatch_no_faults [OF assms(3,2,5)] assms(6) published_topics(2) [OF assms(1)] by simp_all
  show "err = None" by (rule e)
  have "filter if_args_ok (map if_entry_wire (if_entries t)) =
      map if_entry_wire (filter columns_fit (if_entries t))"
    unfolding filter_map comp_def
    by (intro arg_cong [where f = "map if_entry_wire"] filter_cong refl)
       (simp add: if_entry_wire_args [OF if_entries_prefix])
  with consume_rows_no_faults [OF assms(4,7)] carries_ifs [OF carried] if_entries_prefix
  show "mk = map cmOffset (filter row_accepted ms)"
    "ifT d' = fold if_put (map if_entry_wire (filter columns_fit (if_entries t))) (ifT d)"
    "macT d' = macT d" "arpT d' = arpT d" "vlanT d' = vlanT d" by simp_all
qed

lemma macs_consumed:
  assumes "isMAC (EncodingPath t)" and "mac_entries t \<noteq> []" and "year_ok (msg_time t)"
    and "\<forall>k. \<not> fails k" and "\<forall>n. \<not> db_fails n" and "db_ok d"
    and "dispatch fails t p = (err, p')"
    and "carries ''mac-table'' (drop (length (sent p)) (sent p')) ms"
  shows "\<exists>m s. ms = [m] \<and> consumeMACBatch db_fails [Received m, Closed] d = Some s \<and> batch s = [] \<and>
    get mac_key (macT (database s)) k =
      (case filter (\<lambda>e. mac_entry_key e = k) (mac_entries t) of
         [] \<Rightarrow> get mac_key (macT d) k
       | e # es \<Rightarrow> Some (mac_row_of e))"
proof -
  have pub: "drop (length (sent p)) (sent p') = [\<lparr>kTopic = ''mac-table'', kKey = NodeIdStr t,
                     kValue = JArr (map mac_json (mac_entries t))\<rparr>]"
    using dispatch_no_faults [OF assms(4,3,7)] published_topics(3) [OF assms(1,2)] by simp
  with assms(8) obtain m where m: "ms = [m]" "cmValue m = Some (JArr (map mac_json (mac_entries t)))"
    by (auto simp: carries_def)
  have same: "fold (newer mTimestamp) es (Some e) = Some e"
    if "\<forall>x \<in> set es. mTimestamp x \<le> mTimestamp e" for es e
    using that by (induction es) (auto simp: newer_def)
  have "map_of (fold (add_entry mac_entry_key mTimestamp) (mac_entries t) []) k =
      (case filter (\<lambda>e. mac_entry_key e = k) (mac_entries t) of [] \<Rightarrow> None | e # es \<Rightarrow> Some e)"
  proof (cases "filter (\<lambda>e. mac_entry_key e = k) (mac_entries t)")
    case (Cons e es)
    then have "set (e # es) \<subseteq> set (mac_entries t)" by (metis filter_is_subset)
    then have "\<forall>x \<in> set es. mTimestamp x \<le> mTimestamp e"
      using mac_entries_time [of _ t] by (auto simp: subset_iff) (metis imageI order_refl)
    with Cons same show ?thesis by (simp add: map_of_add_entries newer_def)
  qed (simp add: map_of_add_entries)
  with mac_batches.single_message [OF assms(5,6), of m "unmarshal_slice unmarshal_mac"
      "mac_entries t" macBatchSize k] m unmarshal_macs_json [of "mac_entries t"]
  show ?thesis
    by (simp add: consumeMACBatch_def split: list.splits)
qed

text \<open>The sample messages, dispatched with a working broker.\<close>

definition no_messages :: producer where
  "no_messages = \<lparr>attempts = 0, sent = []\<rparr>"

lemma demo_paths:
  "isVlan (EncodingPath demo_vlans)" "isInterface (EncodingPath demo_ifs)" "isMAC (EncodingPath demo_macs)"
  "year_ok (msg_time demo_vlans)" "year_ok (msg_time demo_ifs)" "year_ok (msg_time demo_macs)"
  by code_simp+

lemma demo_dispatch:
  "sent (snd (dispatch (\<lambda>_. False) demo_vlans no_messages)) = map vlan_msg (vlan_entries demo_vlans)"
  "sent (snd (dispatch (\<lambda>_. False) demo_ifs no_messages)) = map if_msg (if_entries demo_ifs)"
  "sent (snd (dispatch (\<lambda>_. False) demo_macs no_messages)) =
     [\<lparr>kTopic = ''mac-table'', kKey = NodeIdStr demo_macs,
       kValue = JArr (map mac_json (mac_entries demo_macs))\<rparr>]"
  "sent no_messages = []"
  using dispatch_no_faults [of "\<lambda>_. False" demo_vlans no_messages]
    dispatch_no_faults [of "\<lambda>_. False" demo_ifs no_messages]
    dispatch_no_faults [of "\<lambda>_. False" demo_macs no_messages]
    published_topics [of demo_vlans] published_topics [of demo_ifs] published_topics [of demo_macs]
  by (simp_all add: demo_paths demo_mac_entries no_messages_def prod_eq_iff)

definition demo_vlan_claim :: "cmsg list" where
  "demo_vlan_claim = [\<lparr>cmOffset = 4, cmTopic = ''vlan-table'',
     cmValue = Some (vlan_json (hd (vlan_entries demo_vlans)))\<rparr>]"

definition demo_if_claim :: "cmsg list" where
  "demo_if_claim = [\<lparr>cmOffset = 9, cmTopic = ''interface-table'',
     cmValue = Some (if_json (hd (if_entries demo_ifs)))\<rparr>]"

definition demo_mac_msg :: cmsg where
  "demo_mac_msg = \<lparr>cmOffset = 2, cmTopic = ''mac-table'',
     cmValue = Some (JArr (map mac_json (mac_entries demo_macs)))\<rparr>"

lemma demo_carries:
  "carries ''vlan-table'' (drop (length (sent no_messages))
     (sent (snd (dispatch (\<lambda>_. False) demo_vlans no_messages)))) demo_vlan_claim"
  "carries ''interface-table'' (drop (length (sent no_messages))
     (sent (snd (dispatch (\<lambda>_. False) demo_ifs no_messages)))) demo_if_claim"
  "carries ''mac-table'' (drop (length (sent no_messages))
     (sent (snd (dispatch (\<lambda>_. False) demo_macs no_messages)))) [demo_mac_msg]"
  by (simp_all add: demo_dispatch carries_def demo_vlan_claim_def demo_if_claim_def
      demo_mac_msg_def vlan_msg_def if_msg_def demo_vlan_entries demo_if_entries)

lemma never: "\<forall>k :: nat. \<not> (\<lambda>_. False) k"
  by simp

subsection \<open>Properties\<close>

text \<open>VLAN telemetry, end to end: with a working broker and database, publishing one message of
  a VLAN path and consuming what was published writes exactly the message's VLANs that fit the id
  column, in row order, through the guarded upsert, touches no other table, and marks the messages
  that were written.\<close>

theorem pipeline_vlans:
  assumes "isVlan (EncodingPath t)" and "year_ok (msg_time t)"
    and "\<forall>k. \<not> fails k" and "\<forall>n. \<not> db_fails n"
    and "dispatch fails t p = (err, p')"
    and "carries ''vlan-table'' (drop (length (sent p)) (sent p')) ms"
    and "consume_rows db_fails ms ([], d) = (mk, d')"
  shows "err = None \<and>
    vlanT d' = fold vlan_put (filter (\<lambda>e. fits_integer (uint (vVlanID e))) (vlan_entries t)) (vlanT d) \<and>
    macT d' = macT d \<and> arpT d' = arpT d \<and> ifT d' = ifT d \<and>
    mk = map cmOffset (filter row_accepted ms)"
  using vlans_consumed [OF assms] by simp

theorem pipeline_vlans_witness:
  "get vlan_key (vlanT (snd (consume_rows (\<lambda>_. False) demo_vlan_claim ([], empty_db)))) (''sw1'', 10) =
     Some \<lparr>rvNode = ''sw1'', rvVlanId = 10, rvName = Some ''users'', rvStatus = None, rvAt = 1000\<rparr>"
proof -
  have "vlanT (snd (consume_rows (\<lambda>_. False) demo_vlan_claim ([], empty_db))) =
      fold vlan_put (filter (\<lambda>e. fits_integer (uint (vVlanID e))) (vlan_entries demo_vlans)) (vlanT empty_db)"
    using pipeline_vlans [OF demo_paths(1,4) never never prod.collapse [symmetric] demo_carries(1)
        prod.collapse [symmetric]] by blast
  moreover have "get vlan_key \<dots> (''sw1'', 10) =
     Some \<lparr>rvNode = ''sw1'', rvVlanId = 10, rvName = Some ''users'', rvStatus = None, rvAt = 1000\<rparr>"
    unfolding demo_vlan_entries by code_simp
  ultimately show ?thesis by simp
qed

text \<open>Interface telemetry, end to end: the interfaces with a name and with VLANs and MTU that
  fit their columns are written in the order of the tree walk, as the consumer's struct reads them.\<close>

theorem pipeline_interfaces:
  assumes "isInterface (EncodingPath t)" and "year_ok (msg_time t)"
    and "\<forall>k. \<not> fails k" and "\<forall>n. \<not> db_fails n"
    and "dispatch fails t p = (err, p')"
    and "carries ''interface-table'' (drop (length (sent p)) (sent p')) ms"
    and "consume_rows db_fails ms ([], d) = (mk, d')"
  shows "err = None \<and>
    ifT d' = fold if_put (map if_entry_wire (filter columns_fit (if_entries t))) (ifT d) \<and>
    macT d' = macT d \<and> arpT d' = arpT d \<and> vlanT d' = vlanT d \<and>
    mk = map cmOffset (filter row_accepted ms)"
  using interfaces_consumed [OF assms] by simp

theorem pipeline_interfaces_witness:
  "map_option riMtu (get if_key (ifT (snd (consume_rows (\<lambda>_. False) demo_if_claim ([], empty_db))))
     (''sw1'', ''GigabitEthernet1/0/1'')) = Some (Some 1500)"
proof -
  have "ifT (snd (consume_rows (\<lambda>_. False) demo_if_claim ([], empty_db))) =
      fold if_put (map if_entry_wire (filter columns_fit (if_entries demo_ifs))) (ifT empty_db)"
    using pipeline_interfaces [OF demo_paths(2,5) never never prod.collapse [symmetric] demo_carries(2)
        prod.collapse [symmetric]] by blast
  moreover have "map_option riMtu (get if_key \<dots> (''sw1'', ''GigabitEthernet1/0/1'')) = Some (Some 1500)"
    unfolding demo_if_entries by code_simp
  ultimately show ?thesis by simp
qed

text \<open>MAC telemetry, end to end: after its one Kafka message and the close of the claim, every
  MAC address of the message has the row of its first entry (all entries of a message bear its time,
  and only a later time replaces one), however many entries there are, and every other row is as
  before.\<close>

theorem pipeline_macs:
  assumes "isMAC (EncodingPath t)" and "mac_entries t \<noteq> []" and "year_ok (msg_time t)"
    and "\<forall>k. \<not> fails k" and "\<forall>n. \<not> db_fails n" and "db_ok d"
    and "dispatch fails t p = (err, p')"
    and "carries ''mac-table'' (drop (length (sent p)) (sent p')) ms"
  shows "\<exists>m s. ms = [m] \<and> consumeMACBatch db_fails [Received m, Closed] d = Some s \<and> batch s = [] \<and>
    get mac_key (macT (database s)) k =
      (case filter (\<lambda>e. mac_entry_key e = k) (mac_entries t) of
         [] \<Rightarrow> get mac_key (macT d) k
       | e # es \<Rightarrow> Some (mac_row_of e))"
  using macs_consumed [OF assms] .

theorem pipeline_macs_witness:
  "\<exists>s. consumeMACBatch (\<lambda>_. False) [Received demo_mac_msg, Closed] empty_db = Some s \<and>
     get mac_key (macT (database s)) (''sw1'', ''0011.2233.4455'') =
       Some (mac_row_of (hd (mac_entries demo_macs)))"
  using pipeline_macs [OF demo_paths(3) _ demo_paths(6) never never db_ok_empty
      prod.collapse [symmetric] demo_carries(3), of "(''sw1'', ''0011.2233.4455'')"]
  by (simp add: demo_mac_entries) blast

text \<open>C25. One interface push against a stored row, column by column: an older push changes nothing;
  otherwise an absent description, address, prefix length or VLAN leaves the column and a present one
  (empty or zero included) overwrites it; \<open>vrf\<close> and \<open>mtu\<close> can be set but never cleared, since the
  collector omits their zero values; \<open>shutdown\<close> is always overwritten, by false when the push says
  nothing of it.\<close>

theorem interface_push_columns:
  assumes "\<forall>n. \<not> db_fails n" and "db_ok d" and "prefix_ok e" and "columns_fit e"
    and "get if_key (ifT d) (iNodeID e, iName e) = Some old"
    and "handleInterface db_fails (Some (if_json e)) d = (err, d')"
  shows "err = None \<and> get if_key (ifT d') (iNodeID e, iName e) = Some
    (if iTimestamp e < riAt old then old
     else old\<lparr>
       riDescription := coalesce (iDescription e) (riDescription old),
       riShutdown := iShutdown e,
       riIp := coalesce (iIPAddress e) (riIp old),
       riPrefixLen := coalesce (iPrefixLen e) (riPrefixLen old),
       riVrf := (if iVRF e = [] then riVrf old else Some (iVRF e)),
       riMtu := (if iMTU e = 0 then riMtu old else Some (uint (iMTU e))),
       riAccessVlan := (case iAccessVlan e of None \<Rightarrow> riAccessVlan old | Some w \<Rightarrow> uint w),
       riVoiceVlan := coalesce (map_option uint (iVoiceVlan e)) (riVoiceVlan old),
       riAt := iTimestamp e\<rparr>)"
proof -
  have "unmarshal_if (if_json e) = Some (if_entry_wire e)"
    using assms(3) by (intro unmarshal_if_json) (fastforce simp: prefix_ok_def)
  with assms(1,4,6) if_entry_wire_args [OF assms(3)]
  have d': "err = None" "ifT d' = if_put (if_entry_wire e) (ifT d)"
    by (auto simp: handleInterface_def db_exec_def Let_def if_upsert_def)
  have key: "if_entry_key (if_entry_wire e) = (iNodeID e, iName e)"
    by (simp add: if_entry_wire_def)
  have "get if_key (ifT d') (iNodeID e, iName e) = Some (if_merge (if_entry_wire e) (Some old))"
    unfolding d'(2) key [symmetric]
    using ifs.look_put [of "ifT d" "if_entry_wire e" "if_entry_key (if_entry_wire e)"] assms(2,5) key
    by (simp add: db_ok_def)
  moreover have "if_merge (if_entry_wire e) (Some old) = old" if "iTimestamp e < riAt old"
    using that by (simp add: if_merge_def on_conflict_def if_update_def if_entry_wire_def)
  ultimately show ?thesis
    using d'(1) if_merge_columns [of old e] by (simp add: not_less)
qed

definition demo_if_row :: if_row where
  "demo_if_row = \<lparr>riNode = ''sw1'', riName = ''Vlan10'', riDescription = Some ''users'',
     riShutdown = True, riIp = Some ''10.0.0.1'', riPrefixLen = Some 24, riVrf = Some ''blue'',
     riMtu = Some 1500, riAccessVlan = 1, riVoiceVlan = None, riAt = 1000\<rparr>"

definition demo_if_db :: db where
  "demo_if_db = empty_db\<lparr>ifT := \<lparr>rows = [(1, demo_if_row)], next_id = 2\<rparr>\<rparr>"

definition demo_if_push :: if_entry where
  "demo_if_push = (empty_if 2000 ''sw1'')\<lparr>iName := ''Vlan10'', iIPAddress := Some []\<rparr>"

lemma demo_if_push_ok:
  "db_ok demo_if_db" "prefix_ok demo_if_push" "columns_fit demo_if_push"
  "get if_key (ifT demo_if_db) (iNodeID demo_if_push, iName demo_if_push) = Some demo_if_row"
  by (simp_all add: demo_if_db_def db_ok_def empty_db_def empty_table_def table_ok_def prefix_ok_def demo_if_push_def
      empty_if_def columns_fit_def small_vlan_def get_def demo_if_row_def)

theorem interface_push_columns_witness:
  "get if_key (ifT (snd (handleInterface (\<lambda>_. False) (Some (if_json demo_if_push)) demo_if_db)))
     (''sw1'', ''Vlan10'') = Some (demo_if_row\<lparr>riShutdown := False, riIp := Some [], riAt := 2000\<rparr>)"
  using interface_push_columns [OF never demo_if_push_ok(1-4) prod.collapse [symmetric]]
  by (simp add: demo_if_push_def demo_if_row_def empty_if_def coalesce_def)

text \<open>Pushes of one VLAN in time order: how its stored name evolves.\<close>

lemma vlan_names:
  assumes "table_ok vlan_key t" and "\<forall>e \<in> set es. vlan_entry_key e = k"
    and "sorted (map vTimestamp es)" and "\<forall>r. get vlan_key t k = Some r \<longrightarrow> (\<forall>e \<in> set es. rvAt r \<le> vTimestamp e)"
  shows "map_option rvName (get vlan_key (fold vlan_put es t) k) =
    (if es = [] then map_option rvName (get vlan_key t k)
     else Some (fold (\<lambda>e. coalesce (vName e)) es (Option.bind (get vlan_key t k) rvName)))"
  using assms
proof (induction es arbitrary: t)
  case (Cons e es)
  have look: "get vlan_key (vlan_put e t) k = Some (vlan_merge e (get vlan_key t k))"
    using vlans.look_put [OF Cons.prems(1), of e k] Cons.prems(2) by simp
  have row: "rvAt (vlan_merge e (get vlan_key t k)) = vTimestamp e"
      "rvName (vlan_merge e (get vlan_key t k)) = coalesce (vName e) (Option.bind (get vlan_key t k) rvName)"
    using Cons.prems(4) vlan_merge_columns [of _ e]
    by (cases "get vlan_key t k"; simp add: vlan_merge_def vlan_row_of_def coalesce_def split: option.split)+
  have "map_option rvName (get vlan_key (fold vlan_put es (vlan_put e t)) k) =
    (if es = [] then map_option rvName (get vlan_key (vlan_put e t) k)
     else Some (fold (\<lambda>e. coalesce (vName e)) es (Option.bind (get vlan_key (vlan_put e t) k) rvName)))"
    using Cons.prems look row by (intro Cons.IH vlans.invar_put) auto
  with look row show ?case by simp
qed simp

lemma fold_coalesce:
  "fold (\<lambda>e. coalesce (vName e)) es old =
     (let named = filter (\<lambda>e. vName e \<noteq> None) es in if named = [] then old else vName (last named))"
  by (induction es rule: rev_induct) (auto simp: coalesce_def Let_def split: option.split)

text \<open>The name of a VLAN: after pushes of one VLAN in time order, the table holds the last name
  that a push carried, an empty name included; pushes without a name do not change it, and a VLAN
  never pushed with a name has none.\<close>

theorem vlan_name_is_last_pushed:
  assumes "table_ok vlan_key t" and "get vlan_key t k = None" and "es \<noteq> []"
    and "\<forall>e \<in> set es. vlan_entry_key e = k" and "sorted (map vTimestamp es)"
  shows "map_option rvName (get vlan_key (fold vlan_put es t) k) = Some
    (let named = filter (\<lambda>e. vName e \<noteq> None) es in if named = [] then None else vName (last named))"
  using vlan_names [OF assms(1,4,5)] assms(2,3) by (simp add: fold_coalesce)

theorem vlan_name_is_last_pushed_witness:
  "map_option rvName (get vlan_key (fold vlan_put
     [\<lparr>vTimestamp = 1, vNodeID = ''sw1'', vVlanID = 10, vName = Some ''users'', vStatus = []\<rparr>,
      \<lparr>vTimestamp = 2, vNodeID = ''sw1'', vVlanID = 10, vName = None, vStatus = ''active''\<rparr>,
      \<lparr>vTimestamp = 3, vNodeID = ''sw1'', vVlanID = 10, vName = Some [], vStatus = []\<rparr>]
     empty_table) (''sw1'', 10)) = Some (Some [])"
  using vlan_name_is_last_pushed [of empty_table "(''sw1'', 10)"
     "[\<lparr>vTimestamp = 1, vNodeID = ''sw1'', vVlanID = 10, vName = Some ''users'', vStatus = []\<rparr>,
      \<lparr>vTimestamp = 2, vNodeID = ''sw1'', vVlanID = 10, vName = None, vStatus = ''active''\<rparr>,
      \<lparr>vTimestamp = 3, vNodeID = ''sw1'', vVlanID = 10, vName = Some [], vStatus = []\<rparr>]"]
  by simp

end
