(* ===== verification/Search.thy ===== *)
theory Search imports Http Tables "HOL-Library.Multiset" begin

text \<open>
  \<open>webapp/internal/search\<close>: the classification of search terms, the search query over the four
  telemetry tables and the handler. DNS is the parameter \<open>lookup_host\<close>. \<open>ORDER BY node_id,
  mac_address\<close> depends on the collation of the database and is the parameter \<open>arrange\<close>; among rows of
  equal rank, which the query leaves open, the model takes the first of the table. \<open>lower\<close> and
  \<open>strings.ToLower\<close> are taken on ASCII letters: the values they are compared with are ASCII.
\<close>

subsection \<open>Terms\<close>

definition lower_char :: "char \<Rightarrow> char" where
  "lower_char c = (if 65 \<le> byte_of c \<and> byte_of c \<le> 90 then char_of (byte_of c + 32) else c)"

definition to_lower :: "string \<Rightarrow> string" where
  "to_lower s = map lower_char s"

text \<open>\<open>[0-9a-f]\<close> and \<open>[a-z]\<close> under \<open>(?i)\<close>.\<close>

definition is_hex :: "char \<Rightarrow> bool" where
  "is_hex c \<longleftrightarrow> is_digit c \<or> 97 \<le> byte_of c \<and> byte_of c \<le> 102 \<or> 65 \<le> byte_of c \<and> byte_of c \<le> 70"

definition is_letter :: "char \<Rightarrow> bool" where
  "is_letter c \<longleftrightarrow> 97 \<le> byte_of c \<and> byte_of c \<le> 122 \<or> 65 \<le> byte_of c \<and> byte_of c \<le> 90"

fun hex_pairs :: "nat \<Rightarrow> string \<Rightarrow> bool" where
  "hex_pairs 0 [a, b] \<longleftrightarrow> is_hex a \<and> is_hex b"
| "hex_pairs (Suc n) (a # b # c # s) \<longleftrightarrow>
     is_hex a \<and> is_hex b \<and> (c = CHR '':'' \<or> c = CHR ''-'') \<and> hex_pairs n s"
| "hex_pairs _ _ \<longleftrightarrow> False"

definition MacRe :: "string \<Rightarrow> bool" where
  "MacRe s \<longleftrightarrow>
     hex_pairs 5 s \<or>
     length s = 14 \<and> list_all is_hex (take 4 s) \<and> s ! 4 = CHR ''.'' \<and>
       list_all is_hex (take 4 (drop 5 s)) \<and> s ! 9 = CHR ''.'' \<and> list_all is_hex (drop 10 s) \<or>
     length s = 12 \<and> list_all is_hex s"

fun split_dots :: "string \<Rightarrow> string \<Rightarrow> string list" where
  "split_dots acc [] = [acc]"
| "split_dots acc (c # s) = (if c = CHR ''.'' then acc # split_dots [] s else split_dots (acc @ [c]) s)"

definition IPRe :: "string \<Rightarrow> bool" where
  "IPRe s \<longleftrightarrow>
     (let parts = split_dots [] s in
      length parts = 4 \<and> list_all (\<lambda>p. 1 \<le> length p \<and> length p \<le> 3 \<and> list_all is_digit p) parts)"

text \<open>Under \<open>(?i)\<close> the class \<open>[a-z]\<close> also has the long s (C5 BF) and the Kelvin sign (E2 84 AA).\<close>

fun host_letter :: "string \<Rightarrow> string option" where
  "host_letter (c # s) =
     (if is_letter c then Some s
      else if byte_of c = 197 \<and> s \<noteq> [] \<and> byte_of (hd s) = 191 then Some (tl s)
      else if byte_of c = 226 \<and> length s \<ge> 2 \<and> byte_of (hd s) = 132 \<and> byte_of (s ! 1) = 170
      then Some (drop 2 s)
      else None)"
| "host_letter [] = None"

lemma host_letter_shorter: "host_letter s = Some r \<Longrightarrow> length r < length s"
  by (cases s) (auto split: if_splits)

function host_tail :: "string \<Rightarrow> bool" where
  "host_tail s \<longleftrightarrow>
     (if s = [] then True
      else if is_digit (hd s) \<or> hd s = CHR ''-'' \<or> hd s = CHR ''.'' then host_tail (tl s)
      else case host_letter s of Some r \<Rightarrow> host_tail r | None \<Rightarrow> False)"
  by pat_completeness auto

termination host_tail
  by (relation "measure length") (auto dest: host_letter_shorter)

declare host_tail.simps [simp del]

definition HostRe :: "string \<Rightarrow> bool" where
  "HostRe s \<longleftrightarrow> (case host_letter s of Some r \<Rightarrow> host_tail r | None \<Rightarrow> False)"

text \<open>The hexadecimal digits of a MAC as its colon form and its Cisco form.\<close>

definition colon_form :: "string \<Rightarrow> string" where
  "colon_form h =
     take 2 h @ '':'' @ take 2 (drop 2 h) @ '':'' @ take 2 (drop 4 h) @ '':'' @ take 2 (drop 6 h) @ '':''
       @ take 2 (drop 8 h) @ '':'' @ take 2 (drop 10 h)"

definition dot_form :: "string \<Rightarrow> string" where
  "dot_form h = take 4 h @ ''.'' @ take 4 (drop 4 h) @ ''.'' @ take 4 (drop 8 h)"

definition normalizeMac :: "string \<Rightarrow> string list" where
  "normalizeMac s0 =
     (let s = to_lower s0;
          h = filter (\<lambda>r. is_digit r \<or> 97 \<le> byte_of r \<and> byte_of r \<le> 102) s
      in if length h \<noteq> 12 then [to_lower s] else [colon_form h, dot_form h])"

subsection \<open>The search query\<close>

record search_result =
  srNode :: string
  srMac :: string
  srIp :: "string option"
  srInterface :: "string option"
  srDescription :: "string option"
  srAccessVlan :: "int option"
  srAccessName :: "string option"
  srVoiceVlan :: "int option"
  srVoiceName :: "string option"

text \<open>\<open>SELECT DISTINCT ON (key) \<dots> ORDER BY key, \<dots>\<close>: of each key the first row no other beats.\<close>

definition first_best :: "('r \<Rightarrow> 'r \<Rightarrow> bool) \<Rightarrow> 'r list \<Rightarrow> 'r option" where
  "first_best better rs =
     (case rs of [] \<Rightarrow> None | r # rs' \<Rightarrow> Some (fold (\<lambda>x b. if better x b then x else b) rs' r))"

definition distinct_on :: "('r \<Rightarrow> 'k) \<Rightarrow> ('r \<Rightarrow> 'r \<Rightarrow> bool) \<Rightarrow> 'r list \<Rightarrow> 'r list" where
  "distinct_on key better rs =
     List.map_filter (\<lambda>k. first_best better (filter (\<lambda>r. key r = k) rs)) (remdups (map key rs))"

definition latest_arp :: "db \<Rightarrow> arp_row list" where
  "latest_arp d = distinct_on raMac (\<lambda>x b. raAt x > raAt b) (map snd (rows (arpT d)))"

definition iface_rank :: "string option \<Rightarrow> nat" where
  "iface_rank i =
     (case i of
        None \<Rightarrow> 1
      | Some s \<Rightarrow>
          if has_prefix (to_lower s) ''vlan'' then 3
          else if has_prefix (to_lower s) ''loopback'' then 3
          else if has_prefix (to_lower s) ''tunnel'' then 3
          else if has_prefix (to_lower s) ''port-channel'' then 2
          else 1)"

definition best_mac :: "db \<Rightarrow> mac_row list" where
  "best_mac d =
     distinct_on rmMac
       (\<lambda>x b. iface_rank (rmInterface x) < iface_rank (rmInterface b) \<or>
              iface_rank (rmInterface x) = iface_rank (rmInterface b) \<and> rmAt x > rmAt b)
       (map snd (rows (macT d)))"

text \<open>The LEFT JOINs: every joined side has at most one row for the join key.\<close>

definition arp_of_mac :: "db \<Rightarrow> string \<Rightarrow> arp_row option" where
  "arp_of_mac d mac = find (\<lambda>a. raMac a = Some mac) (latest_arp d)"

definition vlan_name :: "db \<Rightarrow> string \<Rightarrow> int option \<Rightarrow> string option" where
  "vlan_name d node v =
     (case v of None \<Rightarrow> None | Some n \<Rightarrow> Option.bind (get vlan_key (vlanT d) (node, n)) rvName)"

definition mac_result :: "db \<Rightarrow> mac_row \<Rightarrow> search_result" where
  "mac_result d m =
     (let i = Option.bind (rmInterface m) (\<lambda>nm. get if_key (ifT d) (rmNode m, nm));
          access = map_option riAccessVlan i;
          voice = Option.bind i riVoiceVlan
      in \<lparr>srNode = rmNode m, srMac = rmMac m, srIp = map_option raIp (arp_of_mac d (rmMac m)),
          srInterface = rmInterface m, srDescription = Option.bind i riDescription,
          srAccessVlan = access, srAccessName = vlan_name d (rmNode m) access,
          srVoiceVlan = voice, srVoiceName = vlan_name d (rmNode m) voice\<rparr>)"

definition searchSQL_macs :: "db \<Rightarrow> string list \<Rightarrow> string list \<Rightarrow> search_result list" where
  "searchSQL_macs d macs ips =
     filter (\<lambda>r. to_lower (srMac r) \<in> set macs \<or> (case srIp r of Some ip \<Rightarrow> ip \<in> set ips | None \<Rightarrow> False))
       (map (mac_result d) (best_mac d))"

definition searchSQL_arps :: "db \<Rightarrow> string list \<Rightarrow> search_result list" where
  "searchSQL_arps d ips =
     map (\<lambda>a. \<lparr>srNode = raNode a, srMac = (case raMac a of Some m \<Rightarrow> m | None \<Rightarrow> []), srIp = Some (raIp a),
                srInterface = None, srDescription = None, srAccessVlan = None, srAccessName = None,
                srVoiceVlan = None, srVoiceName = None\<rparr>)
       (filter (\<lambda>a. \<not> list_ex (\<lambda>m. Some (to_lower (rmMac m)) = map_option to_lower (raMac a))
                       (map snd (rows (macT d))))
         (distinct_on raIp (\<lambda>x b. raAt x > raAt b)
            (filter (\<lambda>a. raIp a \<in> set ips) (map snd (rows (arpT d))))))"

text \<open>UNION drops duplicate rows.\<close>

definition searchSQL :: "db \<Rightarrow> string list \<Rightarrow> string list \<Rightarrow> search_result list" where
  "searchSQL d macs ips = remdups (searchSQL_macs d macs ips @ searchSQL_arps d ips)"

subsection \<open>The handler\<close>

datatype kind = KMac | KIp | KHostname

record term_record =
  trOriginal :: string
  trKind :: kind
  trLookFor :: "string list"

record term_state =
  seen :: "string list"
  macs :: "string list"
  ips :: "string list"
  hostnames :: "string list"
  records :: "term_record list"

definition add_mac :: "string \<Rightarrow> term_state \<Rightarrow> term_state" where
  "add_mac norm st =
     (if norm \<in> set (seen st) then st else st\<lparr>seen := seen st @ [norm], macs := macs st @ [norm]\<rparr>)"

definition add_ip :: "string \<Rightarrow> term_state \<Rightarrow> term_state" where
  "add_ip ip st =
     (if ip \<in> set (seen st) then st else st\<lparr>seen := seen st @ [ip], ips := ips st @ [ip]\<rparr>)"

definition add_hostname :: "string \<Rightarrow> term_state \<Rightarrow> term_state" where
  "add_hostname h st =
     (if h \<in> set (seen st) then st else st\<lparr>seen := seen st @ [h], hostnames := hostnames st @ [h]\<rparr>)"

definition add_record :: "string \<Rightarrow> kind \<Rightarrow> string list \<Rightarrow> term_state \<Rightarrow> term_state" where
  "add_record t k look st =
     st\<lparr>records := records st @ [\<lparr>trOriginal = t, trKind = k, trLookFor = look\<rparr>]\<rparr>"

definition classify_term :: "string \<Rightarrow> term_state \<Rightarrow> term_state" where
  "classify_term t0 st =
     (let t = TrimSpace t0 in
      if t = [] then st
      else if MacRe t then add_record t KMac (normalizeMac t) (fold add_mac (normalizeMac t) st)
      else if IPRe t then add_record t KIp [t] (add_ip t st)
      else if HostRe t then add_record t KHostname [] (add_hostname t st)
      else st)"

definition no_terms :: term_state where
  "no_terms = \<lparr>seen = [], macs = [], ips = [], hostnames = [], records = []\<rparr>"

text \<open>What a host name resolves to; only the dotted-quad addresses are used.\<close>

definition resolved :: "(string \<Rightarrow> string list option) \<Rightarrow> string \<Rightarrow> string list" where
  "resolved lookup_host h = (case lookup_host h of None \<Rightarrow> [] | Some addrs \<Rightarrow> filter IPRe addrs)"

definition resolve_terms :: "(string \<Rightarrow> string list option) \<Rightarrow> term_state \<Rightarrow> term_state" where
  "resolve_terms lookup_host st =
     (let st1 = fold (\<lambda>h st. fold add_ip (resolved lookup_host h) st) (hostnames st) st in
      st1\<lparr>records := map (\<lambda>tr. if trKind tr = KHostname
                               then tr\<lparr>trLookFor := resolved lookup_host (trOriginal tr)\<rparr> else tr)
                     (records st1)\<rparr>)"

record search_response =
  spResults :: "search_result list"
  spNotFound :: "string list"

definition term_matched :: "search_result list \<Rightarrow> term_record \<Rightarrow> bool" where
  "term_matched results tr =
     (let foundMACs = map (\<lambda>r. to_lower (srMac r)) results;
          foundIPs = List.map_filter srIp results
      in case trKind tr of
           KMac \<Rightarrow> list_ex (\<lambda>norm. norm \<in> set foundMACs) (trLookFor tr)
         | KIp \<Rightarrow> hd (trLookFor tr) \<in> set foundIPs
         | KHostname \<Rightarrow> list_ex (\<lambda>ip. ip \<in> set foundIPs) (trLookFor tr))"

definition store_terms :: "string list \<Rightarrow> string \<times> json \<Rightarrow> string list option" where
  "store_terms old m =
     (if key_is (fst m) ''terms'' then unmarshal_slice (string_value []) (snd m) else Some old)"

definition SearchHandler ::
    "(string \<Rightarrow> string list option) \<Rightarrow> (search_result list \<Rightarrow> search_result list) \<Rightarrow> bool \<Rightarrow> db \<Rightarrow> string \<Rightarrow>
     json option \<Rightarrow> search_response reply" where
  "SearchHandler lookup_host arrange q_fails d meth body =
     (if meth \<noteq> ''POST'' then HttpError 405
      else case Option.bind body (unmarshal_struct store_terms []) of
        None \<Rightarrow> HttpError 400
      | Some terms \<Rightarrow>
          let st = resolve_terms lookup_host (fold classify_term terms no_terms) in
          if macs st = [] \<and> ips st = [] then
            Reply 200 \<lparr>spResults = [], spNotFound = map trOriginal (records st)\<rparr>
          else if q_fails then HttpError 500
          else
            let results = arrange (searchSQL d (macs st) (ips st)) in
            Reply 200 \<lparr>spResults = results,
              spNotFound = map trOriginal (filter (\<lambda>tr. \<not> term_matched results tr) (records st))\<rparr>)"

subsection \<open>Spellings of a MAC address\<close>

lemma to_lower_append [simp]: "to_lower (s @ t) = to_lower s @ to_lower t"
  by (simp add: to_lower_def)

definition is_lower_hex :: "char \<Rightarrow> bool" where
  "is_lower_hex r \<longleftrightarrow> is_digit r \<or> 97 \<le> byte_of r \<and> byte_of r \<le> 102"

lemma lower_hex: "is_hex c \<Longrightarrow> is_lower_hex (lower_char c)"
  by (auto simp: is_hex_def is_lower_hex_def lower_char_def is_digit_def)

lemma separators:
  "lower_char (CHR '':'') = CHR '':''" "lower_char (CHR ''-'') = CHR ''-''" "lower_char (CHR ''.'') = CHR ''.''"
  "\<not> is_lower_hex (CHR '':'')" "\<not> is_lower_hex (CHR ''-'')" "\<not> is_lower_hex (CHR ''.'')"
  by (simp_all add: lower_char_def is_lower_hex_def is_digit_def)

lemma normalizeMac_hex:
  assumes "filter is_lower_hex (to_lower s) = h" and "length h = 12"
  shows "normalizeMac s = [colon_form h, dot_form h]"
proof -
  have "filter (\<lambda>r. is_digit r \<or> 97 \<le> byte_of r \<and> byte_of r \<le> 102) (to_lower s) = h"
    using assms(1) unfolding is_lower_hex_def .
  with assms(2) show ?thesis by (simp add: normalizeMac_def Let_def)
qed

lemma twelve: "length h = 12 \<Longrightarrow>
    \<exists>a b c d e f a' b' c' d' e' f'. h = [a, b, c, d, e, f, a', b', c', d', e', f']"
  by (auto simp: length_Suc_conv eval_nat_numeral)

definition dash_form :: "string \<Rightarrow> string" where
  "dash_form h = map (\<lambda>c. if c = CHR '':'' then CHR ''-'' else c) (colon_form h)"

lemma hex_not_colon: "is_hex c \<Longrightarrow> c \<noteq> CHR '':''"
  by (auto simp: is_hex_def is_digit_def)

lemma mac_spellings:
  assumes "length h = 12" and "list_all is_hex h" and "s \<in> {h, colon_form h, dash_form h, dot_form h}"
  shows "MacRe s \<and> filter is_lower_hex (to_lower s) = to_lower h"
proof -
  obtain a b c d e f a' b' c' d' e' f' where h: "h = [a, b, c, d, e, f, a', b', c', d', e', f']"
    using twelve [OF assms(1)] by blast
  note hex = assms(2) [unfolded h]
  have five: "(5 :: nat) = Suc (Suc (Suc (Suc (Suc 0))))" by simp
  from assms(3) consider "s = h" | "s = colon_form h" | "s = dash_form h" | "s = dot_form h" by blast
  then show ?thesis
  proof cases
    case 1
    with hex show ?thesis by (simp add: h MacRe_def to_lower_def lower_hex)
  next
    case 2
    with hex show ?thesis
      by (simp add: h MacRe_def to_lower_def lower_hex colon_form_def separators five)
  next
    case 3
    with hex show ?thesis
      by (simp add: h MacRe_def to_lower_def lower_hex dash_form_def colon_form_def separators
          hex_not_colon five)
  next
    case 4
    with hex show ?thesis
      by (simp add: h MacRe_def to_lower_def lower_hex dot_form_def separators)
  qed
qed

subsection \<open>What a search returns\<close>

lemma first_best_mem: "first_best better rs = Some r \<Longrightarrow> r \<in> set rs"
proof -
  have "fold (\<lambda>x b. if better x b then x else b) xs b \<in> insert b (set xs)" for xs and b :: 'a
    by (induction xs arbitrary: b) auto
  then show "first_best better rs = Some r \<Longrightarrow> r \<in> set rs"
    by (auto simp: first_best_def split: list.splits)
qed

lemma first_best_ex: "rs \<noteq> [] \<Longrightarrow> \<exists>r. first_best better rs = Some r"
  by (cases rs) (auto simp: first_best_def)

lemma set_map_filter: "set (List.map_filter f xs) = {y. \<exists>x \<in> set xs. f x = Some y}"
  by (induction xs) (auto simp: List.map_filter_simps split: option.split)

lemma distinct_on_mem: "r \<in> set (distinct_on key better rs) \<Longrightarrow> r \<in> set rs"
  by (auto simp: distinct_on_def set_map_filter dest!: first_best_mem)

lemma distinct_on_key:
  assumes "r \<in> set rs"
  shows "\<exists>r' \<in> set (distinct_on key better rs). key r' = key r"
proof -
  have "filter (\<lambda>x. key x = key r) rs \<noteq> []" using assms by (auto simp: filter_empty_conv)
  then obtain r' where r': "first_best better (filter (\<lambda>x. key x = key r) rs) = Some r'"
    using first_best_ex by blast
  from first_best_mem [OF r'] have "key r' = key r" by simp
  moreover have "r' \<in> set (distinct_on key better rs)"
    using assms r' by (auto simp: distinct_on_def set_map_filter)
  ultimately show ?thesis by blast
qed

lemma set_searchSQL: "set (searchSQL d ms xs) = set (searchSQL_macs d ms xs) \<union> set (searchSQL_arps d xs)"
  by (simp add: searchSQL_def)

lemma mac_result_mac: "srMac (mac_result d m) = rmMac m"
  by (simp add: mac_result_def Let_def)

lemma searchSQL_mac:
  assumes "m \<in> snd ` set (rows (macT d))" and "to_lower (rmMac m) \<in> set ms"
  shows "\<exists>r \<in> set (searchSQL d ms xs). srMac r = rmMac m"
proof -
  from assms(1) have "m \<in> set (map snd (rows (macT d)))" by simp
  from distinct_on_key [OF this, of rmMac] obtain m' where "m' \<in> set (best_mac d)" "rmMac m' = rmMac m"
    unfolding best_mac_def by blast
  with assms(2) have "mac_result d m' \<in> set (searchSQL_macs d ms xs)"
    by (simp add: searchSQL_macs_def mac_result_mac)
  then have "mac_result d m' \<in> set (searchSQL d ms xs)" by (simp add: set_searchSQL)
  moreover have "srMac (mac_result d m') = rmMac m"
    using \<open>rmMac m' = rmMac m\<close> by (simp add: mac_result_mac)
  ultimately show ?thesis by blast
qed

subsection \<open>Terms\<close>

text \<open>The records of a list of terms, and the MACs collected for them.\<close>

definition record_of :: "string \<Rightarrow> term_record option" where
  "record_of t0 =
     (let t = TrimSpace t0 in
      if t = [] then None
      else if MacRe t then Some \<lparr>trOriginal = t, trKind = KMac, trLookFor = normalizeMac t\<rparr>
      else if IPRe t then Some \<lparr>trOriginal = t, trKind = KIp, trLookFor = [t]\<rparr>
      else if HostRe t then Some \<lparr>trOriginal = t, trKind = KHostname, trLookFor = []\<rparr>
      else None)"

lemma add_frames [simp]:
  "records (add_mac n st) = records st" "records (add_ip n st) = records st"
  "records (add_hostname n st) = records st" "macs (add_ip n st) = macs st"
  "macs (add_hostname n st) = macs st" "macs (add_record t k l st) = macs st"
  "records (fold add_mac ns st) = records st"
  by (simp_all add: add_mac_def add_ip_def add_hostname_def add_record_def)
     (induction ns arbitrary: st; simp add: add_mac_def)

lemma records_classify:
  "records (fold classify_term ts st) = records st @ List.map_filter record_of ts"
proof (induction ts arbitrary: st)
  case (Cons t ts)
  have "records (classify_term t st) = records st @ (case record_of t of None \<Rightarrow> [] | Some r \<Rightarrow> [r])"
    by (simp add: classify_term_def record_of_def Let_def) (simp add: add_record_def)
  with Cons show ?case by (simp add: List.map_filter_simps split: option.split)
qed (simp add: List.map_filter_simps)

text \<open>Every MAC form seen was collected as one: what else is seen is not a MAC.\<close>

lemma hex_pairs_count: "hex_pairs n s \<Longrightarrow> length (filter is_lower_hex (to_lower s)) = 2 * n + 2"
  by (induction n s rule: hex_pairs.induct) (auto simp: to_lower_def lower_hex separators)

lemma list_all_hex_count: "list_all is_hex s \<Longrightarrow> filter is_lower_hex (to_lower s) = to_lower s"
  by (induction s) (simp_all add: to_lower_def lower_hex)

lemma length_to_lower [simp]: "length (to_lower s) = length s"
  by (simp add: to_lower_def)

lemma dotted_split:
  assumes "length s = 14"
  shows "s = take 4 s @ (s ! 4) # take 4 (drop 5 s) @ (s ! 9) # drop 10 s"
proof -
  have "s = take 4 s @ drop 4 s" by simp
  also have "drop 4 s = s ! 4 # drop 5 s" using assms Cons_nth_drop_Suc [of 4 s] by simp
  also have "drop 5 s = take 4 (drop 5 s) @ drop 9 s" using append_take_drop_id [of 4 "drop 5 s"] by simp
  also have "drop 9 s = s ! 9 # drop 10 s" using assms Cons_nth_drop_Suc [of 9 s] by simp
  finally show ?thesis by simp
qed

lemma MacRe_count:
  assumes "MacRe s"
  shows "length (filter is_lower_hex (to_lower s)) = 12"
  using assms unfolding MacRe_def
proof (elim disjE conjE)
  assume "hex_pairs 5 s"
  then show ?thesis using hex_pairs_count [of 5 s] by simp
next
  assume len: "length s = 14" and parts: "list_all is_hex (take 4 s)" "s ! 4 = CHR ''.''"
    "list_all is_hex (take 4 (drop 5 s))" "s ! 9 = CHR ''.''" "list_all is_hex (drop 10 s)"
  have "filter is_lower_hex (to_lower s) =
      filter is_lower_hex (to_lower (take 4 s @ CHR ''.'' # take 4 (drop 5 s) @ CHR ''.'' # drop 10 s))"
    using dotted_split [OF len] parts(2,4) by simp
  also have "\<dots> = to_lower (take 4 s) @ to_lower (take 4 (drop 5 s)) @ to_lower (drop 10 s)"
    using parts(1,3,5) by (simp add: list_all_hex_count to_lower_def [of "_ # _"] separators
        to_lower_def [symmetric])
  finally show ?thesis using len by simp
next
  assume "length s = 12" "list_all is_hex s"
  then show ?thesis by (simp add: list_all_hex_count)
qed

lemma normalizeMac_MacRe:
  assumes "MacRe s"
  shows "\<forall>n \<in> set (normalizeMac s). MacRe n"
proof -
  let ?h = "filter is_lower_hex (to_lower s)"
  have lower: "is_hex c" if "is_lower_hex c" for c
    using that unfolding is_lower_hex_def is_hex_def by blast
  then have hex: "list_all is_hex ?h" by (simp add: list_all_iff)
  have "normalizeMac s = [colon_form ?h, dot_form ?h]"
    by (rule normalizeMac_hex [OF refl MacRe_count [OF assms]])
  moreover have "MacRe (colon_form ?h)" "MacRe (dot_form ?h)"
    using mac_spellings [OF MacRe_count [OF assms] hex] by blast+
  ultimately show ?thesis by simp
qed

definition mac_forms_collected :: "term_state \<Rightarrow> bool" where
  "mac_forms_collected st \<longleftrightarrow> (\<forall>n \<in> set (seen st). MacRe n \<longrightarrow> n \<in> set (macs st))"

lemma add_macs_collected:
  assumes "mac_forms_collected st" and "\<forall>n \<in> set ns. MacRe n"
  shows "mac_forms_collected (fold add_mac ns st) \<and>
    set (macs (fold add_mac ns st)) = set (macs st) \<union> set ns"
  using assms
proof (induction ns arbitrary: st)
  case (Cons n ns)
  have "mac_forms_collected (add_mac n st)" and "set (macs (add_mac n st)) = insert n (set (macs st))"
    using Cons.prems by (auto simp: mac_forms_collected_def add_mac_def)
  with Cons.IH [of "add_mac n st"] Cons.prems show ?case by simp
qed simp

lemma classify_collected:
  assumes "mac_forms_collected st"
  shows "mac_forms_collected (classify_term t st) \<and> set (macs st) \<subseteq> set (macs (classify_term t st)) \<and>
    (TrimSpace t \<noteq> [] \<and> MacRe (TrimSpace t) \<longrightarrow>
       set (normalizeMac (TrimSpace t)) \<subseteq> set (macs (classify_term t st)))"
proof -
  have add: "mac_forms_collected (add_record a k l st) = mac_forms_collected st" for a k l st
    by (simp add: mac_forms_collected_def add_record_def)
  have "mac_forms_collected (add_ip a st)" "mac_forms_collected (add_hostname a st)" if "\<not> MacRe a" for a
    using assms that by (auto simp: mac_forms_collected_def add_ip_def add_hostname_def)
  with add_macs_collected [OF assms normalizeMac_MacRe, of "TrimSpace t"] show ?thesis
    using assms by (auto simp: classify_term_def Let_def add)
qed

lemma classify_terms_macs:
  assumes "mac_forms_collected st" and "t \<in> set ts" and "TrimSpace t \<noteq> []" and "MacRe (TrimSpace t)"
  shows "set (normalizeMac (TrimSpace t)) \<subseteq> set (macs (fold classify_term ts st))"
proof -
  have mono: "set (macs st) \<subseteq> set (macs (fold classify_term ts st))" if "mac_forms_collected st" for ts st
    using that
  proof (induction ts arbitrary: st)
    case (Cons u ts)
    with classify_collected [of st u] show ?case by (simp, meson subset_trans)
  qed simp
  from assms(1,2) show ?thesis
  proof (induction ts arbitrary: st)
    case (Cons u ts)
    note step = classify_collected [OF Cons.prems(1), of u]
    show ?case
    proof (cases "t = u")
      case True
      then show ?thesis using step assms(3,4) mono [of "classify_term u st" ts] by auto
    next
      case False
      with Cons.IH [of "classify_term u st"] Cons.prems(2) step show ?thesis by simp
    qed
  qed simp
qed

lemma resolve_frames:
  "macs (resolve_terms lookup_host st) = macs st"
  "records (resolve_terms lookup_host st) = map (\<lambda>tr. if trKind tr = KHostname
     then tr\<lparr>trLookFor := resolved lookup_host (trOriginal tr)\<rparr> else tr) (records st)"
proof -
  have add: "macs (fold add_ip xs st) = macs st \<and> records (fold add_ip xs st) = records st" for xs st
    by (induction xs arbitrary: st) simp_all
  have "macs (fold (\<lambda>h st. fold add_ip (resolved lookup_host h) st) hs st) = macs st \<and>
      records (fold (\<lambda>h st. fold add_ip (resolved lookup_host h) st) hs st) = records st" for hs st
    by (induction hs arbitrary: st) (simp_all add: add)
  then show "macs (resolve_terms lookup_host st) = macs st"
    "records (resolve_terms lookup_host st) = map (\<lambda>tr. if trKind tr = KHostname
     then tr\<lparr>trLookFor := resolved lookup_host (trOriginal tr)\<rparr> else tr) (records st)"
    by (simp_all add: resolve_terms_def Let_def)
qed

lemma record_of_Some:
  "record_of t0 = Some r \<Longrightarrow> trOriginal r = TrimSpace t0 \<and> TrimSpace t0 \<noteq> [] \<and>
     (trKind r = KMac \<longleftrightarrow> MacRe (TrimSpace t0)) \<and>
     (trKind r = KMac \<longrightarrow> trLookFor r = normalizeMac (TrimSpace t0))"
  by (auto simp: record_of_def Let_def split: if_splits)

subsection \<open>The best row of a key\<close>

lemma first_best_min:
  assumes some: "first_best better rs = Some r" and x: "x \<in> set rs"
    and asym: "\<And>x y. better x y \<Longrightarrow> \<not> better y x"
    and trans: "\<And>x y z. \<not> better x y \<Longrightarrow> \<not> better y z \<Longrightarrow> \<not> better x z"
  shows "\<not> better x r"
proof -
  have keep: "\<not> better y (fold (\<lambda>x b. if better x b then x else b) xs b)"
    if "y = b \<or> y \<in> set xs \<or> \<not> better y b" for y xs and b :: 'a
    using that
  proof (induction xs arbitrary: b)
    case Nil
    then show ?case using asym by auto
  next
    case (Cons x xs)
    let ?b = "if better x b then x else b"
    have "y = ?b \<or> y \<in> set xs \<or> \<not> better y ?b"
      using Cons.prems asym trans [of y b x] by auto
    from Cons.IH [OF this] show ?case by simp
  qed
  from some obtain r0 rs' where "rs = r0 # rs'" "r = fold (\<lambda>x b. if better x b then x else b) rs' r0"
    by (auto simp: first_best_def split: list.splits)
  with keep [of x r0 rs'] x show ?thesis by auto
qed

lemma distinct_on_best:
  assumes r: "r \<in> set (distinct_on key better rs)" and x: "x \<in> set rs" "key x = key r"
    and asym: "\<And>x y. better x y \<Longrightarrow> \<not> better y x"
    and trans: "\<And>x y z. \<not> better x y \<Longrightarrow> \<not> better y z \<Longrightarrow> \<not> better x z"
  shows "\<not> better x r"
proof -
  from r obtain k where fb: "first_best better (filter (\<lambda>r. key r = k) rs) = Some r"
    by (auto simp: distinct_on_def set_map_filter)
  from first_best_mem [OF fb] have "key r = k" by simp
  with x have "x \<in> set (filter (\<lambda>r. key r = k) rs)" by simp
  then have member: "x \<in> set (filter (\<lambda>r. key r = k) rs)" .
  show ?thesis
  proof (rule first_best_min [where better = better, OF fb member])
    show "\<not> better b a" if "better a b" for a b using that by (rule asym)
    show "\<not> better a c" if "\<not> better a b" "\<not> better b c" for a b c using that by (rule trans)
  qed
qed

lemma distinct_on_distinct: "distinct (map key (distinct_on key better rs))"
proof -
  let ?best = "\<lambda>k. first_best better (filter (\<lambda>r. key r = k) rs)"
  have key: "key y = k" if "?best k = Some y" for k y
    using first_best_mem [OF that] by simp
  have sub: "key ` set (List.map_filter ?best ks) \<subseteq> set ks" for ks
    unfolding set_map_filter using key by blast
  have "distinct (map key (List.map_filter ?best ks))" if "distinct ks" for ks
    using that
  proof (induction ks)
    case (Cons k ks)
    show ?case
    proof (cases "?best k")
      case None
      with Cons show ?thesis by (simp add: List.map_filter_simps)
    next
      case (Some y)
      with key [OF Some] sub [of ks] Cons show ?thesis
        by (simp add: List.map_filter_simps) blast
    qed
  qed (simp add: List.map_filter_simps)
  then show ?thesis by (simp add: distinct_on_def)
qed

lemma best_mac_best:
  assumes "m \<in> set (best_mac d)" and "x \<in> snd ` set (rows (macT d))" and "rmMac x = rmMac m"
  shows "iface_rank (rmInterface m) < iface_rank (rmInterface x) \<or>
    iface_rank (rmInterface m) = iface_rank (rmInterface x) \<and> rmAt x \<le> rmAt m"
proof -
  have "x \<in> set (map snd (rows (macT d)))" using assms(2) by simp
  then have "\<not> (iface_rank (rmInterface x) < iface_rank (rmInterface m) \<or>
      iface_rank (rmInterface x) = iface_rank (rmInterface m) \<and> rmAt x > rmAt m)"
    by (rule distinct_on_best [OF assms(1) [unfolded best_mac_def] _ assms(3)]) linarith+
  then show ?thesis by linarith
qed

lemma best_mac_mem: "m \<in> set (best_mac d) \<Longrightarrow> m \<in> snd ` set (rows (macT d))"
  unfolding best_mac_def by (drule distinct_on_mem) simp

lemma latest_arp_newest:
  assumes "b \<in> set (latest_arp d)" and "a \<in> snd ` set (rows (arpT d))" and "raMac a = raMac b"
  shows "raAt a \<le> raAt b"
proof -
  have "a \<in> set (map snd (rows (arpT d)))" using assms(2) by simp
  then have "\<not> raAt a > raAt b"
    by (rule distinct_on_best [OF assms(1) [unfolded latest_arp_def] _ assms(3)]) linarith+
  then show ?thesis by linarith
qed

lemma latest_arp_mem: "b \<in> set (latest_arp d) \<Longrightarrow> b \<in> snd ` set (rows (arpT d))"
  unfolding latest_arp_def by (drule distinct_on_mem) simp

lemma arp_of_mac_Some: "arp_of_mac d mac = Some b \<Longrightarrow> b \<in> set (latest_arp d) \<and> raMac b = Some mac"
  by (auto simp: arp_of_mac_def find_Some_iff)

lemma arp_of_mac_newest:
  assumes "arp_of_mac d k = Some a"
  shows "a \<in> snd ` set (rows (arpT d)) \<and> raMac a = Some k \<and>
    (\<forall>y \<in> snd ` set (rows (arpT d)). raMac y = Some k \<longrightarrow> raAt y \<le> raAt a)"
proof -
  from arp_of_mac_Some [OF assms] have l: "a \<in> set (latest_arp d)" and k: "raMac a = Some k" by blast+
  show ?thesis using latest_arp_newest [OF l] latest_arp_mem [OF l] k by simp
qed

lemma macs_result_best:
  assumes "r \<in> set (searchSQL_macs d ms xs)"
  shows "\<exists>m \<in> snd ` set (rows (macT d)).
        srNode r = rmNode m \<and> srMac r = rmMac m \<and> srInterface r = rmInterface m \<and>
        (\<forall>x \<in> snd ` set (rows (macT d)). rmMac x = rmMac m \<longrightarrow>
           iface_rank (rmInterface m) < iface_rank (rmInterface x) \<or>
           iface_rank (rmInterface m) = iface_rank (rmInterface x) \<and> rmAt x \<le> rmAt m) \<and>
        (\<forall>ip. srIp r = Some ip \<longrightarrow>
           (\<exists>a \<in> snd ` set (rows (arpT d)). raMac a = Some (rmMac m) \<and> raIp a = ip \<and>
              (\<forall>y \<in> snd ` set (rows (arpT d)). raMac y = Some (rmMac m) \<longrightarrow> raAt y \<le> raAt a)))"
proof -
  from assms obtain m where m: "m \<in> set (best_mac d)" and r: "r = mac_result d m"
    unfolding searchSQL_macs_def by auto
  have fields: "srNode r = rmNode m" "srMac r = rmMac m" "srInterface r = rmInterface m"
    and ip: "srIp r = map_option raIp (arp_of_mac d (rmMac m))"
    by (simp_all add: r mac_result_def Let_def)
  have arp: "\<exists>a \<in> snd ` set (rows (arpT d)). raMac a = Some (rmMac m) \<and> raIp a = i \<and>
      (\<forall>y \<in> snd ` set (rows (arpT d)). raMac y = Some (rmMac m) \<longrightarrow> raAt y \<le> raAt a)"
    if "srIp r = Some i" for i
  proof -
    from that ip obtain a where a: "arp_of_mac d (rmMac m) = Some a" "raIp a = i" by auto
    show ?thesis by (rule bexI [of _ a]) (use arp_of_mac_newest [OF a(1)] a(2) in simp_all)
  qed
  show ?thesis
    by (rule bexI [OF _ best_mac_mem [OF m]], intro conjI ballI impI allI)
       (fact fields, fact fields, fact fields, erule (1) best_mac_best [OF m], erule arp)
qed

lemma arps_result_best:
  assumes "r \<in> set (searchSQL_arps d xs)"
  shows "\<exists>a \<in> snd ` set (rows (arpT d)).
        srNode r = raNode a \<and> srIp r = Some (raIp a) \<and> srInterface r = None \<and>
        (\<forall>y \<in> snd ` set (rows (arpT d)). raIp y = raIp a \<longrightarrow> raAt y \<le> raAt a) \<and>
        (\<forall>m \<in> snd ` set (rows (macT d)). map_option to_lower (raMac a) \<noteq> Some (to_lower (rmMac m)))"
proof -
  from assms obtain a where a: "a \<in> set (distinct_on raIp (\<lambda>x b. raAt x > raAt b)
        (filter (\<lambda>a. raIp a \<in> set xs) (map snd (rows (arpT d)))))"
    and none: "\<not> list_ex (\<lambda>m. Some (to_lower (rmMac m)) = map_option to_lower (raMac a)) (map snd (rows (macT d)))"
    and r: "srNode r = raNode a" "srIp r = Some (raIp a)" "srInterface r = None"
    unfolding searchSQL_arps_def by auto
  from distinct_on_mem [OF a] have mem: "a \<in> snd ` set (rows (arpT d))" "raIp a \<in> set xs" by auto
  have newest: "raAt y \<le> raAt a" if y: "y \<in> snd ` set (rows (arpT d))" "raIp y = raIp a" for y
  proof -
    have "y \<in> set (filter (\<lambda>a. raIp a \<in> set xs) (map snd (rows (arpT d))))" using y mem(2) by simp
    then have "\<not> raAt y > raAt a" by (rule distinct_on_best [OF a _ y(2)]) linarith+
    then show ?thesis by linarith
  qed
  have no_mac: "map_option to_lower (raMac a) \<noteq> Some (to_lower (rmMac m))"
    if "m \<in> snd ` set (rows (macT d))" for m
    using none that by (auto simp: list_ex_iff)
  show ?thesis
    by (rule bexI [OF _ mem(1)], intro conjI ballI impI)
       (fact r, fact r, fact r, erule (1) newest, erule no_mac)
qed

lemma result_asked:
  "r \<in> set (searchSQL d ms xs) \<Longrightarrow> to_lower (srMac r) \<in> set ms \<or> (\<exists>ip \<in> set xs. srIp r = Some ip)"
  unfolding set_searchSQL
  by (auto simp: searchSQL_macs_def searchSQL_arps_def split: option.splits dest!: distinct_on_mem)

subsection \<open>Properties\<close>

text \<open>A MAC address may be written with colons, with dashes, in Cisco dots or bare, in either case:
  every spelling is recognised as a MAC and normalised to the same two lower-case forms, colons and
  dots.\<close>

theorem normalizeMac_spellings:
  assumes "length h = 12" and "list_all is_hex h"
    and "s \<in> {h, colon_form h, dash_form h, dot_form h}"
  shows "MacRe s \<and> normalizeMac s = [colon_form (to_lower h), dot_form (to_lower h)]"
  using mac_spellings [OF assms] normalizeMac_hex [of s "to_lower h"] assms(1) by simp

theorem normalizeMac_spellings_witness:
  "normalizeMac ''00-11-22-AA-33-BB'' = [''00:11:22:aa:33:bb'', ''0011.22aa.33bb'']"
proof -
  have "''00-11-22-AA-33-BB'' = dash_form ''001122AA33BB''"
    by (simp add: dash_form_def colon_form_def)
  moreover have "char_of (97 :: nat) = CHR ''a''" "char_of (98 :: nat) = CHR ''b''" by code_simp+
  ultimately show ?thesis
    using normalizeMac_spellings [of "''001122AA33BB''" "''00-11-22-AA-33-BB''"]
    by (simp add: is_hex_def is_digit_def to_lower_def lower_char_def colon_form_def dot_form_def)
qed


lemma mac_term_answered:
  assumes "Option.bind body (unmarshal_struct store_terms []) = Some terms" and "t \<in> set terms"
    and "MacRe (TrimSpace t)" and "m \<in> snd ` set (rows (macT d))"
    and "to_lower (rmMac m) \<in> set (normalizeMac (TrimSpace t))"
    and arrange: "\<And>rs. mset (arrange rs) = mset rs"
  shows "\<exists>rsp. SearchHandler lookup_host arrange False d ''POST'' body = Reply 200 rsp \<and>
    (\<exists>r \<in> set (spResults rsp). srMac r = rmMac m) \<and> TrimSpace t \<notin> set (spNotFound rsp)"
proof -
  define st where "st = resolve_terms lookup_host (fold classify_term terms no_terms)"
  have ne: "TrimSpace t \<noteq> []" using assms(3) by (auto simp: MacRe_def)
  have "mac_forms_collected no_terms" by (simp add: mac_forms_collected_def no_terms_def)
  from classify_terms_macs [OF this assms(2) ne assms(3)] assms(5)
  have mac: "to_lower (rmMac m) \<in> set (macs st)" by (auto simp: st_def resolve_frames)
  from searchSQL_mac [OF assms(4) mac] obtain r
    where r: "r \<in> set (searchSQL d (macs st) (ips st))" "srMac r = rmMac m" by blast
  have r': "r \<in> set (arrange (searchSQL d (macs st) (ips st)))"
    using r(1) arrange [of "searchSQL d (macs st) (ips st)"] by (metis set_mset_mset)
  have matched: "term_matched (arrange (searchSQL d (macs st) (ips st))) tr"
    if tr: "tr \<in> set (records st)" "trOriginal tr = TrimSpace t" for tr
  proof -
    from tr obtain tr0 t0 where "record_of t0 = Some tr0" and "trOriginal tr0 = TrimSpace t"
      and trd: "tr = (if trKind tr0 = KHostname
        then tr0\<lparr>trLookFor := resolved lookup_host (trOriginal tr0)\<rparr> else tr0)"
      by (auto simp: st_def resolve_frames records_classify no_terms_def set_map_filter split: if_splits)
    with record_of_Some [of t0 tr0] assms(3)
    have "trKind tr0 = KMac" and "trLookFor tr0 = normalizeMac (TrimSpace t)" by auto
    with trd r r' assms(5) show ?thesis
      by (auto simp: term_matched_def Let_def list_ex_iff)
  qed
  have "SearchHandler lookup_host arrange False d ''POST'' body = Reply 200 \<lparr>
      spResults = arrange (searchSQL d (macs st) (ips st)),
      spNotFound = map trOriginal
        (filter (\<lambda>tr. \<not> term_matched (arrange (searchSQL d (macs st) (ips st))) tr) (records st))\<rparr>"
    using assms(1) mac by (auto simp: SearchHandler_def Let_def st_def)
  then show ?thesis using r(2) r' matched by auto
qed

text \<open>C18. A MAC term is answered. If a row of the MAC table has the address, in whatever spelling the
  client used that normalises to it, the POST is answered 200 with a result for that address, and the
  term is not listed as not found.\<close>

theorem search_finds_mac:
  assumes "Option.bind body (unmarshal_struct store_terms []) = Some terms" and "t \<in> set terms"
    and "MacRe (TrimSpace t)" and "m \<in> snd ` set (rows (macT d))"
    and "to_lower (rmMac m) \<in> set (normalizeMac (TrimSpace t))"
    and arrange: "\<And>rs. mset (arrange rs) = mset rs"
  shows "\<exists>rsp. SearchHandler lookup_host arrange False d ''POST'' body = Reply 200 rsp \<and>
    (\<exists>r \<in> set (spResults rsp). srMac r = rmMac m) \<and> TrimSpace t \<notin> set (spNotFound rsp)"
  using mac_term_answered [OF assms] .


text \<open>An IP address as a term: it is no MAC, and once seen it was collected as an address.\<close>

lemma split_dots_count: "length (split_dots acc s) = 1 + length (filter (\<lambda>c. c = CHR ''.'') s)"
  by (induction acc s rule: split_dots.induct) simp_all

lemma hex_no_dot: "list_all is_hex s \<Longrightarrow> filter (\<lambda>c. c = CHR ''.'') s = []"
  by (induction s) (auto simp: is_hex_def is_digit_def)

lemma hex_pairs_no_dot: "hex_pairs n s \<Longrightarrow> filter (\<lambda>c. c = CHR ''.'') s = []"
  by (induction n s rule: hex_pairs.induct) (auto simp: is_hex_def is_digit_def)

lemma MacRe_dots:
  assumes "MacRe s"
  shows "length (filter (\<lambda>c. c = CHR ''.'') s) \<le> 2"
  using assms unfolding MacRe_def
proof (elim disjE conjE)
  assume len: "length s = 14" and "list_all is_hex (take 4 s)"
    "list_all is_hex (take 4 (drop 5 s))" "list_all is_hex (drop 10 s)"
  then have "length (filter (\<lambda>c. c = CHR ''.'') (take 4 s @ s ! 4 # take 4 (drop 5 s) @ s ! 9 # drop 10 s)) \<le> 2"
    by (simp add: hex_no_dot)
  with dotted_split [OF len] show ?thesis by simp
qed (simp_all add: hex_no_dot hex_pairs_no_dot)

lemma IPRe_not_MacRe: "IPRe s \<Longrightarrow> \<not> MacRe s"
  using MacRe_dots [of s] split_dots_count [of "[]" s] by (auto simp: IPRe_def Let_def)

lemma ips_frames [simp]:
  "ips (add_mac n st) = ips st" "ips (add_hostname n st) = ips st" "ips (add_record u k l st) = ips st"
  "ips (fold add_mac ns st) = ips st"
  by (simp_all add: add_mac_def add_hostname_def add_record_def) (induction ns arbitrary: st; simp add: add_mac_def)

definition ip_terms_collected :: "term_state \<Rightarrow> bool" where
  "ip_terms_collected st \<longleftrightarrow> (\<forall>n \<in> set (seen st). IPRe n \<longrightarrow> n \<in> set (ips st))"

lemma add_macs_seen: "set (seen (fold add_mac ns st)) \<subseteq> set (seen st) \<union> set ns"
  by (induction ns arbitrary: st) (fastforce simp: add_mac_def split: if_splits)+

lemma classify_ips:
  assumes "ip_terms_collected st"
  shows "ip_terms_collected (classify_term t st) \<and> set (ips st) \<subseteq> set (ips (classify_term t st)) \<and>
    (IPRe (TrimSpace t) \<longrightarrow> TrimSpace t \<in> set (ips (classify_term t st)))"
proof -
  let ?t = "TrimSpace t"
  have rec': "ip_terms_collected (add_record a k l st) = ip_terms_collected st" for a k l st
    by (simp add: ip_terms_collected_def) (simp add: add_record_def)
  have ne: "?t \<noteq> []" if "IPRe ?t" using that by (auto simp: IPRe_def)
  consider (none) "classify_term t st = st" "\<not> IPRe ?t"
    | (mac) "MacRe ?t" "classify_term t st = add_record ?t KMac (normalizeMac ?t) (fold add_mac (normalizeMac ?t) st)"
    | (ip) "classify_term t st = add_record ?t KIp [?t] (add_ip ?t st)"
    | (host) "\<not> IPRe ?t" "classify_term t st = add_record ?t KHostname [] (add_hostname ?t st)"
    using ne by (simp add: classify_term_def Let_def) metis
  then show ?thesis
  proof cases
    case none
    with assms show ?thesis by simp
  next
    case mac
    have "\<forall>n \<in> set (normalizeMac ?t). \<not> IPRe n"
      using normalizeMac_MacRe [OF mac(1)] IPRe_not_MacRe by blast
    then have "ip_terms_collected (fold add_mac (normalizeMac ?t) st)"
      using assms add_macs_seen [of "normalizeMac ?t" st] unfolding ip_terms_collected_def by auto
    with mac show ?thesis using IPRe_not_MacRe by (auto simp: rec')
  next
    case ip
    have "ip_terms_collected (add_ip ?t st)"
      using assms by (auto simp: ip_terms_collected_def add_ip_def)
    moreover have "IPRe ?t \<Longrightarrow> ?t \<in> set (ips (add_ip ?t st))"
      using assms by (auto simp: ip_terms_collected_def add_ip_def)
    moreover have "set (ips st) \<subseteq> set (ips (add_ip ?t st))" by (auto simp: add_ip_def)
    ultimately show ?thesis using ip by (simp add: rec')
  next
    case host
    have "ip_terms_collected (add_hostname ?t st)"
      using assms host(1) by (auto simp: ip_terms_collected_def add_hostname_def)
    with host show ?thesis by (simp add: rec')
  qed
qed

lemma classify_terms_ips:
  assumes "ip_terms_collected st" and "t \<in> set ts" and "IPRe (TrimSpace t)"
  shows "TrimSpace t \<in> set (ips (fold classify_term ts st))"
proof -
  have mono: "set (ips st) \<subseteq> set (ips (fold classify_term ts st))" if "ip_terms_collected st" for ts st
    using that
  proof (induction ts arbitrary: st)
    case (Cons u ts)
    with classify_ips [of st u] show ?case by (simp, meson subset_trans)
  qed simp
  from assms(1,2) show ?thesis
  proof (induction ts arbitrary: st)
    case (Cons u ts)
    note step = classify_ips [OF Cons.prems(1), of u]
    show ?case
    proof (cases "t = u")
      case True
      then show ?thesis using step assms(3) mono [of "classify_term u st" ts] by auto
    next
      case False
      with Cons.IH [of "classify_term u st"] Cons.prems(2) step show ?thesis by simp
    qed
  qed simp
qed

lemma resolve_ips: "set (ips st) \<subseteq> set (ips (resolve_terms lookup_host st))"
proof -
  have add: "set (ips st) \<subseteq> set (ips (fold add_ip xs st))" for xs st
  proof (induction xs arbitrary: st)
    case (Cons x xs)
    have "set (ips st) \<subseteq> set (ips (add_ip x st))" by (auto simp: add_ip_def)
    with Cons.IH [of "add_ip x st"] show ?case by auto
  qed simp
  have "set (ips st) \<subseteq> set (ips (fold (\<lambda>h st. fold add_ip (resolved lookup_host h) st) hs st))" for hs
  proof (induction hs arbitrary: st)
    case (Cons h hs)
    show ?case using add [of st "resolved lookup_host h"] Cons [of "fold add_ip (resolved lookup_host h) st"] by simp
  qed simp
  then show ?thesis by (simp add: resolve_terms_def Let_def)
qed

text \<open>An ARP entry that is strictly the newest where the query keeps one is what the query answers with.\<close>

definition newest_arp :: "db \<Rightarrow> (arp_row \<Rightarrow> 'k) \<Rightarrow> arp_row \<Rightarrow> bool" where
  "newest_arp d f a \<longleftrightarrow> a \<in> snd ` set (rows (arpT d)) \<and>
     (\<forall>b \<in> snd ` set (rows (arpT d)). f b = f a \<longrightarrow> b = a \<or> raAt b < raAt a)"

lemma distinct_on_newest:
  assumes "a \<in> set rs" and "\<forall>b \<in> set rs. f b = f a \<longrightarrow> b = a \<or> raAt b < raAt a"
  shows "a \<in> set (distinct_on f (\<lambda>x b. raAt x > raAt b) rs)"
proof -
  from distinct_on_key [OF assms(1), of f "\<lambda>x b. raAt x > raAt b"] obtain b where
    b: "b \<in> set (distinct_on f (\<lambda>x b. raAt x > raAt b) rs)" "f b = f a" by blast
  have "\<not> raAt a > raAt b"
    by (rule distinct_on_best [OF b(1) assms(1) b(2) [symmetric]]) linarith+
  with distinct_on_mem [OF b(1)] b(2) assms(2) have "b = a" by fastforce
  with b(1) show ?thesis by simp
qed

lemma searchSQL_ip:
  assumes "raIp a \<in> set xs"
    and "(\<exists>m \<in> snd ` set (rows (macT d)). raMac a = Some (rmMac m)) \<and> newest_arp d raMac a \<or>
         (\<forall>m \<in> snd ` set (rows (macT d)). map_option to_lower (raMac a) \<noteq> Some (to_lower (rmMac m))) \<and>
           newest_arp d raIp a"
  shows "\<exists>r \<in> set (searchSQL d ms xs). srIp r = Some (raIp a) \<and>
    srMac r = (case raMac a of Some m \<Rightarrow> m | None \<Rightarrow> [])"
  using assms(2)
proof (elim disjE conjE bexE)
  fix m assume m: "m \<in> snd ` set (rows (macT d))" "raMac a = Some (rmMac m)" and new: "newest_arp d raMac a"
  have "a \<in> set (latest_arp d)"
    using new unfolding newest_arp_def latest_arp_def by (intro distinct_on_newest) auto
  moreover have "distinct (map raMac (latest_arp d))"
    unfolding latest_arp_def by (rule distinct_on_distinct)
  ultimately have a: "arp_of_mac d (rmMac m) = Some a"
    using find_Some_unique [of raMac "latest_arp d" a] m(2) by (simp add: arp_of_mac_def)
  have "m \<in> set (map snd (rows (macT d)))" using m(1) by simp
  from distinct_on_key [OF this, of rmMac] obtain m' where m': "m' \<in> set (best_mac d)" "rmMac m' = rmMac m"
    unfolding best_mac_def by blast
  have ip: "srIp (mac_result d m') = Some (raIp a)" "srMac (mac_result d m') = rmMac m"
    by (simp_all add: mac_result_def Let_def m'(2) a)
  then have "mac_result d m' \<in> set (searchSQL_macs d ms xs)"
    using m'(1) assms(1) by (simp add: searchSQL_macs_def)
  with ip m(2) show ?thesis by (auto simp: set_searchSQL)
next
  assume none: "\<forall>m \<in> snd ` set (rows (macT d)). map_option to_lower (raMac a) \<noteq> Some (to_lower (rmMac m))"
    and new: "newest_arp d raIp a"
  have "a \<in> set (distinct_on raIp (\<lambda>x b. raAt x > raAt b)
      (filter (\<lambda>a. raIp a \<in> set xs) (map snd (rows (arpT d)))))"
    using new assms(1) unfolding newest_arp_def by (intro distinct_on_newest) auto
  moreover have "\<not> list_ex (\<lambda>m. Some (to_lower (rmMac m)) = map_option to_lower (raMac a)) (map snd (rows (macT d)))"
    using none unfolding list_ex_iff set_map by metis
  ultimately show ?thesis
    by (force simp: set_searchSQL searchSQL_arps_def)
qed

text \<open>C20. An IP term is answered when the tables let the query see it: if the MAC of an ARP entry with that IP
  is in the MAC table and the entry is the newest of its MAC, or the MAC is in no row of the MAC table
  and the entry is the newest of its IP, the POST is answered 200 with a result for that IP and MAC,
  and the term is not listed as not found.\<close>

theorem search_finds_ip:
  assumes "Option.bind body (unmarshal_struct store_terms []) = Some terms" and "t \<in> set terms"
    and "IPRe (TrimSpace t)" and "raIp a = TrimSpace t"
    and "(\<exists>m \<in> snd ` set (rows (macT d)). raMac a = Some (rmMac m)) \<and> newest_arp d raMac a \<or>
         (\<forall>m \<in> snd ` set (rows (macT d)). map_option to_lower (raMac a) \<noteq> Some (to_lower (rmMac m))) \<and>
           newest_arp d raIp a"
    and arrange: "\<And>rs. mset (arrange rs) = mset rs"
  shows "\<exists>rsp. SearchHandler lookup_host arrange False d ''POST'' body = Reply 200 rsp \<and>
    (\<exists>r \<in> set (spResults rsp). srIp r = Some (TrimSpace t) \<and>
       srMac r = (case raMac a of Some m \<Rightarrow> m | None \<Rightarrow> [])) \<and>
    TrimSpace t \<notin> set (spNotFound rsp)"
proof -
  define st where "st = resolve_terms lookup_host (fold classify_term terms no_terms)"
  have "ip_terms_collected no_terms" by (simp add: ip_terms_collected_def no_terms_def)
  from classify_terms_ips [OF this assms(2,3)] resolve_ips
  have ip: "TrimSpace t \<in> set (ips st)" unfolding st_def by blast
  from searchSQL_ip [OF _ assms(5), of "ips st" "macs st"] ip assms(4) obtain r
    where r: "r \<in> set (searchSQL d (macs st) (ips st))" "srIp r = Some (TrimSpace t)"
      "srMac r = (case raMac a of Some m \<Rightarrow> m | None \<Rightarrow> [])" by auto
  let ?res = "arrange (searchSQL d (macs st) (ips st))"
  have r': "r \<in> set ?res"
    using r(1) arrange [of "searchSQL d (macs st) (ips st)"] by (metis set_mset_mset)
  have matched: "term_matched ?res tr" if tr: "tr \<in> set (records st)" "trOriginal tr = TrimSpace t" for tr
  proof -
    from tr obtain tr0 t0 where "record_of t0 = Some tr0" and "trOriginal tr0 = TrimSpace t"
      and trd: "tr = (if trKind tr0 = KHostname
        then tr0\<lparr>trLookFor := resolved lookup_host (trOriginal tr0)\<rparr> else tr0)"
      by (auto simp: st_def resolve_frames records_classify no_terms_def set_map_filter split: if_splits)
    moreover from this have "trKind tr0 = KIp" "trLookFor tr0 = [TrimSpace t]"
      using assms(3) IPRe_not_MacRe [OF assms(3)] by (auto simp: record_of_def Let_def split: if_splits)
    ultimately show ?thesis
      using r' r(2) by (force simp: term_matched_def Let_def set_map_filter)
  qed
  have "SearchHandler lookup_host arrange False d ''POST'' body = Reply 200 \<lparr>
      spResults = ?res, spNotFound = map trOriginal (filter (\<lambda>tr. \<not> term_matched ?res tr) (records st))\<rparr>"
    using assms(1) ip by (auto simp: SearchHandler_def Let_def st_def)
  then show ?thesis using r(2,3) r' matched by auto
qed

text \<open>C35. An address that lost its place in the ARP lookup cannot be found. If the only ARP entry of an
  IP address has a MAC that is in the MAC table and that MAC has a newer ARP entry (of another IP), a
  search for the IP address alone returns nothing: the MAC half of the query sees only the newest entry
  of the MAC, and the ARP half skips MACs of the MAC table.\<close>

theorem search_misses_second_ip:
  assumes a: "a \<in> snd ` set (rows (arpT d))" and only: "\<And>b. b \<in> snd ` set (rows (arpT d)) \<Longrightarrow> raIp b = ip \<Longrightarrow> b = a"
    and m: "m \<in> snd ` set (rows (macT d))" "raMac a = Some (rmMac m)"
    and newer: "a' \<in> snd ` set (rows (arpT d))" "raMac a' = raMac a" "raAt a < raAt a'"
  shows "searchSQL d [] [ip] = []"
proof -
  have lost: "arp_of_mac d k \<noteq> Some a" for k
  proof
    assume "arp_of_mac d k = Some a"
    from arp_of_mac_Some [OF this] have "a \<in> set (latest_arp d)" by simp
    from latest_arp_newest [OF this newer(1,2)] newer(3) show False by simp
  qed
  have "raIp b \<noteq> ip" if "arp_of_mac d k = Some b" for b k
    using that lost only [of b] latest_arp_mem [of b d] arp_of_mac_Some [OF that] by metis
  then have "searchSQL_macs d [] [ip] = []"
    by (auto simp: searchSQL_macs_def filter_empty_conv mac_result_def Let_def split: option.splits)
  moreover have "searchSQL_arps d [ip] = []"
  proof -
    have "b = a" if "b \<in> set (distinct_on raIp (\<lambda>x b. raAt x > raAt b)
        (filter (\<lambda>a. raIp a \<in> set [ip]) (map snd (rows (arpT d)))))" for b
      using distinct_on_mem [OF that] only [of b] by auto
    moreover have "list_ex (\<lambda>m. Some (to_lower (rmMac m)) = map_option to_lower (raMac a)) (map snd (rows (macT d)))"
      using m by (auto simp: list_ex_iff)
    ultimately show ?thesis by (auto simp: searchSQL_arps_def filter_empty_conv)
  qed
  ultimately show ?thesis by (simp add: searchSQL_def)
qed


subsection \<open>Witnesses\<close>

text \<open>A host on a physical port, learned by an upstream switch on a port-channel too, with two IPs.\<close>

definition host_mac :: mac_row where
  "host_mac = \<lparr>rmNode = ''sw1'', rmMac = ''0011.22aa.33bb'', rmInterface = Some ''Gi1/0/1'', rmVlan = Some 10,
     rmType = None, rmAt = 100\<rparr>"

definition host_arp :: "string \<Rightarrow> int \<Rightarrow> arp_row" where
  "host_arp ip at = \<lparr>raNode = ''sw1'', raIp = ip, raMac = Some ''0011.22aa.33bb'', raInterface = None,
     raAge = None, raAt = at\<rparr>"

definition host_db :: db where
  "host_db = empty_db
     \<lparr>macT := \<lparr>rows = [(1, host_mac),
         (2, host_mac\<lparr>rmNode := ''core'', rmInterface := Some ''Port-channel1'', rmAt := 200\<rparr>)], next_id = 3\<rparr>,
      arpT := \<lparr>rows = [(1, host_arp ''10.0.0.1'' 100), (2, host_arp ''10.0.0.2'' 150)], next_id = 3\<rparr>\<rparr>"

lemma host_term: "MacRe ''0011.22AA.33BB''" "TrimSpace ''0011.22AA.33BB'' = ''0011.22AA.33BB''"
    "normalizeMac ''0011.22AA.33BB'' = [''00:11:22:aa:33:bb'', ''0011.22aa.33bb'']"
proof -
  have "char_of (97 :: nat) = CHR ''a''" "char_of (98 :: nat) = CHR ''b''" by code_simp+
  moreover show "MacRe ''0011.22AA.33BB''" by (simp add: MacRe_def is_hex_def is_digit_def)
  ultimately show "normalizeMac ''0011.22AA.33BB'' = [''00:11:22:aa:33:bb'', ''0011.22aa.33bb'']"
    by (simp add: normalizeMac_def to_lower_def lower_char_def is_digit_def colon_form_def dot_form_def)
  show "TrimSpace ''0011.22AA.33BB'' = ''0011.22AA.33BB''" by (rule TrimSpace_plain) simp_all
qed

theorem search_finds_mac_witness:
  "\<exists>rsp. SearchHandler (\<lambda>_. None) id False host_db ''POST''
      (Some (JObj [(''terms'', JArr [JStr ''0011.22AA.33BB''])])) = Reply 200 rsp \<and>
    (\<exists>r \<in> set (spResults rsp). srMac r = ''0011.22aa.33bb'') \<and> ''0011.22AA.33BB'' \<notin> set (spNotFound rsp)"
proof -
  have body: "Option.bind (Some (JObj [(''terms'', JArr [JStr ''0011.22AA.33BB''])]))
      (unmarshal_struct store_terms []) = Some [''0011.22AA.33BB'']"
    by (simp add: unmarshal_struct_def store_terms_def key_is_def unmarshal_slice_def string_value_def)
  have "host_mac \<in> snd ` set (rows (macT host_db))" by (simp add: host_db_def)
  moreover have "to_lower (rmMac host_mac) \<in> set (normalizeMac (TrimSpace ''0011.22AA.33BB''))"
    by (simp add: host_term host_mac_def to_lower_def lower_char_def)
  ultimately show ?thesis
    using search_finds_mac [OF body, of "''0011.22AA.33BB''" host_mac host_db id "\<lambda>_. None"]
    by (simp add: host_term host_mac_def)
qed

theorem search_finds_ip_witness:
  "\<exists>rsp. SearchHandler (\<lambda>_. None) id False host_db ''POST''
      (Some (JObj [(''terms'', JArr [JStr ''10.0.0.2''])])) = Reply 200 rsp \<and>
    (\<exists>r \<in> set (spResults rsp). srIp r = Some ''10.0.0.2'' \<and> srMac r = ''0011.22aa.33bb'') \<and>
    ''10.0.0.2'' \<notin> set (spNotFound rsp)"
proof -
  have body: "Option.bind (Some (JObj [(''terms'', JArr [JStr ''10.0.0.2''])]))
      (unmarshal_struct store_terms []) = Some [''10.0.0.2'']"
    by (simp add: unmarshal_struct_def store_terms_def key_is_def unmarshal_slice_def string_value_def)
  have trim: "TrimSpace ''10.0.0.2'' = ''10.0.0.2''" by code_simp
  have ip: "IPRe ''10.0.0.2''" by code_simp
  have mac: "host_mac \<in> snd ` set (rows (macT host_db))" by (simp add: host_db_def)
  have arp: "raMac (host_arp ''10.0.0.2'' 150) = Some (rmMac host_mac)"
    by (simp add: host_arp_def host_mac_def)
  have new: "newest_arp host_db raMac (host_arp ''10.0.0.2'' 150)"
    by (simp add: newest_arp_def host_db_def host_arp_def)
  have ip': "IPRe (TrimSpace ''10.0.0.2'')" "raIp (host_arp ''10.0.0.2'' 150) = TrimSpace ''10.0.0.2''"
    using ip by (simp_all add: trim host_arp_def)
  have "\<exists>m \<in> snd ` set (rows (macT host_db)). raMac (host_arp ''10.0.0.2'' 150) = Some (rmMac m)"
    using mac arp by (rule rev_bexI)
  from search_finds_ip [OF body _ ip' disjI1 [OF conjI [OF this new]], of id "\<lambda>_. None"]
  show ?thesis by (simp add: trim arp host_mac_def)
qed

theorem search_misses_second_ip_witness: "searchSQL host_db [] [''10.0.0.1''] = []"
  by (rule search_misses_second_ip [of "host_arp ''10.0.0.1'' 100" _ _ host_mac "host_arp ''10.0.0.2'' 150"])
     (auto simp: host_db_def host_arp_def host_mac_def)

text \<open>Asked for the newer IP, the search answers with the physical port, not the port-channel.\<close>

lemma host_found:
  "map (\<lambda>r. (srNode r, srInterface r, srIp r)) (searchSQL host_db [] [''10.0.0.2'']) =
     [(''sw1'', Some ''Gi1/0/1'', Some ''10.0.0.2'')]"
proof -
  have "char_of (112 :: nat) = CHR ''p''" by code_simp
  then show ?thesis
    by (simp add: searchSQL_def searchSQL_macs_def searchSQL_arps_def best_mac_def latest_arp_def distinct_on_def
      first_best_def mac_result_def arp_of_mac_def host_db_def host_arp_def host_mac_def iface_rank_def
      has_prefix_def to_lower_def lower_char_def List.map_filter_simps Let_def empty_db_def)
qed


end
