(* ===== verification/Modules.thy ===== *)
theory Modules imports Search IpMask "HOL-Library.Sublist" begin

text \<open>
  The smaller data modules of the web application: \<open>internal/portinfo\<close>, \<open>internal/portlookup\<close>,
  \<open>internal/vlans\<close> and \<open>internal/rdns\<close>. \<open>query k\<close> is the first value of a query parameter;
  PostgreSQL's ILIKE, the collation of \<open>ORDER BY node_id, name\<close> and reverse DNS are the parameters
  \<open>ilike\<close>, \<open>arrange\<close> and \<open>lookup_addr\<close>. \<open>PortResult.CollectedAt\<close>, the text of a time in RFC 3339 to
  the second, is the instant it denotes.
\<close>

subsection \<open>Port information\<close>

record port_result =
  prNode :: string
  prName :: string
  prDescription :: "string option"
  prShutdown :: bool
  prIp :: "string option"
  prPrefixLen :: "int option"
  prVrf :: "string option"
  prMtu :: "int option"
  prAccessVlan :: int
  prAccessName :: "string option"
  prVoiceVlan :: "int option"
  prVoiceName :: "string option"
  prCollected :: instant

text \<open>\<open>collectedAt.UTC().Format(time.RFC3339)\<close> drops the fraction of the second.\<close>

definition to_second :: "instant \<Rightarrow> instant" where
  "to_second t = t div 1000 * 1000"

definition port_of_row :: "db \<Rightarrow> if_row \<Rightarrow> port_result" where
  "port_of_row d i =
     \<lparr>prNode = riNode i, prName = riName i, prDescription = riDescription i, prShutdown = riShutdown i,
      prIp = riIp i, prPrefixLen = riPrefixLen i, prVrf = riVrf i, prMtu = riMtu i,
      prAccessVlan = riAccessVlan i, prAccessName = vlan_name d (riNode i) (Some (riAccessVlan i)),
      prVoiceVlan = riVoiceVlan i, prVoiceName = vlan_name d (riNode i) (riVoiceVlan i),
      prCollected = to_second (riAt i)\<rparr>"

definition portSQL :: "db \<Rightarrow> string \<Rightarrow> string \<Rightarrow> port_result option" where
  "portSQL d node port = map_option (port_of_row d) (get if_key (ifT d) (node, port))"

definition PortHandler ::
    "bool \<Rightarrow> db \<Rightarrow> string \<Rightarrow> (string \<Rightarrow> string) \<Rightarrow> port_result reply" where
  "PortHandler q_fails d meth query =
     (if meth \<noteq> ''GET'' then HttpError 405
      else
        let nodeID = query ''node_id''; port = query ''port'' in
        if nodeID = [] \<or> port = [] then HttpError 400
        else if q_fails then HttpError 500
        else case portSQL d nodeID port of
               None \<Rightarrow> HttpError 404
             | Some res \<Rightarrow> Reply 200 res)"

subsection \<open>VLANs of a switch\<close>

record vlan_record =
  vrVlanID :: int
  vrName :: "string option"

definition vlansSQL :: "db \<Rightarrow> string \<Rightarrow> vlan_record list" where
  "vlansSQL d node =
     map (\<lambda>r. \<lparr>vrVlanID = rvVlanId r, vrName = rvName r\<rparr>)
       (sort_key rvVlanId (filter (\<lambda>r. rvNode r = node) (map snd (rows (vlanT d)))))"

definition VlansHandler ::
    "bool \<Rightarrow> db \<Rightarrow> string \<Rightarrow> (string \<Rightarrow> string) \<Rightarrow> vlan_record list reply" where
  "VlansHandler q_fails d meth query =
     (if meth \<noteq> ''GET'' then HttpError 405
      else
        let nodeID = query ''node_id'' in
        if nodeID = [] then HttpError 400
        else if q_fails then HttpError 500
        else Reply 200 (vlansSQL d nodeID))"

subsection \<open>Port look-up\<close>

record lookup_request =
  lqSwitch :: string
  lqDescriptions :: "string list"

definition store_lookup :: "lookup_request \<Rightarrow> string \<times> json \<Rightarrow> lookup_request option" where
  "store_lookup e m =
     (let k = fst m; v = snd m in
      if key_is k ''switch'' then map_option (\<lambda>x. e\<lparr>lqSwitch := x\<rparr>) (string_value (lqSwitch e) v)
      else if key_is k ''descriptions'' then
        map_option (\<lambda>x. e\<lparr>lqDescriptions := x\<rparr>) (unmarshal_slice (string_value []) v)
      else Some e)"

definition decode_lookup :: "json option \<Rightarrow> lookup_request option" where
  "decode_lookup body =
     Option.bind body (unmarshal_struct store_lookup \<lparr>lqSwitch = [], lqDescriptions = []\<rparr>)"

record port_match =
  pmNode :: string
  pmInterface :: string
  pmDescription :: "string option"
  pmAccessVlan :: "int option"
  pmAccessName :: "string option"
  pmVoiceVlan :: "int option"
  pmVoiceName :: "string option"

definition match_of_row :: "db \<Rightarrow> if_row \<Rightarrow> port_match" where
  "match_of_row d i =
     \<lparr>pmNode = riNode i, pmInterface = riName i, pmDescription = riDescription i,
      pmAccessVlan = Some (riAccessVlan i),
      pmAccessName = vlan_name d (riNode i) (Some (riAccessVlan i)),
      pmVoiceVlan = riVoiceVlan i, pmVoiceName = vlan_name d (riNode i) (riVoiceVlan i)\<rparr>"

text \<open>A null description matches no pattern.\<close>

definition lookup_hit :: "(string \<Rightarrow> string \<Rightarrow> bool) \<Rightarrow> string \<Rightarrow> string list \<Rightarrow> if_row \<Rightarrow> bool" where
  "lookup_hit ilike sw descs i \<longleftrightarrow>
     ilike (riNode i) sw \<and>
     (case riDescription i of None \<Rightarrow> False | Some x \<Rightarrow> list_ex (ilike x) descs)"

definition lookupSQL ::
    "(string \<Rightarrow> string \<Rightarrow> bool) \<Rightarrow> (port_match list \<Rightarrow> port_match list) \<Rightarrow> db \<Rightarrow> string \<Rightarrow> string list \<Rightarrow>
     port_match list" where
  "lookupSQL ilike arrange d sw descs =
     arrange (map (match_of_row d) (filter (lookup_hit ilike sw descs) (map snd (rows (ifT d)))))"

definition LookupHandler ::
    "(string \<Rightarrow> string \<Rightarrow> bool) \<Rightarrow> (port_match list \<Rightarrow> port_match list) \<Rightarrow> bool \<Rightarrow> db \<Rightarrow> string \<Rightarrow>
     json option \<Rightarrow> port_match list reply" where
  "LookupHandler ilike arrange q_fails d meth body =
     (if meth \<noteq> ''POST'' then HttpError 405
      else case decode_lookup body of
        None \<Rightarrow> HttpError 400
      | Some req \<Rightarrow>
          if lqSwitch req = [] then HttpError 400
          else if lqDescriptions req = [] then HttpError 400
          else
            let switchPattern = ''%'' @ lqSwitch req @ ''%'';
                descPatterns = map (\<lambda>d. ''%'' @ d @ ''%'') (lqDescriptions req)
            in if q_fails then HttpError 500
               else Reply 200 (lookupSQL ilike arrange d switchPattern descPatterns))"

subsection \<open>Reverse DNS\<close>

text \<open>\<open>lookup_addr ip\<close> is \<open>None\<close> when the resolver failed or took longer than its 3 seconds.\<close>

definition rdnsHandler ::
    "(string \<Rightarrow> string list option) \<Rightarrow> string \<Rightarrow> (string \<Rightarrow> string) \<Rightarrow> string option reply" where
  "rdnsHandler lookup_addr meth query =
     (if meth \<noteq> ''GET'' then HttpError 405
      else
        let ip = query ''ip'' in
        if ip = [] \<or> \<not> IPRe ip then HttpError 400
        else case lookup_addr ip of
               None \<Rightarrow> Reply 200 None
             | Some [] \<Rightarrow> Reply 200 None
             | Some (name # _) \<Rightarrow> Reply 200 (Some (trim_suffix name ''.'')))"


subsection \<open>Rows found by their key\<close>

lemma get_row_mem: "get key t k = Some r \<Longrightarrow> r \<in> snd ` set (rows t) \<and> key r = k"
  by (force simp: get_def dest: find_Some_mem)

lemma get_unique: "table_ok key t \<Longrightarrow> r \<in> snd ` set (rows t) \<Longrightarrow> get key t (key r) = Some r"
  by (auto simp: get_Some_iff)

text \<open>The name a reply gives for a VLAN id is that of the VLAN row of the switch, if there is one.\<close>

lemma vlan_name_row:
  assumes "db_ok d" and "v \<in> snd ` set (rows (vlanT d))"
  shows "vlan_name d (rvNode v) (Some (rvVlanId v)) = rvName v"
  using get_unique [of vlan_key "vlanT d" v] assms by (simp add: vlan_name_def db_ok_def)

lemma vlan_name_none: "vlan_name d node v = Some nm \<Longrightarrow>
    \<exists>r \<in> snd ` set (rows (vlanT d)). rvNode r = node \<and> Some (rvVlanId r) = v \<and> rvName r = Some nm"
  unfolding vlan_name_def by (auto split: option.splits simp: bind_eq_Some_conv dest!: get_row_mem)

lemma vlan_name_iff:
  assumes "db_ok d"
  shows "vlan_name d node v = Some x \<longleftrightarrow>
    (\<exists>r \<in> snd ` set (rows (vlanT d)). rvNode r = node \<and> v = Some (rvVlanId r) \<and> rvName r = Some x)"
  using vlan_name_none [of d node v x] vlan_name_row [OF assms] by metis

subsection \<open>Properties\<close>

text \<open>C27. Port information: a GET that does not name a switch and a port is refused with 400, and only
  such a one; it is answered 200 exactly with the fields of the stored interface of that name, the time
  cut to the second, and a name for each of its two VLANs exactly when the VLAN row of the same switch
  and id has that name; without such an interface the answer is 404.\<close>

theorem port_info_exact:
  assumes "db_ok d"
  shows "if query ''node_id'' = [] \<or> query ''port'' = [] then PortHandler False d ''GET'' query = HttpError 400
    else case PortHandler False d ''GET'' query of
      HttpError c \<Rightarrow>
        c = 404 \<and> (\<forall>i \<in> snd ` set (rows (ifT d)). \<not> (riNode i = query ''node_id'' \<and> riName i = query ''port''))
    | Reply st res \<Rightarrow>
        st = 200 \<and>
        (\<exists>i \<in> snd ` set (rows (ifT d)).
           riNode i = query ''node_id'' \<and> riName i = query ''port'' \<and>
           prNode res = riNode i \<and> prName res = riName i \<and> prDescription res = riDescription i \<and>
           prShutdown res = riShutdown i \<and> prIp res = riIp i \<and> prPrefixLen res = riPrefixLen i \<and>
           prVrf res = riVrf i \<and> prMtu res = riMtu i \<and> prAccessVlan res = riAccessVlan i \<and>
           prVoiceVlan res = riVoiceVlan i \<and> prCollected res mod 1000 = 0 \<and>
           prCollected res \<le> riAt i \<and> riAt i < prCollected res + 1000) \<and>
        (\<forall>x. prAccessName res = Some x \<longleftrightarrow>
           (\<exists>v \<in> snd ` set (rows (vlanT d)).
              rvNode v = query ''node_id'' \<and> prAccessVlan res = rvVlanId v \<and> rvName v = Some x)) \<and>
        (\<forall>x. prVoiceName res = Some x \<longleftrightarrow>
           (\<exists>v \<in> snd ` set (rows (vlanT d)).
              rvNode v = query ''node_id'' \<and> prVoiceVlan res = Some (rvVlanId v) \<and> rvName v = Some x))"
proof (cases "query ''node_id'' = [] \<or> query ''port'' = []")
  case True
  then show ?thesis by (auto simp: PortHandler_def Let_def)
next
  case False
  let ?k = "(query ''node_id'', query ''port'')"
  show ?thesis
  proof (cases "get if_key (ifT d) ?k")
    case None
    with False have "PortHandler False d ''GET'' query = HttpError 404"
      by (simp add: PortHandler_def portSQL_def Let_def)
    moreover have "\<forall>i \<in> snd ` set (rows (ifT d)). if_key i \<noteq> ?k"
      using None by (auto simp: get_None_iff)
    ultimately show ?thesis using False by auto
  next
    case (Some i)
    have rep: "PortHandler False d ''GET'' query = Reply 200 (port_of_row d i)"
      using False Some by (simp add: PortHandler_def portSQL_def Let_def)
    from get_row_mem [OF Some] obtain n where i: "(n, i) \<in> set (rows (ifT d))" "riNode i = query ''node_id''"
      "riName i = query ''port''" by auto
    have time: "to_second (riAt i) mod 1000 = 0" "to_second (riAt i) \<le> riAt i" "riAt i < to_second (riAt i) + 1000"
      by (simp_all add: to_second_def)
    note names = vlan_name_iff [OF assms, of "query ''node_id''"]
    from False show ?thesis unfolding rep
      by (simp add: port_of_row_def i(2) names) (intro bexI [OF _ i(1)], simp add: i(2,3) time)
  qed
qed

text \<open>The VLAN list of a switch has exactly its VLAN rows, each id once with its stored name, by
  increasing id.\<close>

theorem vlans_listed_exact:
  assumes "db_ok d" and "query ''node_id'' \<noteq> []"
  shows "\<exists>vs. VlansHandler False d ''GET'' query = Reply 200 vs \<and>
    sorted_wrt (<) (map vrVlanID vs) \<and>
    (\<forall>n nm. \<lparr>vrVlanID = n, vrName = nm\<rparr> \<in> set vs \<longleftrightarrow>
       (\<exists>r \<in> snd ` set (rows (vlanT d)). rvNode r = query ''node_id'' \<and> rvVlanId r = n \<and> rvName r = nm))"
proof -
  let ?rs = "filter (\<lambda>r. rvNode r = query ''node_id'') (map snd (rows (vlanT d)))"
  have keys: "distinct (map (\<lambda>ir. vlan_key (snd ir)) (rows (vlanT d)))"
    using assms(1) by (simp add: db_ok_def table_ok_def)
  have "distinct (map rvVlanId ?rs)"
  proof -
    have "distinct (map vlan_key (map snd (rows (vlanT d))))" using keys by (simp add: comp_def)
    then have "distinct (map vlan_key ?rs)" by (rule distinct_map_filter)
    then show ?thesis by (auto simp: distinct_map inj_on_def)
  qed
  then have "distinct (map rvVlanId (sort_key rvVlanId ?rs))"
    by (simp add: distinct_map)
  then have "sorted_wrt (<) (map rvVlanId (sort_key rvVlanId ?rs))"
    by (simp add: strict_sorted_iff)
  then have srt: "sorted_wrt (<) (map vrVlanID (vlansSQL d (query ''node_id'')))"
    by (simp add: vlansSQL_def comp_def)
  have "VlansHandler False d ''GET'' query = Reply 200 (vlansSQL d (query ''node_id''))"
    using assms(2) by (simp add: VlansHandler_def Let_def)
  moreover have "\<lparr>vrVlanID = n, vrName = nm\<rparr> \<in> set (vlansSQL d (query ''node_id'')) \<longleftrightarrow>
       (\<exists>r \<in> snd ` set (rows (vlanT d)). rvNode r = query ''node_id'' \<and> rvVlanId r = n \<and> rvName r = nm)" for n nm
    by (auto simp: vlansSQL_def)
  ultimately show ?thesis using srt by blast
qed

subsection \<open>Substring patterns\<close>

definition is_ascii :: "string \<Rightarrow> bool" where
  "is_ascii s \<longleftrightarrow> list_all (\<lambda>c. byte_of c < 128) s"

text \<open>A text without the metacharacters of LIKE.\<close>

definition like_plain :: "string \<Rightarrow> bool" where
  "like_plain q \<longleftrightarrow> is_ascii q \<and> CHR ''%'' \<notin> set q \<and> CHR ''_'' \<notin> set q \<and> CHR 0x5C \<notin> set q"

text \<open>What the documentation of ILIKE says of a plain text between two \<open>%\<close>.\<close>

definition ilike_substring :: "(string \<Rightarrow> string \<Rightarrow> bool) \<Rightarrow> bool" where
  "ilike_substring ilike \<longleftrightarrow>
     (\<forall>v q. is_ascii v \<and> like_plain q \<longrightarrow>
        (ilike v (''%'' @ q @ ''%'') \<longleftrightarrow> sublist (to_lower q) (to_lower v)))"

text \<open>C26. Port look-up: a well-formed request whose texts have no wildcard is answered with exactly the
  interfaces whose switch name contains the given text and whose description contains one of the given
  texts, in any case, each once however many of the texts it contains.\<close>

theorem port_lookup_exact:
  assumes "decode_lookup body = Some req" and "lqSwitch req \<noteq> []" and "lqDescriptions req \<noteq> []"
    and "like_plain (lqSwitch req)" and "\<forall>t \<in> set (lqDescriptions req). like_plain t"
    and "\<forall>i \<in> snd ` set (rows (ifT d)). is_ascii (riNode i) \<and> pred_option is_ascii (riDescription i)"
    and ilike: "ilike_substring ilike" and arrange: "\<And>ms. mset (arrange ms) = mset ms"
  shows "\<exists>ms. LookupHandler ilike arrange False d ''POST'' body = Reply 200 ms \<and>
    mset ms = mset (map (match_of_row d) (filter
      (\<lambda>i. sublist (to_lower (lqSwitch req)) (to_lower (riNode i)) \<and>
           (\<exists>x. riDescription i = Some x \<and>
              (\<exists>t \<in> set (lqDescriptions req). sublist (to_lower t) (to_lower x))))
      (map snd (rows (ifT d)))))"
proof -
  let ?sw = "''%'' @ lqSwitch req @ ''%''" and ?ds = "map (\<lambda>d. ''%'' @ d @ ''%'') (lqDescriptions req)"
  have hit: "lookup_hit ilike ?sw ?ds i \<longleftrightarrow>
      sublist (to_lower (lqSwitch req)) (to_lower (riNode i)) \<and>
      (\<exists>x. riDescription i = Some x \<and> (\<exists>t \<in> set (lqDescriptions req). sublist (to_lower t) (to_lower x)))"
    if "i \<in> snd ` set (rows (ifT d))" for i
  proof -
    have law: "ilike v (''%'' @ q @ ''%'') \<longleftrightarrow> sublist (to_lower q) (to_lower v)"
      if "is_ascii v" "like_plain q" for v q
      using ilike that unfolding ilike_substring_def by blast
    have i: "is_ascii (riNode i)" "pred_option is_ascii (riDescription i)" using that assms(6) by blast+
    note sw = law [OF i(1) assms(4)]
    show ?thesis
    proof (cases "riDescription i")
      case (Some x)
      with i(2) have "ilike x (''%'' @ t @ ''%'') \<longleftrightarrow> sublist (to_lower t) (to_lower x)"
        if "t \<in> set (lqDescriptions req)" for t
        using law [of x t] assms(5) that by simp
      then show ?thesis using Some sw by (simp add: lookup_hit_def list_ex_iff)
    qed (simp add: lookup_hit_def)
  qed
  have "filter (lookup_hit ilike ?sw ?ds) (map snd (rows (ifT d))) = filter
      (\<lambda>i. sublist (to_lower (lqSwitch req)) (to_lower (riNode i)) \<and>
           (\<exists>x. riDescription i = Some x \<and>
              (\<exists>t \<in> set (lqDescriptions req). sublist (to_lower t) (to_lower x))))
      (map snd (rows (ifT d)))"
    by (rule filter_cong [OF refl hit]) simp
  moreover have "LookupHandler ilike arrange False d ''POST'' body = Reply 200 (lookupSQL ilike arrange d ?sw ?ds)"
    using assms(1-3) by (simp add: LookupHandler_def Let_def)
  ultimately show ?thesis by (simp add: lookupSQL_def arrange)
qed

subsection \<open>A concrete ILIKE\<close>

text \<open>The documented matching of LIKE patterns, case-insensitive on ASCII, for the witness.\<close>

fun like_match :: "string \<Rightarrow> string \<Rightarrow> bool" where
  "like_match [] [] \<longleftrightarrow> True"
| "like_match (x # v) [] \<longleftrightarrow> False"
| "like_match [] (c # p) \<longleftrightarrow> c = CHR ''%'' \<and> like_match [] p"
| "like_match (x # v) (c # p) \<longleftrightarrow>
     (if c = CHR ''%'' then like_match (x # v) p \<or> like_match v (c # p)
      else if c = CHR ''_'' then like_match v p
      else if c = CHR 0x5C then
        (case p of [] \<Rightarrow> False | e # p' \<Rightarrow> lower_char x = lower_char e \<and> like_match v p')
      else lower_char x = lower_char c \<and> like_match v p)"

lemma like_any: "like_match v ''%''"
  by (induction v) simp_all

lemma like_prefix:
  "like_plain q \<Longrightarrow> like_match v (q @ ''%'') \<longleftrightarrow> prefix (to_lower q) (to_lower v)"
proof (induction q arbitrary: v)
  case (Cons c q)
  have c: "like_plain q" "c \<noteq> CHR ''%''" "c \<noteq> CHR ''_''" "c \<noteq> CHR 0x5C"
    using Cons.prems by (auto simp: like_plain_def is_ascii_def)
  show ?case
    using Cons.IH [OF c(1)] c(2-) by (cases v) (auto simp: to_lower_def)
qed (simp add: like_any to_lower_def)

lemma Suc_ex_le: "(\<exists>k \<le> Suc n. P k) \<longleftrightarrow> P 0 \<or> (\<exists>k \<le> n. P (Suc k))"
  by (metis Suc_le_mono not0_implies_Suc zero_le)

lemma like_percent: "like_match v (CHR ''%'' # r) \<longleftrightarrow> (\<exists>k \<le> length v. like_match (drop k v) r)"
proof (induction v)
  case (Cons x v)
  have "like_match (x # v) (CHR ''%'' # r) \<longleftrightarrow> like_match (x # v) r \<or> (\<exists>k \<le> length v. like_match (drop k v) r)"
    using Cons.IH by simp
  also have "\<dots> \<longleftrightarrow> (\<exists>k \<le> Suc (length v). like_match (drop k (x # v)) r)"
    by (subst Suc_ex_le) simp
  finally show ?case by simp
qed simp

lemma like_match_substring: "ilike_substring like_match"
  unfolding ilike_substring_def
proof (intro allI impI)
  fix v q assume "is_ascii v \<and> like_plain q"
  then have "like_match v (''%'' @ q @ ''%'') \<longleftrightarrow> (\<exists>k \<le> length v. prefix (to_lower q) (drop k (to_lower v)))"
    using like_prefix [of q] by (simp add: like_percent to_lower_def drop_map)
  also have "\<dots> \<longleftrightarrow> sublist (to_lower q) (to_lower v)"
  proof
    assume "\<exists>k \<le> length v. prefix (to_lower q) (drop k (to_lower v))"
    then show "sublist (to_lower q) (to_lower v)"
      by (metis append_take_drop_id prefix_def sublist_appendI)
  next
    assume "sublist (to_lower q) (to_lower v)"
    then obtain ps ss where eq: "to_lower v = ps @ to_lower q @ ss" by (auto simp: sublist_def)
    from arg_cong [OF this, of length] have "length ps \<le> length v" by simp
    moreover have "prefix (to_lower q) (drop (length ps) (to_lower v))" by (simp add: eq)
    ultimately show "\<exists>k \<le> length v. prefix (to_lower q) (drop k (to_lower v))" by blast
  qed
  finally show "like_match v (''%'' @ q @ ''%'') \<longleftrightarrow> sublist (to_lower q) (to_lower v)" .
qed


subsection \<open>Witnesses\<close>

definition port_db :: db where
  "port_db = empty_db
     \<lparr>ifT := \<lparr>rows = [(1, \<lparr>riNode = ''core-sw1'', riName = ''Gi1/0/4'', riDescription = Some ''Room 101 - printer'',
         riShutdown = False, riIp = None, riPrefixLen = None, riVrf = None, riMtu = Some 1500,
         riAccessVlan = 10, riVoiceVlan = Some 20, riAt = 1700000000123\<rparr>)], next_id = 2\<rparr>,
      vlanT := \<lparr>rows = [(1, \<lparr>rvNode = ''core-sw1'', rvVlanId = 20, rvName = Some ''VOICE'', rvStatus = None, rvAt = 0\<rparr>),
         (2, \<lparr>rvNode = ''core-sw1'', rvVlanId = 10, rvName = Some ''USERS'', rvStatus = None, rvAt = 0\<rparr>)],
         next_id = 3\<rparr>\<rparr>"

lemma port_db_ok: "db_ok port_db"
  by (simp add: port_db_def db_ok_def empty_db_def table_ok_def empty_table_def)

theorem port_info_exact_witness:
  "\<exists>res. PortHandler False port_db ''GET'' (\<lambda>k. if k = ''node_id'' then ''core-sw1'' else ''Gi1/0/4'') =
     Reply 200 res \<and> prVoiceName res = Some ''VOICE'' \<and> prMtu res = Some 1500"
proof -
  let ?q = "\<lambda>k. if k = ''node_id'' then ''core-sw1'' else ''Gi1/0/4''"
  obtain res where rep: "PortHandler False port_db ''GET'' ?q = Reply 200 res"
    by (simp add: PortHandler_def portSQL_def get_def port_db_def Let_def)
  from port_info_exact [OF port_db_ok, of ?q, unfolded rep]
  have "prMtu res = Some 1500" and "prVoiceName res = Some ''VOICE''"
    by (simp_all add: port_db_def)
  with rep show ?thesis by blast
qed

theorem vlans_listed_exact_witness:
  "\<exists>vs. VlansHandler False port_db ''GET'' (\<lambda>_. ''core-sw1'') = Reply 200 vs \<and>
     \<lparr>vrVlanID = 10, vrName = Some ''USERS''\<rparr> \<in> set vs \<and> sorted_wrt (<) (map vrVlanID vs)"
  using vlans_listed_exact [OF port_db_ok, of "\<lambda>_. ''core-sw1''"] by (auto simp: port_db_def)

theorem port_lookup_exact_witness:
  "\<exists>ms. LookupHandler like_match id False port_db ''POST''
       (Some (JObj [(''switch'', JStr ''CORE''), (''descriptions'', JArr [JStr ''room 101'', JStr ''print''])])) =
     Reply 200 ms \<and> map pmInterface ms = [''Gi1/0/4'']"
proof -
  let ?body = "Some (JObj [(''switch'', JStr ''CORE''), (''descriptions'', JArr [JStr ''room 101'', JStr ''print''])])"
  let ?req = "\<lparr>lqSwitch = ''CORE'', lqDescriptions = [''room 101'', ''print'']\<rparr>"
  have req: "decode_lookup ?body = Some ?req"
    by (simp add: decode_lookup_def unmarshal_struct_def store_lookup_def key_is_def unmarshal_slice_def
        string_value_def Let_def)
  have plain: "like_plain ''CORE''" "like_plain ''room 101''" "like_plain ''print''"
    by (simp_all add: like_plain_def is_ascii_def)
  have asc: "\<forall>i \<in> snd ` set (rows (ifT port_db)). is_ascii (riNode i) \<and> pred_option is_ascii (riDescription i)"
    by (simp add: port_db_def is_ascii_def)
  have low: "to_lower ''CORE'' = ''core''" "to_lower ''core-sw1'' = ''core'' @ ''-sw1''"
    "to_lower ''print'' = ''print''" "to_lower ''Room 101 - printer'' = ''room 101 - '' @ ''print'' @ ''er''"
    by code_simp+
  have "sublist (to_lower ''CORE'') (to_lower ''core-sw1'')"
    unfolding low by (rule sublist_append_rightI)
  moreover have "sublist (to_lower ''print'') (to_lower ''Room 101 - printer'')"
    unfolding low by (rule sublist_appendI)
  moreover obtain ms where "LookupHandler like_match id False port_db ''POST'' ?body = Reply 200 ms"
    and "mset ms = mset (map (match_of_row port_db) (filter
      (\<lambda>i. sublist (to_lower (lqSwitch ?req)) (to_lower (riNode i)) \<and>
           (\<exists>x. riDescription i = Some x \<and>
              (\<exists>t \<in> set (lqDescriptions ?req). sublist (to_lower t) (to_lower x))))
      (map snd (rows (ifT port_db)))))"
    using port_lookup_exact [OF req _ _ _ _ asc like_match_substring, of id] plain by auto
  ultimately show ?thesis
    by (intro exI [of _ ms]) (simp add: port_db_def match_of_row_def)
qed

text \<open>The address check of \<open>/api/rdns\<close> takes quads that are no address: they reach the resolver.\<close>

lemma rdns_takes_non_address:
  assumes "\<And>ip. parseIP ip = None \<Longrightarrow> lookup_addr ip = None"
  shows "parseIP ''999.1.1.1'' = None \<and>
    rdnsHandler lookup_addr ''GET'' (\<lambda>_. ''999.1.1.1'') = Reply 200 None"
proof -
  have "parseIP ''999.1.1.1'' = None" by code_simp
  moreover have "IPRe ''999.1.1.1''" by code_simp
  ultimately show ?thesis using assms by (simp add: rdnsHandler_def Let_def)
qed

text \<open>A host name is answered without the dot the resolver ends it with.\<close>

lemma rdns_trims_dot:
  assumes "IPRe (query ''ip'')" and "lookup_addr (query ''ip'') = Some ((h @ ''.'') # hs)"
  shows "rdnsHandler lookup_addr ''GET'' query = Reply 200 (Some h)"
proof -
  have "query ''ip'' \<noteq> []" using assms(1) by (auto simp: IPRe_def)
  with assms show ?thesis by (simp add: rdnsHandler_def Let_def trim_suffix_def has_suffix_def)
qed

end
