(* ===== verification/EndToEnd.thy ===== *)
theory EndToEnd imports Pipeline Modules begin

text \<open>
  The whole system on one path: what a switch pushes, the collector publishes and the consumer stores is
  what the web application answers. The broker and the database work; the messages read from Kafka carry
  the published values in order (\<open>carries\<close>).
\<close>

lemma if_put_single:
  assumes "db_ok d" and "filter (\<lambda>e. if_entry_key e = k) es = [e]"
  shows "get if_key (fold if_put es (ifT d)) k = Some (if_merge e (get if_key (ifT d) k))"
  using ifs.look_puts_single [OF _ assms(2)] assms(1) by (simp add: db_ok_def)

lemma vlan_put_single:
  assumes "db_ok d" and "filter (\<lambda>e. vlan_entry_key e = k) es = [e]"
  shows "get vlan_key (fold vlan_put es (vlanT d)) k = Some (vlan_merge e (get vlan_key (vlanT d) k))"
  using vlans.look_puts_single [OF _ assms(2)] assms(1) by (simp add: db_ok_def)

text \<open>Filtering for a key and for what the columns accept.\<close>

lemma filter_single:
  assumes "filter P xs = [x]" and "Q x"
  shows "filter P (filter Q xs) = [x]"
proof -
  have "filter P (filter Q xs) = filter Q (filter P xs)" by (simp add: conj_commute)
  with assms show ?thesis by simp
qed

lemma if_wire_single:
  assumes "filter (\<lambda>e. (iNodeID e, iName e) = k) es = [e]" and "columns_fit e"
  shows "filter (\<lambda>e. if_entry_key e = k) (map if_entry_wire (filter columns_fit es)) = [if_entry_wire e]"
  using filter_single [OF assms(1), of columns_fit] assms(2)
  by (simp add: filter_map comp_def if_entry_wire_def)

text \<open>A fresh or newer entry sets these columns of its row.\<close>

lemma if_merge_described:
  assumes "\<forall>r. old = Some r \<longrightarrow> riAt r \<le> iTimestamp e"
  shows "riAccessVlan (if_merge (if_entry_wire e) old) =
      (case iAccessVlan e of Some w \<Rightarrow> uint w
       | None \<Rightarrow> (case old of None \<Rightarrow> 1 | Some r \<Rightarrow> riAccessVlan r))"
    and "riDescription (if_merge (if_entry_wire e) old) = coalesce (iDescription e) (Option.bind old riDescription)"
    and "riShutdown (if_merge (if_entry_wire e) old) = iShutdown e"
    and "riAt (if_merge (if_entry_wire e) old) = iTimestamp e"
    and "if_key (if_merge (if_entry_wire e) old) =
      (case old of None \<Rightarrow> (iNodeID e, iName e) | Some r \<Rightarrow> if_key r)"
  using assms
  by (cases old; simp add: if_merge_columns;
      simp add: if_merge_def if_row_of_def if_entry_wire_def coalesce_def split: option.split)+

lemma vlan_merge_name:
  assumes "\<forall>r. old = Some r \<longrightarrow> rvAt r \<le> vTimestamp v"
  shows "rvName (vlan_merge v old) = coalesce (vName v) (Option.bind old rvName)"
  using assms
  by (cases old; simp add: vlan_merge_columns;
      simp add: vlan_merge_def vlan_row_of_def coalesce_def split: option.split)

text \<open>An access VLAN that fits its column is an id the VLAN table accepts.\<close>

lemma small_vlan_fits: "small_vlan (Some w) \<Longrightarrow> fits_integer (uint w)"
  using order_trans [OF _ uint_ge_0 [of w], of "- 2147483648"]
  by (simp add: small_vlan_def fits_integer_def word_less_def)

subsection \<open>Properties\<close>

text \<open>From the switch to the port page: after a VLAN message and an interface message of a switch have
  gone through the collector, Kafka and the consumer, asking the web application for the port answers
  with the pushed state of the interface and names its access VLAN as the VLAN message did. No row
  stored before is newer than the two pushes, and each names the interface, the VLAN, once.\<close>

theorem port_shows_telemetry:
  assumes "isVlan (EncodingPath u)" and "isInterface (EncodingPath t)"
    and "year_ok (msg_time u)" and "year_ok (msg_time t)"
    and "\<forall>k. \<not> fails k" and "\<forall>n. \<not> db_fails n" and "db_ok d"
    and "dispatch fails u p = (err1, p1)" and "dispatch fails t p1 = (err2, p2)"
    and "carries ''vlan-table'' (drop (length (sent p)) (sent p1)) ms1"
    and "carries ''interface-table'' (drop (length (sent p1)) (sent p2)) ms2"
    and "consume_rows db_fails ms1 ([], d) = (mk1, d1)" and "consume_rows db_fails ms2 ([], d1) = (mk2, d2)"
    and "filter (\<lambda>e. (iNodeID e, iName e) = (node, port)) (if_entries t) = [e]" and "columns_fit e"
    and "filter (\<lambda>v. vlan_entry_key v = (node, uint w)) (vlan_entries u) = [v]"
    and "iAccessVlan e = Some w" and "vName v = Some name"
    and "\<forall>r. get if_key (ifT d) (node, port) = Some r \<longrightarrow> riAt r \<le> iTimestamp e"
    and "\<forall>r. get vlan_key (vlanT d) (node, uint w) = Some r \<longrightarrow> rvAt r \<le> vTimestamp v"
    and "query ''node_id'' = node" and "query ''port'' = port" and "node \<noteq> []" and "port \<noteq> []"
  shows "\<exists>res. PortHandler False d2 ''GET'' query = Reply 200 res \<and>
    prNode res = node \<and> prName res = port \<and> prAccessVlan res = uint w \<and> prAccessName res = Some name \<and>
    prDescription res =
      coalesce (iDescription e) (Option.bind (get if_key (ifT d) (node, port)) riDescription) \<and>
    prShutdown res = iShutdown e \<and> prCollected res = to_second (iTimestamp e)"
proof -
  note u = vlans_consumed [OF assms(1,3,5,6,8,10,12)]
  note t = interfaces_consumed [OF assms(2,4,5,6,9,11,13)]
  let ?old = "get if_key (ifT d) (node, port)"
  have fits: "fits_integer (uint (vVlanID v))"
  proof -
    have "v \<in> set (filter (\<lambda>v. vlan_entry_key v = (node, uint w)) (vlan_entries u))" using assms(16) by simp
    then have "uint (vVlanID v) = uint w" by simp
    moreover have "fits_integer (uint w)"
      using assms(15,17) small_vlan_fits by (simp add: columns_fit_def)
    ultimately show ?thesis by simp
  qed
  from filter_single [where Q = "\<lambda>e. fits_integer (uint (vVlanID e))", OF assms(16) fits]
  have "get vlan_key (vlanT d1) (node, uint w) = Some (vlan_merge v (get vlan_key (vlanT d) (node, uint w)))"
    unfolding u(3) by (rule vlan_put_single [OF assms(7)])
  then have vlan: "vlan_name d2 node (Some (uint w)) = Some name"
    using vlan_merge_name [OF assms(20)] assms(18) by (simp add: vlan_name_def t(6) coalesce_def)
  have row: "get if_key (ifT d2) (node, port) = Some (if_merge (if_entry_wire e) ?old)"
    using if_put_single [OF assms(7) if_wire_single [OF assms(14,15)]] unfolding t(3) u(6) .
  have key: "if_key (if_merge (if_entry_wire e) ?old) = (node, port)"
    using row by (rule get_key)
  have "PortHandler False d2 ''GET'' query = Reply 200 (port_of_row d2 (if_merge (if_entry_wire e) ?old))"
    using assms(21-24) row by (simp add: PortHandler_def portSQL_def Let_def)
  then show ?thesis
    using if_merge_described [OF assms(19)] key vlan assms(17)
    by (simp add: port_of_row_def)
qed

text \<open>From the switch to the search: every MAC address of a MAC message that has gone through the
  collector, Kafka and the consumer is found by a search for it, in any spelling that normalises to
  the address, and the term is not reported as not found.\<close>

theorem pushed_mac_is_found:
  assumes "isMAC (EncodingPath t)" and "year_ok (msg_time t)"
    and "\<forall>k. \<not> fails k" and "\<forall>n. \<not> db_fails n" and "db_ok d"
    and "dispatch fails t p = (err, p')"
    and "carries ''mac-table'' (drop (length (sent p)) (sent p')) ms"
    and "e \<in> set (mac_entries t)"
    and "Option.bind body (unmarshal_struct store_terms []) = Some terms" and "term \<in> set terms"
    and "MacRe (TrimSpace term)" and "to_lower (mMacAddress e) \<in> set (normalizeMac (TrimSpace term))"
    and "\<And>rs. mset (arrange rs) = mset rs"
  shows "\<exists>m s rsp. ms = [m] \<and> consumeMACBatch db_fails [Received m, Closed] d = Some s \<and>
    SearchHandler lookup_host arrange False (database s) ''POST'' body = Reply 200 rsp \<and>
    (\<exists>r \<in> set (spResults rsp). srMac r = mMacAddress e) \<and> TrimSpace term \<notin> set (spNotFound rsp)"
proof -
  have "mac_entries t \<noteq> []" using assms(8) by auto
  from macs_consumed [OF assms(1) this assms(2-7), of "mac_entry_key e"] obtain m s where
    s: "ms = [m]" "consumeMACBatch db_fails [Received m, Closed] d = Some s"
      "get mac_key (macT (database s)) (mac_entry_key e) \<noteq> None"
    using assms(8) by (fastforce simp: filter_empty_conv split: list.splits)
  then obtain r where r: "get mac_key (macT (database s)) (mac_entry_key e) = Some r" by blast
  have mem: "r \<in> snd ` set (rows (macT (database s)))" and mac: "rmMac r = mMacAddress e"
    using get_row_mem [OF r] by simp_all
  from mac_term_answered [OF assms(9-11) mem _ assms(13), of lookup_host] assms(12) s(1,2) mac
  show ?thesis by auto
qed

subsection \<open>Witnesses\<close>

definition demo_access :: telemetry where
  "demo_access = \<lparr>NodeIdStr = ''sw1'', SubscriptionIdStr = ''102'',
     EncodingPath = ''Cisco-IOS-XE-native:native/interface'', CollectionId = 8, CollectionStartTime = 0,
     MsgTimestamp = 5000, DataGpbkv =
       [container '''' [container ''keys'' [],
          container ''content'' [container ''GigabitEthernet''
            [leaf ''name'' (StringValue ''1/0/4''), leaf ''description'' (StringValue ''lab''),
             container ''switchport-config'' [container ''switchport'' [container ''access''
               [container ''vlan'' [leaf ''vlan'' (Uint32Value 10)]]]]]]]]\<rparr>"

definition demo_port :: if_entry where
  "demo_port = \<lparr>iTimestamp = 5000, iNodeID = ''sw1'', iName = ''GigabitEthernet1/0/4'',
     iDescription = Some ''lab'', iShutdown = False, iIPAddress = None, iPrefixLen = None, iVRF = [], iMTU = 0,
     iAccessVlan = Some 10, iVoiceVlan = None\<rparr>"

lemma demo_access_entries: "if_entries demo_access = [demo_port]"
  unfolding demo_port_def by code_simp

lemma demo_access_path: "isInterface (EncodingPath demo_access)" "year_ok (msg_time demo_access)"
  by code_simp+

definition demo_access_claim :: "cmsg list" where
  "demo_access_claim = [\<lparr>cmOffset = 10, cmTopic = ''interface-table'', cmValue = Some (if_json demo_port)\<rparr>]"

definition demo_vlan_producer :: producer where
  "demo_vlan_producer = snd (dispatch (\<lambda>_. False) demo_vlans no_messages)"

lemma demo_access_carries:
  "carries ''interface-table'' (drop (length (sent demo_vlan_producer))
     (sent (snd (dispatch (\<lambda>_. False) demo_access demo_vlan_producer)))) demo_access_claim"
  using dispatch_no_faults [of "\<lambda>_. False" demo_access demo_vlan_producer]
    published_topics(2) [OF demo_access_path(1)]
  by (simp add: demo_access_path prod_eq_iff carries_def demo_access_claim_def if_msg_def demo_access_entries)

definition demo_vlan_entry :: vlan_entry where
  "demo_vlan_entry = \<lparr>vTimestamp = 1000, vNodeID = ''sw1'', vVlanID = 10, vName = Some ''users'', vStatus = []\<rparr>"

theorem port_shows_telemetry_witness:
  "\<exists>res. PortHandler False
      (snd (consume_rows (\<lambda>_. False) demo_access_claim
         ([], snd (consume_rows (\<lambda>_. False) demo_vlan_claim ([], empty_db))))) ''GET''
      (\<lambda>k. if k = ''node_id'' then ''sw1'' else ''GigabitEthernet1/0/4'') = Reply 200 res \<and>
    prDescription res = Some ''lab'' \<and> prAccessVlan res = 10 \<and> prAccessName res = Some ''users''"
proof -
  let ?d1 = "snd (consume_rows (\<lambda>_. False) demo_vlan_claim ([], empty_db))"
  let ?d2 = "snd (consume_rows (\<lambda>_. False) demo_access_claim ([], ?d1))"
  let ?q = "\<lambda>k. if k = ''node_id'' then ''sw1'' else ''GigabitEthernet1/0/4''"
  have v: "dispatch (\<lambda>_. False) demo_vlans no_messages =
      (fst (dispatch (\<lambda>_. False) demo_vlans no_messages), demo_vlan_producer)"
    by (simp add: demo_vlan_producer_def)
  have "\<exists>res. PortHandler False ?d2 ''GET'' ?q = Reply 200 res \<and>
    prNode res = ''sw1'' \<and> prName res = ''GigabitEthernet1/0/4'' \<and> prAccessVlan res = uint (10 :: 16 word) \<and>
    prAccessName res = Some ''users'' \<and>
    prDescription res = coalesce (iDescription demo_port)
      (Option.bind (get if_key (ifT empty_db) (''sw1'', ''GigabitEthernet1/0/4'')) riDescription) \<and>
    prShutdown res = iShutdown demo_port \<and> prCollected res = to_second (iTimestamp demo_port)"
  proof (rule port_shows_telemetry [OF demo_paths(1) demo_access_path(1) demo_paths(4) demo_access_path(2)
        never never db_ok_empty v prod.collapse [symmetric] _ demo_access_carries
        prod.collapse [symmetric] prod.collapse [symmetric], where v = demo_vlan_entry])
    show "carries ''vlan-table'' (drop (length (sent no_messages)) (sent demo_vlan_producer)) demo_vlan_claim"
      unfolding demo_vlan_producer_def by (rule demo_carries(1))
  qed (simp_all add: demo_access_entries demo_port_def demo_vlan_entries demo_vlan_entry_def columns_fit_def
      small_vlan_def empty_db_def)
  then show ?thesis by (auto simp: demo_port_def coalesce_def)
qed

lemma demo_term:
  "Option.bind (Some (JObj [(''terms'', JArr [JStr ''0011.2233.4455''])])) (unmarshal_struct store_terms []) =
     Some [''0011.2233.4455'']"
  "TrimSpace ''0011.2233.4455'' = ''0011.2233.4455''"
  "MacRe ''0011.2233.4455''"
  "to_lower ''0011.2233.4455'' \<in> set (normalizeMac ''0011.2233.4455'')"
  by (simp add: unmarshal_struct_def store_terms_def key_is_def unmarshal_slice_def string_value_def,
      rule TrimSpace_plain, simp_all add: MacRe_def is_hex_def is_digit_def normalizeMac_def to_lower_def
        lower_char_def colon_form_def dot_form_def)

theorem pushed_mac_is_found_witness:
  "\<exists>s rsp. consumeMACBatch (\<lambda>_. False) [Received demo_mac_msg, Closed] empty_db = Some s \<and>
    SearchHandler (\<lambda>_. None) id False (database s) ''POST''
      (Some (JObj [(''terms'', JArr [JStr ''0011.2233.4455''])])) = Reply 200 rsp \<and>
    (\<exists>r \<in> set (spResults rsp). srMac r = ''0011.2233.4455'')"
proof -
  have "hd (mac_entries demo_macs) \<in> set (mac_entries demo_macs)" by (simp add: demo_mac_entries)
  from pushed_mac_is_found [OF demo_paths(3,6) never never db_ok_empty prod.collapse [symmetric]
      demo_carries(3) this demo_term(1), of "''0011.2233.4455''" id "\<lambda>_. None"] demo_term(2-4)
  show ?thesis by (simp add: demo_mac_entries) blast
qed

end
