(* ===== verification/Group.thy ===== *)
theory Group imports Batches begin

text \<open>
  The consumer group as a whole: every partition of a batched topic has a claim of its own, the claims
  share the database with each other, with the claims of the other topics and with the retention loop,
  and any claim may end at any point and be taken up again where the group committed. A partition is
  the list of its messages; the step relation interleaves the claims in any order. The locale
  \<open>batch_group\<close> adds to \<open>batch_consumer\<close> what the rest of the program may do to the table.
\<close>

subsection \<open>The step relation\<close>

text \<open>
  \<open>grClaims i\<close> is the loop of partition \<open>i\<close>, \<open>grNext i\<close> the offset of its next message,
  \<open>grCommitted i\<close> the offset the group has committed for it, if any, and \<open>grFrom i\<close> the offset at which
  the group last began to read it anew. Offsets count from where the group first began.
\<close>

record ('k, 'e) group =
  grDb :: db
  grClaims :: "nat \<Rightarrow> ('k, 'e) batch_state"
  grNext :: "nat \<Rightarrow> nat"
  grCommitted :: "nat \<Rightarrow> nat option"
  grFrom :: "nat \<Rightarrow> nat"

definition group_start :: "db \<Rightarrow> ('k, 'e) group" where
  "group_start d = \<lparr>grDb = d, grClaims = \<lambda>_. start_batch d, grNext = \<lambda>_. 0, grCommitted = \<lambda>_. None,
     grFrom = \<lambda>_. 0\<rparr>"

definition commit_offset :: "nat option \<Rightarrow> nat list \<Rightarrow> nat option" where
  "commit_offset com mk =
     (if mk = [] then com
      else Some (case com of None \<Rightarrow> resume_offset mk | Some c \<Rightarrow> max c (resume_offset mk)))"

text \<open>A claim sees the database as it is when its turn comes, and leaves it changed.\<close>

definition claim_state :: "('k, 'e) group \<Rightarrow> nat \<Rightarrow> ('k, 'e) batch_state" where
  "claim_state g i = (grClaims g i)\<lparr>database := grDb g\<rparr>"

definition put_claim :: "nat \<Rightarrow> ('k, 'e) batch_state \<Rightarrow> ('k, 'e) group \<Rightarrow> ('k, 'e) group" where
  "put_claim i s g = g\<lparr>grDb := database s, grClaims := (grClaims g)(i := s)\<rparr>"

text \<open>
  One \<open>Exec\<close> of the rest of the program while the claims of \<open>own\<close> run: an upsert of another topic, or
  a retention delete of any table whose cutoff has not passed \<open>c\<close>.
\<close>

inductive elsewhere :: "(nat \<Rightarrow> bool) \<Rightarrow> tbl \<Rightarrow> instant \<Rightarrow> db \<Rightarrow> db \<Rightarrow> bool"
  for db_fails :: "nat \<Rightarrow> bool" and own :: tbl and c :: instant
where
  mac: "own \<noteq> MacTable \<Longrightarrow> elsewhere db_fails own c d (snd (db_exec db_fails (mac_upsert ms) d))"
| arp: "own \<noteq> ArpTable \<Longrightarrow> elsewhere db_fails own c d (snd (db_exec db_fails (arp_upsert as) d))"
| interface: "own \<noteq> InterfaceTable \<Longrightarrow> elsewhere db_fails own c d (snd (db_exec db_fails (if_upsert e) d))"
| vlan: "own \<noteq> VlanTable \<Longrightarrow> elsewhere db_fails own c d (snd (db_exec db_fails (vlan_upsert v) d))"
| retention: "cutoff \<le> c \<Longrightarrow>
    elsewhere db_fails own c d (snd (db_exec db_fails (\<lambda>d. Some (delete_older tb cutoff d)) d))"

text \<open>
  \<open>deliver\<close>, \<open>timer\<close>: one round of the select loop of a claim. \<open>commit\<close>: the group commits what is
  marked, and never moves back. \<open>restart\<close>: the claim ends, by a crash or a rebalance, and begins
  again with an empty batch at the committed offset; a graceful end is \<open>timer\<close> and then \<open>restart\<close>,
  since the last flush of the loop is that of the timer. \<open>fresh\<close>: when nothing has been committed yet, the
  group begins anew at the newest message (\<open>Offsets.Initial\<close> is \<open>OffsetNewest\<close>), which is past all it has
  been given.
\<close>

inductive group_step ::
    "(nat \<Rightarrow> bool) \<Rightarrow> (json \<Rightarrow> 'e list option) \<Rightarrow> ('e \<Rightarrow> 'k) \<Rightarrow> ('e \<Rightarrow> instant) \<Rightarrow> nat \<Rightarrow>
     ('e list \<Rightarrow> db \<Rightarrow> db option) \<Rightarrow> (db \<Rightarrow> db \<Rightarrow> bool) \<Rightarrow> (nat \<Rightarrow> cmsg list) \<Rightarrow>
     ('k, 'e) group \<Rightarrow> ('k, 'e) group \<Rightarrow> bool"
  for db_fails :: "nat \<Rightarrow> bool" and unmarshal :: "json \<Rightarrow> 'e list option" and key :: "'e \<Rightarrow> 'k"
    and ts :: "'e \<Rightarrow> instant" and lim :: nat and stmt :: "'e list \<Rightarrow> db \<Rightarrow> db option"
    and rest :: "db \<Rightarrow> db \<Rightarrow> bool" and log :: "nat \<Rightarrow> cmsg list"
where
  deliver: "grNext g i < length (log i) \<Longrightarrow>
    on_message db_fails unmarshal key ts lim stmt (log i ! grNext g i) (claim_state g i) = Some s \<Longrightarrow>
    group_step db_fails unmarshal key ts lim stmt rest log g
      ((put_claim i s g)\<lparr>grNext := (grNext g)(i := grNext g i + 1)\<rparr>)"
| timer: "flush db_fails stmt (claim_state g i) = Some s \<Longrightarrow>
    group_step db_fails unmarshal key ts lim stmt rest log g (put_claim i s g)"
| commit: "group_step db_fails unmarshal key ts lim stmt rest log g
    (g\<lparr>grCommitted := (grCommitted g)(i := commit_offset (grCommitted g i) (marks (grClaims g i)))\<rparr>)"
| restart: "grCommitted g i = Some c \<Longrightarrow> group_step db_fails unmarshal key ts lim stmt rest log g
    (g\<lparr>grClaims := (grClaims g)(i := start_batch (grDb g)), grNext := (grNext g)(i := c)\<rparr>)"
| fresh: "grCommitted g i = None \<Longrightarrow> grNext g i \<le> newest \<Longrightarrow> newest \<le> length (log i) \<Longrightarrow>
    group_step db_fails unmarshal key ts lim stmt rest log g
      (g\<lparr>grClaims := (grClaims g)(i := start_batch (grDb g)), grNext := (grNext g)(i := newest),
         grFrom := (grFrom g)(i := newest)\<rparr>)"
| rest: "rest (grDb g) d \<Longrightarrow> group_step db_fails unmarshal key ts lim stmt rest log g (g\<lparr>grDb := d\<rparr>)"

text \<open>The entries of a message, and partitions whose offsets count the messages, all of them well formed.\<close>

definition entries_in :: "(json \<Rightarrow> 'e list option) \<Rightarrow> cmsg \<Rightarrow> 'e list" where
  "entries_in unmarshal m =
     (case Option.bind (cmValue m) unmarshal of None \<Rightarrow> [] | Some es \<Rightarrow> es)"

definition well_logged :: "(json \<Rightarrow> 'e list option) \<Rightarrow> (nat \<Rightarrow> cmsg list) \<Rightarrow> bool" where
  "well_logged unmarshal log \<longleftrightarrow>
     (\<forall>i n. n < length (log i) \<longrightarrow>
        cmOffset (log i ! n) = n \<and> Option.bind (cmValue (log i ! n)) unmarshal \<noteq> None)"

definition all_entries :: "(json \<Rightarrow> 'e list option) \<Rightarrow> (nat \<Rightarrow> cmsg list) \<Rightarrow> 'e set" where
  "all_entries unmarshal log = {e. \<exists>i n. n < length (log i) \<and> e \<in> set (entries_in unmarshal (log i ! n))}"

lemma well_loggedD:
  assumes "well_logged unmarshal log" and "n < length (log i)"
  shows "cmOffset (log i ! n) = n"
    and "Option.bind (cmValue (log i ! n)) unmarshal = Some (entries_in unmarshal (log i ! n))"
  using assms by (auto simp: well_logged_def entries_in_def split: option.split)

subsection \<open>What the group keeps\<close>

locale batch_group = batch_consumer +
  fixes rest :: "db \<Rightarrow> db \<Rightarrow> bool"
    and gone :: "'c \<Rightarrow> bool"
  assumes rest_ok: "rest d d' \<Longrightarrow> db_ok d \<Longrightarrow> db_ok d'"
    and rest_look: "rest d d' \<Longrightarrow> db_ok d \<Longrightarrow>
      look d' k = look d k \<or> look d' k = None \<and> (\<forall>r. look d k = Some r \<longrightarrow> gone r)"
begin

text \<open>An entry is stored when its key has a row of one of the entries in \<open>E\<close>, or had and it expired.\<close>

definition stored where
  "stored E d e \<longleftrightarrow>
     (\<exists>e' \<in> E. key e' = key e \<and>
        (look d (key e) = Some (row_of e') \<or> look d (key e) = None \<and> gone (row_of e')))"

definition keeps where
  "keeps E d d' \<longleftrightarrow> (\<forall>e. stored E d e \<longrightarrow> stored E d' e)"

lemma rest_keeps: "rest d d' \<Longrightarrow> db_ok d \<Longrightarrow> keeps E d d'"
  unfolding keeps_def stored_def
proof (intro allI impI)
  fix e assume r: "rest d d'" "db_ok d"
    and "\<exists>e' \<in> E. key e' = key e \<and>
      (look d (key e) = Some (row_of e') \<or> look d (key e) = None \<and> gone (row_of e'))"
  then obtain e' where "e' \<in> E" "key e' = key e"
      "look d (key e) = Some (row_of e') \<or> look d (key e) = None \<and> gone (row_of e')" by blast
  moreover from this(3) rest_look [OF r, of "key e"]
  have "look d' (key e) = Some (row_of e') \<or> look d' (key e) = None \<and> gone (row_of e')" by auto
  ultimately show "\<exists>e' \<in> E. key e' = key e \<and>
      (look d' (key e) = Some (row_of e') \<or> look d' (key e) = None \<and> gone (row_of e'))" by blast
qed

lemma stmt_keeps:
  assumes "db_ok d" and "keyed key b" and "stmt (map snd b) d = Some d'" and "snd ` set b \<subseteq> E"
  shows "keeps E d d' \<and> (\<forall>e. map_of b (key e) \<noteq> None \<longrightarrow> stored E d' e)"
proof -
  note look = stmt_batch_look [OF assms(1-3)]
  have new: "stored E d' e" if "map_of b (key e) \<noteq> None" for e
  proof -
    from that obtain e' where e': "map_of b (key e) = Some e'" by blast
    then have "(key e, e') \<in> set b" by (rule map_of_SomeD)
    with assms(2,4) have "e' \<in> E" "key e' = key e" unfolding keyed_def by force+
    with look [of "key e"] e' show ?thesis unfolding stored_def by auto
  qed
  moreover have "stored E d' e" if "stored E d e" for e
    using that new [of e] look [of "key e"] unfolding stored_def
    by (cases "map_of b (key e)") auto
  ultimately show ?thesis by (simp add: keeps_def)
qed

text \<open>
  A claim at offset \<open>pos\<close>: the entries from \<open>from\<close> to below \<open>m\<close> are stored, those from \<open>m\<close> on wait in
  the batch, and neither a mark nor the committed offset passes \<open>m\<close>. \<open>ent n\<close> are the entries of message \<open>n\<close>.
\<close>

definition covered where
  "covered E ent d from m \<longleftrightarrow> (\<forall>n. from \<le> n \<longrightarrow> n < m \<longrightarrow> (\<forall>e \<in> set (ent n). stored E d e))"

definition claim_inv where
  "claim_inv E ent len d s from pos com \<longleftrightarrow>
     (\<exists>m. pred_option (\<lambda>c. c \<le> m) com \<and> m \<le> pos \<and> pos \<le> len \<and> (\<forall>x \<in> set (marks s). x < m) \<and>
        batch s = fold (add_entry key ts) (concat (map ent [m..<pos])) [] \<and>
        lastMsg s = (if m < pos then Some (pos - 1) else None) \<and>
        covered E ent d from m)"

lemma claim_inv_keeps: "claim_inv E ent len d s from pos com \<Longrightarrow> keeps E d d' \<Longrightarrow> claim_inv E ent len d' s from pos com"
proof -
  assume "claim_inv E ent len d s from pos com" and k: "keeps E d d'"
  then obtain m where m: "pred_option (\<lambda>c. c \<le> m) com" "m \<le> pos" "pos \<le> len" "\<forall>x \<in> set (marks s). x < m"
    "batch s = fold (add_entry key ts) (concat (map ent [m..<pos])) []"
    "lastMsg s = (if m < pos then Some (pos - 1) else None)"
    "covered E ent d from m"
    unfolding claim_inv_def by blast
  from m(7) k have "covered E ent d' from m" by (auto simp: keeps_def covered_def)
  with m(1-6) show ?thesis unfolding claim_inv_def by (intro exI [of _ m]) simp
qed

lemma claim_inv_database [simp]: "claim_inv E ent len d (s\<lparr>database := d'\<rparr>) from pos com = claim_inv E ent len d s from pos com"
  by (simp add: claim_inv_def)

lemma claim_inv_start:
  assumes "claim_inv E ent len d s from pos (Some c)"
  shows "claim_inv E ent len d (start_batch d) from c (Some c)"
proof -
  from assms obtain m where "c \<le> m" "m \<le> pos" "pos \<le> len" "covered E ent d from m"
    unfolding claim_inv_def by auto
  moreover from this have "covered E ent d from c" by (auto simp: covered_def)
  ultimately show ?thesis unfolding claim_inv_def start_batch_def by (intro exI [of _ c]) simp
qed

lemma claim_inv_fresh:
  "newest \<le> len \<Longrightarrow> claim_inv E ent len d (start_batch d) newest newest None"
  unfolding claim_inv_def start_batch_def by (intro exI [of _ newest]) (simp add: covered_def)

lemma claim_inv_commit:
  assumes "claim_inv E ent len d s from pos com"
  shows "claim_inv E ent len d s from pos (commit_offset com (marks s))"
proof -
  from assms obtain m where m: "pred_option (\<lambda>c. c \<le> m) com" "m \<le> pos" "pos \<le> len" "\<forall>x \<in> set (marks s). x < m"
    "batch s = fold (add_entry key ts) (concat (map ent [m..<pos])) []"
    "lastMsg s = (if m < pos then Some (pos - 1) else None)"
    "covered E ent d from m"
    unfolding claim_inv_def by blast
  have "resume_offset (marks s) \<le> m" using m(4) by (intro resume_offset_le) blast
  with m(1) have "pred_option (\<lambda>c. c \<le> m) (commit_offset com (marks s))"
    by (cases com) (simp_all add: commit_offset_def)
  with m(2-7) show ?thesis unfolding claim_inv_def by (intro exI [of _ m]) simp
qed

lemma claim_inv_receive:
  assumes "claim_inv E ent len d s from pos com" and "pos < len"
  shows "claim_inv E ent len d
    (s\<lparr>batch := fold (add_entry key ts) (ent pos) (batch s), lastMsg := Some pos\<rparr>) from (pos + 1) com"
proof -
  from assms obtain m where "pred_option (\<lambda>c. c \<le> m) com" "m \<le> pos" "\<forall>x \<in> set (marks s). x < m"
    "batch s = fold (add_entry key ts) (concat (map ent [m..<pos])) []"
    "covered E ent d from m"
    unfolding claim_inv_def by blast
  with assms(2) show ?thesis unfolding claim_inv_def by (intro exI [of _ m]) simp
qed

lemma claim_flush:
  assumes inv: "claim_inv E ent len (database s) s from pos com" and ok: "db_ok (database s)"
    and E: "\<forall>n < len. set (ent n) \<subseteq> E"
  obtains s' where "flush db_fails stmt s = Some s'" "claim_inv E ent len (database s') s' from pos com"
    "keeps E (database s) (database s')" "db_ok (database s')"
proof (cases "batch s = []")
  case True
  with assms that show ?thesis by (simp add: flush_def keeps_def)
next
  case False
  let ?d1 = "(database s)\<lparr>execs := execs (database s) + 1\<rparr>"
  from inv obtain m where m: "pred_option (\<lambda>c. c \<le> m) com" "m \<le> pos" "pos \<le> len" "\<forall>x \<in> set (marks s). x < m"
    "batch s = fold (add_entry key ts) (concat (map ent [m..<pos])) []"
    "lastMsg s = (if m < pos then Some (pos - 1) else None)"
    "covered E ent (database s) from m"
    unfolding claim_inv_def by blast
  have same: "keeps E (database s) ?d1" by (simp add: keeps_def stored_def look_execs)
  have b: "keyed key (batch s)" unfolding m(5) by (rule keyed_add_entries) simp
  show ?thesis
  proof (cases "db_fails (execs (database s))")
    case True
    with that [of "s\<lparr>database := ?d1\<rparr>"] False claim_inv_keeps [OF inv same] same ok show ?thesis
      by (simp add: flush_def db_exec_def Let_def)
  next
    case works: False
    have "distinct (map key (map snd (batch s)))" using b by (metis keyed_def keyed_entries)
    with accepts obtain d where d: "stmt (map snd (batch s)) ?d1 = Some d" by blast
    have lt: "m < pos" using False m(2,5) by (cases "m = pos") auto
    let ?s' = "s\<lparr>database := d, marks := marks s @ [pos - 1], batch := [], lastMsg := None\<rparr>"
    have step: "flush db_fails stmt s = Some ?s'"
      using works d False m(6) lt by (simp add: flush_def db_exec_def Let_def)
    have "\<forall>n \<in> set [m..<pos]. set (ent n) \<subseteq> E" using E m(3) by simp
    then have ents: "set (concat (map ent [m..<pos])) \<subseteq> E" by auto
    have "snd ` set (batch s) \<subseteq> E"
    proof
      fix e assume "e \<in> snd ` set (batch s)"
      then obtain k where k: "(k, e) \<in> set (batch s)" by auto
      then have "map_of (batch s) k = Some e" using b by (simp add: keyed_def)
      with m(5) add_entries_newest [of key ts "concat (map ent [m..<pos])" k e] ents show "e \<in> E" by auto
    qed
    from stmt_keeps [OF _ b d this] ok have kept: "keeps E ?d1 d"
      and new: "\<And>e. map_of (batch s) (key e) \<noteq> None \<Longrightarrow> stored E d e" by auto
    have trans: "keeps E (database s) d" using same kept by (simp add: keeps_def)
    have "stored E d e" if "from \<le> n" and n: "n < pos" and e: "e \<in> set (ent n)" for n e
    proof (cases "n < m")
      case True
      with m(7) e trans \<open>from \<le> n\<close> show ?thesis by (auto simp: keeps_def covered_def)
    next
      case False
      with n e have "e \<in> set (concat (map ent [m..<pos]))" by auto
      then show ?thesis
        using add_entries_dom [of key ts "concat (map ent [m..<pos])" "key e"] m(5) by (intro new) auto
    qed
    then have "covered E ent d from pos" by (simp add: covered_def)
    moreover have "\<forall>x \<in> set (marks ?s'). x < pos" using m(2,4) lt by auto
    moreover have "pred_option (\<lambda>c. c \<le> pos) com" using m(1,2) by (cases com) auto
    ultimately have "claim_inv E ent len d ?s' from pos com"
      using m(3) unfolding claim_inv_def by (intro exI [of _ pos]) simp
    with that [OF step] trans stmt_ok [OF _ d] ok show ?thesis by simp
  qed
qed

lemma claim_message:
  assumes inv: "claim_inv E ent len (database s) s from pos com" and ok: "db_ok (database s)"
    and E: "\<forall>n < len. set (ent n) \<subseteq> E" and "pos < len"
    and m: "cmOffset m = pos" "Option.bind (cmValue m) unmarshal = Some (ent pos)"
  obtains s' where "on_message db_fails unmarshal key ts lim stmt m s = Some s'"
    "claim_inv E ent len (database s') s' from (pos + 1) com"
    "keeps E (database s) (database s')" "db_ok (database s')"
proof -
  let ?s1 = "s\<lparr>batch := fold (add_entry key ts) (ent pos) (batch s), lastMsg := Some pos\<rparr>"
  have inv1: "claim_inv E ent len (database ?s1) ?s1 from (pos + 1) com"
    using claim_inv_receive [OF inv \<open>pos < len\<close>] by simp
  have ok1: "db_ok (database ?s1)" using ok by simp
  show ?thesis
  proof (cases "length (batch ?s1) \<ge> lim")
    case True
    from claim_flush [OF inv1 ok1 E, of db_fails] obtain s' where
      s': "flush db_fails stmt ?s1 = Some s'" "claim_inv E ent len (database s') s' from (pos + 1) com"
        "keeps E (database ?s1) (database s')" "db_ok (database s')" .
    from s'(1) True m have "on_message db_fails unmarshal key ts lim stmt m s = Some s'"
      by (simp add: on_message_def Let_def)
    with s'(2-4) that [of s'] show ?thesis by simp
  next
    case False
    with m have "on_message db_fails unmarshal key ts lim stmt m s = Some ?s1"
      by (simp add: on_message_def Let_def)
    moreover have "keeps E (database s) (database ?s1)" by (simp add: keeps_def)
    ultimately show ?thesis using inv1 ok1 that [of ?s1] by blast
  qed
qed

definition group_inv where
  "group_inv unmarshal log g \<longleftrightarrow> db_ok (grDb g) \<and>
     (\<forall>i. claim_inv (all_entries unmarshal log) (\<lambda>n. entries_in unmarshal (log i ! n)) (length (log i))
        (grDb g) (grClaims g i) (grFrom g i) (grNext g i) (grCommitted g i))"

lemma entries_subset: "\<forall>n < length (log i). set (entries_in unmarshal (log i ! n)) \<subseteq> all_entries unmarshal log"
  by (auto simp: all_entries_def)

lemma group_inv_claim:
  assumes "group_inv unmarshal log g"
  shows "claim_inv (all_entries unmarshal log) (\<lambda>n. entries_in unmarshal (log i ! n)) (length (log i))
      (database (claim_state g i)) (claim_state g i) (grFrom g i) (grNext g i) (grCommitted g i)"
    and "db_ok (database (claim_state g i))"
  using assms by (simp_all add: group_inv_def claim_state_def)

text \<open>A step of one claim keeps the claim's own invariant, and what it does to the table that of the others.\<close>

lemma group_inv_put:
  assumes "group_inv unmarshal log g" and "keeps (all_entries unmarshal log) (grDb g) (database s)"
    and "db_ok (database s)"
    and "claim_inv (all_entries unmarshal log) (\<lambda>n. entries_in unmarshal (log i ! n)) (length (log i))
      (database s) s (grFrom g i) p (grCommitted g i)"
  shows "group_inv unmarshal log ((put_claim i s g)\<lparr>grNext := (grNext g)(i := p)\<rparr>)"
  unfolding group_inv_def
proof (intro conjI allI)
  fix j
  let ?g = "(put_claim i s g)\<lparr>grNext := (grNext g)(i := p)\<rparr>"
  have "claim_inv (all_entries unmarshal log) (\<lambda>n. entries_in unmarshal (log j ! n)) (length (log j))
      (database s) (grClaims g j) (grFrom g j) (grNext g j) (grCommitted g j)"
    using assms(1) claim_inv_keeps [OF _ assms(2)] unfolding group_inv_def by blast
  with assms(4)
  show "claim_inv (all_entries unmarshal log) (\<lambda>n. entries_in unmarshal (log j ! n)) (length (log j))
      (grDb ?g) (grClaims ?g j) (grFrom ?g j) (grNext ?g j) (grCommitted ?g j)"
    by (simp add: put_claim_def)
qed (use assms(3) in \<open>simp add: put_claim_def\<close>)

lemma group_inv_step:
  assumes "group_step db_fails unmarshal key ts lim stmt rest log g g'"
    and logged: "well_logged unmarshal log" and inv: "group_inv unmarshal log g"
  shows "group_inv unmarshal log g'"
  using assms(1)
proof cases
  case (deliver i s)
  note log = well_loggedD [OF logged deliver(2)]
  obtain s' where
    "on_message db_fails unmarshal key ts lim stmt (log i ! grNext g i) (claim_state g i) = Some s'"
    "claim_inv (all_entries unmarshal log) (\<lambda>n. entries_in unmarshal (log i ! n)) (length (log i))
      (database s') s' (grFrom g i) (grNext g i + 1) (grCommitted g i)"
    "keeps (all_entries unmarshal log) (database (claim_state g i)) (database s')" "db_ok (database s')"
    by (rule claim_message [OF group_inv_claim [OF inv, of i] entries_subset deliver(2) log, of db_fails lim])
  with deliver(1,3) group_inv_put [OF inv, of s' i "grNext g i + 1"] show ?thesis
    by (simp add: claim_state_def)
next
  case (timer i s)
  obtain s' where
    "flush db_fails stmt (claim_state g i) = Some s'"
    "claim_inv (all_entries unmarshal log) (\<lambda>n. entries_in unmarshal (log i ! n)) (length (log i))
      (database s') s' (grFrom g i) (grNext g i) (grCommitted g i)"
    "keeps (all_entries unmarshal log) (database (claim_state g i)) (database s')" "db_ok (database s')"
    by (rule claim_flush [OF group_inv_claim [OF inv, of i] entries_subset, of db_fails])
  with timer group_inv_put [OF inv, of s' i "grNext g i"] show ?thesis
    by (simp add: claim_state_def put_claim_def)
next
  case (commit i)
  with inv show ?thesis by (auto simp: group_inv_def intro: claim_inv_commit)
next
  case (restart i c)
  have "claim_inv (all_entries unmarshal log) (\<lambda>n. entries_in unmarshal (log i ! n)) (length (log i))
      (grDb g) (start_batch (grDb g)) (grFrom g i) c (Some c)"
    using inv restart(2) by (intro claim_inv_start) (auto simp: group_inv_def dest: spec [of _ i])
  with inv restart show ?thesis by (simp add: group_inv_def)
next
  case (fresh i newest)
  with inv claim_inv_fresh [OF fresh(4)] show ?thesis by (simp add: group_inv_def)
next
  case (rest d)
  with inv show ?thesis
    by (auto simp: group_inv_def intro: claim_inv_keeps rest_keeps rest_ok)
qed

lemma group_inv_start: "db_ok d \<Longrightarrow> group_inv unmarshal log (group_start d)"
  by (simp add: group_inv_def group_start_def claim_inv_def start_batch_def covered_def)

lemma group_inv_steps:
  assumes "(group_step db_fails unmarshal key ts lim stmt rest log)\<^sup>*\<^sup>* g g'"
    and "well_logged unmarshal log" and "group_inv unmarshal log g"
  shows "group_inv unmarshal log g'"
  using assms(1,3) by (induction rule: rtranclp_induct) (auto intro: group_inv_step [OF _ assms(2)])

lemma group_inv_run:
  assumes "(group_step db_fails unmarshal key ts lim stmt rest log)\<^sup>*\<^sup>* (group_start d) g"
    and "db_ok d" and "well_logged unmarshal log"
  shows "group_inv unmarshal log g"
  by (rule group_inv_steps [OF assms(1,3) group_inv_start]) (rule assms(2))

text \<open>What lies below a committed offset is stored, and no claim is ever stuck.\<close>

lemma group_committed:
  assumes "group_inv unmarshal log g" and "grCommitted g i = Some c"
    and "grFrom g i \<le> n" and "n < c" and "e \<in> set (entries_in unmarshal (log i ! n))"
  shows "stored (all_entries unmarshal log) (grDb g) e"
proof -
  from assms(1) obtain m where "pred_option (\<lambda>c. c \<le> m) (grCommitted g i)"
    "covered (all_entries unmarshal log) (\<lambda>n. entries_in unmarshal (log i ! n)) (grDb g) (grFrom g i) m"
    unfolding group_inv_def claim_inv_def by blast
  with assms(2-5) show ?thesis by (simp add: covered_def)
qed

lemma group_not_stuck:
  assumes "group_inv unmarshal log g" and "well_logged unmarshal log"
  shows "flush db_fails stmt (claim_state g i) \<noteq> None"
    and "grNext g i < length (log i) \<Longrightarrow>
      on_message db_fails unmarshal key ts lim stmt (log i ! grNext g i) (claim_state g i) \<noteq> None"
proof -
  show "flush db_fails stmt (claim_state g i) \<noteq> None"
    by (rule claim_flush [OF group_inv_claim [OF assms(1), of i] entries_subset, of db_fails]) simp
  assume lt: "grNext g i < length (log i)"
  show "on_message db_fails unmarshal key ts lim stmt (log i ! grNext g i) (claim_state g i) \<noteq> None"
    by (rule claim_message [OF group_inv_claim [OF assms(1), of i] entries_subset lt
          well_loggedD [OF assms(2) lt], of db_fails lim]) simp
qed

text \<open>
  While the database works, a claim can be run to the end of its partition, and then nothing of it is
  left in the batch.
\<close>

lemma flush_empties:
  assumes "flush db_fails stmt s = Some s'" and "\<forall>n. \<not> db_fails n" and "keyed key (batch s)"
  shows "batch s' = []"
proof (cases "batch s = []")
  case False
  have "distinct (map key (map snd (batch s)))" using assms(3) by (metis keyed_def keyed_entries)
  with accepts obtain d where
    "stmt (map snd (batch s)) ((database s)\<lparr>execs := execs (database s) + 1\<rparr>) = Some d" by blast
  with assms(1,2) False show ?thesis
    by (auto simp: flush_def db_exec_def Let_def split: option.splits)
qed (use assms(1) in \<open>simp add: flush_def\<close>)

lemma claim_inv_keyed: "claim_inv E ent len d s from pos com \<Longrightarrow> keyed key (batch s)"
  unfolding claim_inv_def by (metis keyed_add_entries keyed_Nil)

lemma claim_inv_drained:
  assumes "claim_inv E ent len d s from len com" and "batch s = []"
    and "from \<le> n" and "n < len" and "e \<in> set (ent n)"
  shows "stored E d e"
proof -
  from assms(1) obtain m where m: "batch s = fold (add_entry key ts) (concat (map ent [m..<len])) []"
    "covered E ent d from m"
    unfolding claim_inv_def by blast
  have "\<forall>x \<in> set (concat (map ent [m..<len])). key x \<noteq> key e"
    using add_entries_dom [of key ts "concat (map ent [m..<len])" "key e"] m(1) assms(2) by simp
  then have "e \<notin> set (concat (map ent [m..<len]))" by blast
  with assms(4,5) have "n < m" by (force simp: not_less)
  with m(2) assms(3,5) show ?thesis by (simp add: covered_def)
qed

text \<open>A claim is drained when it has read its partition to the end and nothing waits in its batch.\<close>

definition drained where
  "drained log g i \<longleftrightarrow> grNext g i = length (log i) \<and> batch (grClaims g i) = []"

lemma group_drains:
  assumes "group_inv unmarshal log g" and "well_logged unmarshal log" and "\<forall>n. \<not> db_fails n"
  shows "\<exists>g'. (group_step db_fails unmarshal key ts lim stmt rest log)\<^sup>*\<^sup>* g g' \<and>
    group_inv unmarshal log g' \<and> grFrom g' = grFrom g \<and> drained log g' i \<and>
    (\<forall>j. j \<noteq> i \<longrightarrow> drained log g j \<longrightarrow> drained log g' j)"
  using assms(1)
proof (induction "length (log i) - grNext g i" arbitrary: g rule: less_induct)
  case less
  let ?step = "group_step db_fails unmarshal key ts lim stmt rest log"
  show ?case
  proof (cases "grNext g i < length (log i)")
    case True
    from group_not_stuck(2) [OF less.prems assms(2) True, of db_fails lim] obtain s where
      "on_message db_fails unmarshal key ts lim stmt (log i ! grNext g i) (claim_state g i) = Some s" by blast
    with True have "?step g ((put_claim i s g)\<lparr>grNext := (grNext g)(i := grNext g i + 1)\<rparr>)"
      by (rule group_step.deliver [where g = g and i = i])
    then obtain g1 where g1: "?step g g1" "grNext g1 i = grNext g i + 1" "grFrom g1 = grFrom g"
      "\<forall>j. j \<noteq> i \<longrightarrow> drained log g j \<longrightarrow> drained log g1 j"
      by (fastforce simp: put_claim_def drained_def)
    from less.hyps [OF _ group_inv_step [OF g1(1) assms(2) less.prems]] g1(2) True
    obtain g' where "?step\<^sup>*\<^sup>* g1 g'" "group_inv unmarshal log g'" "grFrom g' = grFrom g1" "drained log g' i"
      "\<forall>j. j \<noteq> i \<longrightarrow> drained log g1 j \<longrightarrow> drained log g' j" by fastforce
    with g1(1,3,4) show ?thesis by (intro exI [of _ g']) (auto intro: converse_rtranclp_into_rtranclp)
  next
    case False
    note inv = group_inv_claim [OF less.prems, of i]
    have pos: "grNext g i = length (log i)"
      using inv(1) False unfolding claim_inv_def by auto
    from group_not_stuck(1) [OF less.prems assms(2), of db_fails i] obtain s where
      s: "flush db_fails stmt (claim_state g i) = Some s" by blast
    have step: "?step g (put_claim i s g)" by (rule group_step.timer) (rule s)
    have "batch s = []" by (rule flush_empties [OF s assms(3) claim_inv_keyed [OF inv(1)]])
    with pos step group_inv_step [OF step assms(2) less.prems] show ?thesis
      by (intro exI [of _ "put_claim i s g"]) (auto simp: put_claim_def drained_def)
  qed
qed

lemma drained_stored:
  assumes "group_inv unmarshal log g" and "drained log g i" and "n < length (log i)" and "grFrom g i \<le> n"
    and "e \<in> set (entries_in unmarshal (log i ! n))"
  shows "stored (all_entries unmarshal log) (grDb g) e"
proof -
  from assms(1,2) have "claim_inv (all_entries unmarshal log) (\<lambda>n. entries_in unmarshal (log i ! n)) (length (log i))
      (grDb g) (grClaims g i) (grFrom g i) (length (log i)) (grCommitted g i)" "batch (grClaims g i) = []"
    by (auto simp: group_inv_def drained_def dest: spec [of _ i])
  from claim_inv_drained [OF this assms(4,3,5)] show ?thesis .
qed

lemma group_catches_up:
  assumes "group_inv unmarshal log g" and "well_logged unmarshal log" and "\<forall>n. \<not> db_fails n"
  shows "\<exists>g'. (group_step db_fails unmarshal key ts lim stmt rest log)\<^sup>*\<^sup>* g g' \<and>
    grFrom g' = grFrom g \<and>
    (\<forall>n < length (log i). grFrom g i \<le> n \<longrightarrow> (\<forall>e \<in> set (entries_in unmarshal (log i ! n)).
       stored (all_entries unmarshal log) (grDb g') e))"
proof -
  from group_drains [OF assms, of lim i] obtain g' where
    g': "(group_step db_fails unmarshal key ts lim stmt rest log)\<^sup>*\<^sup>* g g'" "group_inv unmarshal log g'"
      "grFrom g' = grFrom g" "drained log g' i" by blast
  have "stored (all_entries unmarshal log) (grDb g') e"
    if "n < length (log i)" "grFrom g i \<le> n" "e \<in> set (entries_in unmarshal (log i ! n))" for n e
    using drained_stored [OF g'(2,4) that(1) _ that(3)] that(2) g'(3) by simp
  with g'(1,3) show ?thesis by blast
qed

text \<open>All of finitely many partitions, one after the other.\<close>

lemma group_drains_all:
  assumes "finite I" and "group_inv unmarshal log g" and "well_logged unmarshal log" and "\<forall>n. \<not> db_fails n"
  shows "\<exists>g'. (group_step db_fails unmarshal key ts lim stmt rest log)\<^sup>*\<^sup>* g g' \<and>
    group_inv unmarshal log g' \<and> grFrom g' = grFrom g \<and> (\<forall>i \<in> I. drained log g' i)"
  using assms(1)
proof (induction rule: finite_induct)
  case empty
  from assms(2) show ?case by blast
next
  case (insert i I)
  let ?step = "group_step db_fails unmarshal key ts lim stmt rest log"
  from insert.IH obtain g1 where g1: "?step\<^sup>*\<^sup>* g g1" "group_inv unmarshal log g1" "grFrom g1 = grFrom g"
    "\<forall>i \<in> I. drained log g1 i" by blast
  from group_drains [OF g1(2) assms(3,4), of lim i] obtain g' where
    "?step\<^sup>*\<^sup>* g1 g'" "group_inv unmarshal log g'" "grFrom g' = grFrom g1" "drained log g' i"
    "\<forall>j. j \<noteq> i \<longrightarrow> drained log g1 j \<longrightarrow> drained log g' j" by blast
  with g1 insert.hyps(2) show ?case by (intro exI [of _ g']) auto
qed

end

subsection \<open>The MAC and ARP groups\<close>

lemma delete_older_look:
  assumes "db_ok d"
  shows "get mac_key (macT (delete_older tb c d)) k = get mac_key (macT d) k \<or>
      get mac_key (macT (delete_older tb c d)) k = None \<and>
      (\<forall>r. get mac_key (macT d) k = Some r \<longrightarrow> rmAt r < c)"
    and "get arp_key (arpT (delete_older tb c d)) j = get arp_key (arpT d) j \<or>
      get arp_key (arpT (delete_older tb c d)) j = None \<and>
      (\<forall>r. get arp_key (arpT d) j = Some r \<longrightarrow> raAt r < c)"
  using assms
  by (cases tb; simp add: delete_older_def db_ok_def get_delete_where split: option.split)+

lemma elsewhere_ok: "elsewhere db_fails own c d d' \<Longrightarrow> db_ok d \<Longrightarrow> db_ok d'"
  by (induction rule: elsewhere.induct)
    (auto intro!: db_exec_ok intro: mac_upsert_ok arp_upsert_ok if_upsert_ok vlan_upsert_ok delete_older_ok)

lemma db_exec_cases:
  "snd (db_exec db_fails stmt d) = d\<lparr>execs := execs d + 1\<rparr> \<or>
   stmt (d\<lparr>execs := execs d + 1\<rparr>) = Some (snd (db_exec db_fails stmt d))"
  by (auto simp: db_exec_def Let_def split: option.split)

lemma elsewhere_mac:
  assumes "elsewhere db_fails MacTable c d d'" and "db_ok d"
  shows "get mac_key (macT d') k = get mac_key (macT d) k \<or>
    get mac_key (macT d') k = None \<and> (\<forall>r. get mac_key (macT d) k = Some r \<longrightarrow> rmAt r < c)"
  using assms
proof cases
  case (retention cutoff tb)
  with db_exec_cases [of db_fails "\<lambda>d. Some (delete_older tb cutoff d)" d]
    delete_older_look(1) [of "d\<lparr>execs := execs d + 1\<rparr>" tb cutoff k] assms(2) show ?thesis by force
qed (auto simp: db_exec_def Let_def arp_upsert_def if_upsert_def vlan_upsert_def split: option.splits if_splits)

lemma elsewhere_arp:
  assumes "elsewhere db_fails ArpTable c d d'" and "db_ok d"
  shows "get arp_key (arpT d') k = get arp_key (arpT d) k \<or>
    get arp_key (arpT d') k = None \<and> (\<forall>r. get arp_key (arpT d) k = Some r \<longrightarrow> raAt r < c)"
  using assms
proof cases
  case (retention cutoff tb)
  with db_exec_cases [of db_fails "\<lambda>d. Some (delete_older tb cutoff d)" d]
    delete_older_look(2) [of "d\<lparr>execs := execs d + 1\<rparr>" tb cutoff k] assms(2) show ?thesis by force
qed (auto simp: db_exec_def Let_def mac_upsert_def if_upsert_def vlan_upsert_def split: option.splits if_splits)

interpretation mac_group: batch_group mac_entry_key mTimestamp mac_upsert
  "\<lambda>d. get mac_key (macT d)" mac_row_of "\<lambda>d. (arpT d, ifT d, vlanT d)"
  "elsewhere db_fails MacTable c" "\<lambda>r. rmAt r < c" for db_fails c
  by unfold_locales (erule (1) elsewhere_ok, erule (1) elsewhere_mac)

interpretation arp_group: batch_group arp_entry_key aTimestamp arp_upsert
  "\<lambda>d. get arp_key (arpT d)" arp_row_of "\<lambda>d. (macT d, ifT d, vlanT d)"
  "elsewhere db_fails ArpTable c" "\<lambda>r. raAt r < c" for db_fails c
  by unfold_locales (erule (1) elsewhere_ok, erule (1) elsewhere_arp)

definition mac_group_step ::
    "(nat \<Rightarrow> bool) \<Rightarrow> instant \<Rightarrow> (nat \<Rightarrow> cmsg list) \<Rightarrow> (string \<times> string, mac_entry) group \<Rightarrow>
     (string \<times> string, mac_entry) group \<Rightarrow> bool" where
  "mac_group_step db_fails c =
     group_step db_fails (unmarshal_slice unmarshal_mac) mac_entry_key mTimestamp macBatchSize mac_upsert
       (elsewhere db_fails MacTable c)"

definition arp_group_step ::
    "(nat \<Rightarrow> bool) \<Rightarrow> instant \<Rightarrow> (nat \<Rightarrow> cmsg list) \<Rightarrow> (string \<times> string, arp_entry) group \<Rightarrow>
     (string \<times> string, arp_entry) group \<Rightarrow> bool" where
  "arp_group_step db_fails c =
     group_step db_fails (unmarshal_slice unmarshal_arp) arp_entry_key aTimestamp arpBatchSize arp_upsert
       (elsewhere db_fails ArpTable c)"

subsection \<open>Properties\<close>

text \<open>C10. At least once, for the whole consumer group: however the claims of the MAC partitions, the claims
  of the other topics, the retention loop, the commits and any number of crashes and rebalances are
  interleaved, and whatever statements fail, every MAC entry below a committed offset is stored: its
  key has the row of an entry of some partition, unless retention has deleted that row for its age.
  The partitions hold no malformed message; the entry lies behind the point where the group began to
  read the partition, which moves up only by a restart before the first commit.\<close>

theorem mac_group_loses_nothing:
  assumes "db_ok d" and "well_logged (unmarshal_slice unmarshal_mac) log"
    and "(mac_group_step db_fails c log)\<^sup>*\<^sup>* (group_start d) g"
    and "grCommitted g i = Some c0" and "grFrom g i \<le> n" and "n < c0"
    and "e \<in> set (entries_in (unmarshal_slice unmarshal_mac) (log i ! n))"
  shows "\<exists>e' \<in> all_entries (unmarshal_slice unmarshal_mac) log. mac_entry_key e' = mac_entry_key e \<and>
    (get mac_key (macT (grDb g)) (mac_entry_key e) = Some (mac_row_of e') \<or>
     get mac_key (macT (grDb g)) (mac_entry_key e) = None \<and> mTimestamp e' < c)"
proof -
  have "mac_group.group_inv c (unmarshal_slice unmarshal_mac) log g"
    using mac_group.group_inv_run assms(1-3) unfolding mac_group_step_def by blast
  from mac_group.group_committed [OF this assms(4-7)] show ?thesis
    by (simp add: mac_group.stored_def mac_row_of_def)
qed

text \<open>No run of the group gets stuck: in every state the ARP group reaches, the next message and the
  timer of every claim can be taken (no nil message is marked), and while the database works from
  there on, the claim of any partition can be run to its end, after which every ARP entry from where
  the group began is stored.\<close>

theorem arp_group_catches_up:
  assumes "db_ok d" and "well_logged (unmarshal_slice unmarshal_arp) log"
    and "(arp_group_step db_fails c log)\<^sup>*\<^sup>* (group_start d) g"
  shows "db_ok (grDb g) \<and> flush db_fails arp_upsert (claim_state g i) \<noteq> None \<and>
    (grNext g i < length (log i) \<longrightarrow>
       on_message db_fails (unmarshal_slice unmarshal_arp) arp_entry_key aTimestamp arpBatchSize arp_upsert
         (log i ! grNext g i) (claim_state g i) \<noteq> None) \<and>
    (\<exists>g'. (arp_group_step (\<lambda>_. False) c log)\<^sup>*\<^sup>* g g' \<and>
       (\<forall>n < length (log i). grFrom g i \<le> n \<longrightarrow> (\<forall>e \<in> set (entries_in (unmarshal_slice unmarshal_arp) (log i ! n)).
          \<exists>e' \<in> all_entries (unmarshal_slice unmarshal_arp) log. arp_entry_key e' = arp_entry_key e \<and>
            (get arp_key (arpT (grDb g')) (arp_entry_key e) = Some (arp_row_of e') \<or>
             get arp_key (arpT (grDb g')) (arp_entry_key e) = None \<and> aTimestamp e' < c))))"
proof -
  have inv: "arp_group.group_inv c (unmarshal_slice unmarshal_arp) log g"
    using arp_group.group_inv_run assms unfolding arp_group_step_def by blast
  have "\<exists>g'. (arp_group_step (\<lambda>_. False) c log)\<^sup>*\<^sup>* g g' \<and>
     grFrom g' = grFrom g \<and>
     (\<forall>n < length (log i). grFrom g i \<le> n \<longrightarrow> (\<forall>e \<in> set (entries_in (unmarshal_slice unmarshal_arp) (log i ! n)).
        arp_group.stored c (all_entries (unmarshal_slice unmarshal_arp) log) (grDb g') e))"
    unfolding arp_group_step_def by (rule arp_group.group_catches_up [OF inv assms(2)]) simp
  moreover have "arp_group.stored c (all_entries (unmarshal_slice unmarshal_arp) log) d e \<longleftrightarrow>
      (\<exists>e' \<in> all_entries (unmarshal_slice unmarshal_arp) log. arp_entry_key e' = arp_entry_key e \<and>
        (get arp_key (arpT d) (arp_entry_key e) = Some (arp_row_of e') \<or>
         get arp_key (arpT d) (arp_entry_key e) = None \<and> aTimestamp e' < c))" for d e
    by (simp add: arp_group.stored_def arp_row_of_def)
  ultimately show ?thesis
    using arp_group.group_not_stuck [OF inv assms(2)] inv
    by (simp add: arp_group.group_inv_def) blast
qed

text \<open>A topic of one partition with one message.\<close>

definition one_mac_log :: "nat \<Rightarrow> cmsg list" where
  "one_mac_log i = (if i = 0 then [mac_msg_at 0] else [])"

definition one_arp_log :: "nat \<Rightarrow> cmsg list" where
  "one_arp_log i =
     (if i = 0 then [\<lparr>cmOffset = 0, cmTopic = ''arp-table'', cmValue = Some (JArr [arp_json one_arp])\<rparr>] else [])"

lemma one_arp_batch: "unmarshal_slice unmarshal_arp (JArr [arp_json one_arp]) = Some [one_arp]"
  using unmarshal_arps_json [of "[one_arp]"] by simp

lemma one_logs:
  "well_logged (unmarshal_slice unmarshal_mac) one_mac_log"
  "well_logged (unmarshal_slice unmarshal_arp) one_arp_log"
  "all_entries (unmarshal_slice unmarshal_mac) one_mac_log = {one_mac}"
  "all_entries (unmarshal_slice unmarshal_arp) one_arp_log = {one_arp}"
  "entries_in (unmarshal_slice unmarshal_mac) (one_mac_log 0 ! 0) = [one_mac]"
  "entries_in (unmarshal_slice unmarshal_arp) (one_arp_log 0 ! 0) = [one_arp]"
  by (auto simp: well_logged_def all_entries_def entries_in_def one_mac_log_def one_arp_log_def
      mac_msg_at_def one_mac_batch one_arp_batch split: if_splits)

lemma single_mac_steps:
  assumes "log = (\<lambda>i. if i = 0 then [m] else [])" and "cmOffset m = 0"
    and "Option.bind (cmValue m) (unmarshal_slice unmarshal_mac) = Some [e]"
  shows "\<exists>g. (group_step (\<lambda>_. False) (unmarshal_slice unmarshal_mac) mac_entry_key mTimestamp macBatchSize mac_upsert
       rest log)\<^sup>*\<^sup>* (group_start empty_db) g \<and> grCommitted g 0 = Some 1 \<and> grFrom g 0 = 0"
proof -
  let ?step = "group_step (\<lambda>_. False) (unmarshal_slice unmarshal_mac) mac_entry_key mTimestamp macBatchSize mac_upsert
    rest log"
  let ?f = "\<lambda>_ :: nat. False"
  let ?g0 = "group_start empty_db :: (string \<times> string, mac_entry) group"
  let ?s1 = "\<lparr>batch = [(mac_entry_key e, e)], lastMsg = Some 0, marks = [], database = empty_db\<rparr>"
  let ?g1 = "(put_claim 0 ?s1 ?g0)\<lparr>grNext := (grNext ?g0)(0 := grNext ?g0 0 + 1)\<rparr>"
  have m: "on_message ?f (unmarshal_slice unmarshal_mac) mac_entry_key mTimestamp macBatchSize mac_upsert
      (log 0 ! grNext ?g0 0) (claim_state ?g0 0) = Some ?s1"
    using assms by (simp add: on_message_def claim_state_def group_start_def
        start_batch_def macBatchSize_def add_entry_def set_entry_def Let_def)
  have "?step ?g0 ?g1"
    by (rule group_step.deliver [where g = ?g0 and i = 0]) (simp add: assms(1) group_start_def, rule m)
  moreover obtain s2 where s2: "flush ?f mac_upsert (claim_state ?g1 0) = Some s2"
      "batch s2 = []" "marks s2 = [0]"
    by (simp add: flush_def claim_state_def put_claim_def db_exec_def Let_def mac_upsert_def)
  moreover have "?step ?g1 (put_claim 0 s2 ?g1)"
    by (rule group_step.timer) (rule s2(1))
  moreover let ?g2 = "put_claim 0 s2 ?g1"
  let ?g3 = "?g2\<lparr>grCommitted := (grCommitted ?g2)(0 := commit_offset (grCommitted ?g2 0) (marks (grClaims ?g2 0)))\<rparr>"
  have "?step ?g2 ?g3"
    by (rule group_step.commit)
  ultimately have "?step\<^sup>*\<^sup>* ?g0 ?g3"
    by (meson converse_rtranclp_into_rtranclp rtranclp.rtrancl_refl)
  then show ?thesis
    by (intro exI conjI) (auto simp: s2 put_claim_def group_start_def resume_offset_def commit_offset_def)
qed

lemma single_mac_run:
  assumes "log = (\<lambda>i. if i = 0 then [m] else [])" and "cmOffset m = 0"
    and "Option.bind (cmValue m) (unmarshal_slice unmarshal_mac) = Some [e]"
  shows "\<exists>g. (mac_group_step (\<lambda>_. False) c log)\<^sup>*\<^sup>* (group_start empty_db) g \<and> grCommitted g 0 = Some 1 \<and>
     grFrom g 0 = 0"
  unfolding mac_group_step_def by (rule single_mac_steps [OF assms])

lemma one_mac_run:
  "\<exists>g. (mac_group_step (\<lambda>_. False) 0 one_mac_log)\<^sup>*\<^sup>* (group_start empty_db) g \<and> grCommitted g 0 = Some 1 \<and>
     grFrom g 0 = 0"
  by (rule single_mac_run [of _ "mac_msg_at 0" one_mac])
     (simp_all add: one_mac_log_def fun_eq_iff mac_msg_at_def one_mac_batch)

theorem mac_group_loses_nothing_witness:
  "\<exists>g r. (mac_group_step (\<lambda>_. False) 0 one_mac_log)\<^sup>*\<^sup>* (group_start empty_db) g \<and>
     get mac_key (macT (grDb g)) (''sw1'', ''a'') = Some r"
proof -
  obtain g where g: "(mac_group_step (\<lambda>_. False) 0 one_mac_log)\<^sup>*\<^sup>* (group_start empty_db) g"
      "grCommitted g 0 = Some 1" "grFrom g 0 = 0"
    using one_mac_run by blast
  from mac_group_loses_nothing [OF db_ok_empty one_logs(1) g(1,2), of 0 one_mac] g(3)
  have "get mac_key (macT (grDb g)) (mac_entry_key one_mac) = Some (mac_row_of one_mac)"
    by (simp add: one_logs) (simp add: one_mac_def)
  with g(1) show ?thesis by (auto simp: one_mac_def)
qed

theorem arp_group_catches_up_witness:
  "\<exists>g. (arp_group_step (\<lambda>_. False) 0 one_arp_log)\<^sup>*\<^sup>* (group_start empty_db) g \<and>
     get arp_key (arpT (grDb g)) (''sw1'', ''10.0.0.9'') = Some (arp_row_of one_arp)"
proof -
  let ?g0 = "group_start empty_db :: (string \<times> string, arp_entry) group"
  obtain g where g: "(arp_group_step (\<lambda>_. False) 0 one_arp_log)\<^sup>*\<^sup>* ?g0 g"
    "\<forall>n < length (one_arp_log 0). grFrom ?g0 0 \<le> n \<longrightarrow>
      (\<forall>e \<in> set (entries_in (unmarshal_slice unmarshal_arp) (one_arp_log 0 ! n)).
       \<exists>e' \<in> all_entries (unmarshal_slice unmarshal_arp) one_arp_log. arp_entry_key e' = arp_entry_key e \<and>
         (get arp_key (arpT (grDb g)) (arp_entry_key e) = Some (arp_row_of e') \<or>
          get arp_key (arpT (grDb g)) (arp_entry_key e) = None \<and> aTimestamp e' < 0))"
    using arp_group_catches_up [where db_fails = "\<lambda>_. False" and c = 0 and i = 0,
      OF db_ok_empty one_logs(2) rtranclp.rtrancl_refl] by blast
  have "get arp_key (arpT (grDb g)) (arp_entry_key one_arp) = Some (arp_row_of one_arp)"
    using spec [OF g(2), of 0] by (simp add: one_logs group_start_def) (simp add: one_arp_log_def one_arp_def)
  with g(1) show ?thesis by (auto simp: one_arp_def)
qed

text \<open>
  Before the first commit of a partition there is a gap: a restart there drops the batch and goes on at
  the newest message, so a message that was delivered and not written is neither pending nor will it
  come again. (The group starts at \<open>OffsetNewest\<close> whenever it has no committed offset.)
\<close>

lemma uncommitted_restart_skips:
  assumes "grCommitted g i = None" and "grNext g i \<le> length (log i)"
  shows "\<exists>g'. mac_group_step db_fails c log g g' \<and> batch (grClaims g' i) = [] \<and> grDb g' = grDb g \<and>
    grNext g' i = grNext g i \<and> grFrom g' i = grNext g i"
  unfolding mac_group_step_def
  by (rule exI, rule conjI, rule group_step.fresh [where i = i and newest = "grNext g i"])
    (simp_all add: assms start_batch_def)

end
