(* ===== verification/Network.thy ===== *)
theory Network imports Server EndToEnd Group begin

text \<open>
  The whole system under many devices: streams overlap in the collector (\<open>Server\<close>), Kafka spreads the
  messages of a topic over partitions and delivers each at least once, the consumer stores them, and
  the web application answers. The answer is compared with an inventory taken from what the devices
  sent, whatever the interleaving, the partitions and the repetitions.
\<close>

subsection \<open>The newest write wins in any order\<close>

context guarded_store
begin

text \<open>What every write of the argument \<open>a\<close> makes true of the row stays true, if \<open>a\<close> is the newest.\<close>

lemma newest_wins:
  assumes "invar t" and "look t k = None" and "a \<in> set as" and "akey a = k"
    and newest: "\<forall>b \<in> set as. akey b = k \<longrightarrow> b = a \<or> stamp_of b < stamp_of a"
    and holds: "\<And>old. \<forall>r. old = Some r \<longrightarrow> stamp r \<le> stamp_of a \<Longrightarrow> P (merge a old)"
  shows "\<exists>r. look (fold put as t) k = Some r \<and> P r \<and> stamp r = stamp_of a"
proof -
  define after where "after t \<longleftrightarrow> (\<exists>r. look t k = Some r \<and> P r \<and> stamp r = stamp_of a)" for t
  define before where "before t \<longleftrightarrow> (\<forall>r. look t k = Some r \<longrightarrow> stamp r < stamp_of a)" for t
  have hit: "after (put a t)" if "invar t" "before t \<or> after t" for t
  proof -
    have old: "\<forall>r. look t k = Some r \<longrightarrow> stamp r \<le> stamp_of a"
      using that(2) by (auto simp: before_def after_def)
    have "stamp (merge a (look t k)) = stamp_of a"
      using old merge_fresh merge_new by (cases "look t k") auto
    then show ?thesis using holds [OF old] that(1) assms(4) by (simp add: after_def look_put)
  qed
  have other: "(before t \<longrightarrow> before (put b t)) \<and> (after t \<longrightarrow> after (put b t))"
    if "invar t" "akey b = k \<longrightarrow> stamp_of b < stamp_of a" for t b
  proof (cases "akey b = k")
    case True
    have "before (put b t)" if "before t"
      using stamp_put [OF \<open>invar t\<close>, of b k] True that \<open>akey b = k \<longrightarrow> _\<close>
      by (cases "look t k") (auto simp: before_def)
    moreover have "after (put b t)" if "after t"
      using True that \<open>invar t\<close> \<open>akey b = k \<longrightarrow> _\<close> merge_stale by (auto simp: after_def look_put)
    ultimately show ?thesis by blast
  next
    case False
    then show ?thesis using that(1) by (auto simp: before_def after_def look_put)
  qed
  have "(before t \<and> a \<in> set as \<or> after t \<longrightarrow> after (fold put as t))"
    if "invar t" "\<forall>b \<in> set as. akey b = k \<longrightarrow> b = a \<or> stamp_of b < stamp_of a" for t as
    using that
  proof (induction as arbitrary: t)
    case (Cons b as)
    show ?case
    proof (cases "b = a")
      case True
      with Cons hit [of t] show ?thesis by (auto simp: invar_put)
    next
      case False
      with Cons other [of t b] show ?thesis by (auto simp: invar_put)
    qed
  qed simp
  from this [OF assms(1) newest] assms(2,3) show ?thesis by (simp add: before_def after_def)
qed

text \<open>A key is present afterwards exactly when it was written.\<close>

lemma look_puts_None:
  assumes "invar t"
  shows "look (fold put as t) k = None \<longleftrightarrow> look t k = None \<and> k \<notin> akey ` set as"
  using assms
proof (induction as arbitrary: t)
  case (Cons a as)
  then show ?case by (auto simp: invar_put look_put)
qed simp

end

subsection \<open>What the collector has published\<close>

text \<open>The telemetry messages the server has received, and their VLAN entries.\<close>

definition heard :: "(8 word list \<Rightarrow> telemetry option) \<Rightarrow> server \<Rightarrow> telemetry set" where
  "heard decode s = {t. \<exists>c st. svStreams s c = Some st \<and> t \<in> set (stream_msgs decode (smGot st))}"

definition heard_vlans :: "(8 word list \<Rightarrow> telemetry option) \<Rightarrow> server \<Rightarrow> vlan_entry set" where
  "heard_vlans decode s =
     {e. fits_integer (uint (vVlanID e)) \<and>
       (\<exists>t \<in> heard decode s. isVlan (EncodingPath t) \<and> year_ok (msg_time t) \<and> e \<in> set (vlan_entries t))}"

definition heard_ifs :: "(8 word list \<Rightarrow> telemetry option) \<Rightarrow> server \<Rightarrow> if_entry set" where
  "heard_ifs decode s =
     {e. columns_fit e \<and>
       (\<exists>t \<in> heard decode s. isInterface (EncodingPath t) \<and> year_ok (msg_time t) \<and> e \<in> set (if_entries t))}"

definition all_idle :: "server \<Rightarrow> bool" where
  "all_idle s \<longleftrightarrow> (\<forall>c st. svStreams s c = Some st \<longrightarrow> smTodo st = [])"

lemma dispatch_all_sends:
  "\<forall>k. \<not> f k \<Longrightarrow> sent (dispatch_all f ts p) = sent p @ concat (map to_send ts)"
proof (induction ts rule: rev_induct)
  case (snoc t ts)
  then show ?case using send_all_no_faults [OF snoc.prems] by (simp add: dispatch_all_snoc)
qed (simp add: dispatch_all_def)

lemma stream_log:
  assumes "stream_inv decode out st" and "True \<notin> set (smFaults st)" and "smTodo st = []"
  shows "out = concat (map to_send (stream_msgs decode (smGot st)))"
proof -
  have "\<forall>k. \<not> faults (smFaults st) k" using assms(2) by (metis faults_def nth_mem)
  from dispatch_all_sends [OF this] assms(1,3) show ?thesis
    by (auto simp: stream_inv_def at_message_def Let_def)
qed

lemma published_set:
  assumes "server_reachable decode fails s" and "\<forall>k. \<not> fails k" and "all_idle s"
  shows "set (sent (svProducer s)) = (\<Union>t \<in> heard decode s. set (to_send t))"
proof -
  note inv = server_reachable_inv [OF assms(1)]
  have log: "log_of c s = concat (map to_send (stream_msgs decode (smGot st)))" if "svStreams s c = Some st" for c st
    using server_inv_stream [OF inv that] assms(2,3) that by (intro stream_log) (auto simp: all_idle_def)
  have none: "log_of c s = []" if "svStreams s c = None" for c
    using server_inv_entry [OF inv, of c] that by (simp add: entry_ok_def)
  have "m \<in> set (sent (svProducer s)) \<longleftrightarrow> (\<exists>c. m \<in> set (log_of c s))" for m
  proof -
    have "set (sent (svProducer s)) = snd ` set (svLog s)" using inv by (simp add: server_inv_def)
    then have "m \<in> set (sent (svProducer s)) \<longleftrightarrow> (\<exists>c. (c, m) \<in> set (svLog s))" by force
    moreover have "m \<in> set (log_of c s) \<longleftrightarrow> (c, m) \<in> set (svLog s)" for c
      by (force simp: log_of_def)
    ultimately show ?thesis by simp
  qed
  also have "(\<exists>c. m \<in> set (log_of c s)) \<longleftrightarrow> (\<exists>t \<in> heard decode s. m \<in> set (to_send t))" for m
  proof
    assume "\<exists>c. m \<in> set (log_of c s)"
    then obtain c where c: "m \<in> set (log_of c s)" ..
    with none obtain st where "svStreams s c = Some st" by (cases "svStreams s c") auto
    with c log [OF this] obtain t where "t \<in> set (stream_msgs decode (smGot st))" "m \<in> set (to_send t)" by auto
    with \<open>svStreams s c = Some st\<close> show "\<exists>t \<in> heard decode s. m \<in> set (to_send t)"
      by (auto simp: heard_def)
  next
    assume "\<exists>t \<in> heard decode s. m \<in> set (to_send t)"
    then obtain c st t where "svStreams s c = Some st" "t \<in> set (stream_msgs decode (smGot st))" "m \<in> set (to_send t)"
      by (auto simp: heard_def)
    with log show "\<exists>c. m \<in> set (log_of c s)" by (intro exI [of _ c]) auto
  qed
  finally show ?thesis by blast
qed

lemma sent_vlans:
  assumes "m \<in> set (to_send t)" and "kTopic m = ''vlan-table''"
  shows "isVlan (EncodingPath t) \<and> year_ok (msg_time t) \<and> m \<in> vlan_msg ` set (vlan_entries t)"
  using assms by (auto simp: to_send_def published_def if_msg_def split: if_splits)

lemma sends_vlan:
  "isVlan (EncodingPath t) \<Longrightarrow> year_ok (msg_time t) \<Longrightarrow> e \<in> set (vlan_entries t) \<Longrightarrow>
    vlan_msg e \<in> set (to_send t) \<and> kTopic (vlan_msg e) = ''vlan-table''"
  by (simp add: to_send_def published_topics vlan_msg_def)

lemma sent_ifs:
  assumes "m \<in> set (to_send t)" and "kTopic m = ''interface-table''"
  shows "isInterface (EncodingPath t) \<and> year_ok (msg_time t) \<and> m \<in> if_msg ` set (if_entries t)"
  using assms by (auto simp: to_send_def published_def vlan_msg_def split: if_splits)

lemma sends_if:
  "isInterface (EncodingPath t) \<Longrightarrow> year_ok (msg_time t) \<Longrightarrow> e \<in> set (if_entries t) \<Longrightarrow>
    if_msg e \<in> set (to_send t) \<and> kTopic (if_msg e) = ''interface-table''"
  by (simp add: to_send_def published_topics if_msg_def)

text \<open>At-least-once delivery: the messages of the topic the claims were given hold its published values, in
  any order, some perhaps repeatedly.\<close>

definition delivers :: "string \<Rightarrow> kmsg list \<Rightarrow> cmsg list \<Rightarrow> bool" where
  "delivers topic ks ms \<longleftrightarrow>
     cmValue ` {m \<in> set ms. cmTopic m = topic} = (\<lambda>m. Some (kValue m)) ` {m \<in> set ks. kTopic m = topic}"

lemma map_filter_set: "set (List.map_filter f xs) = {y. \<exists>x \<in> set xs. f x = Some y}"
  by (force simp: List.map_filter_def)

text \<open>What a row topic carries, for a parser of its values and the test of the statement on its arguments.\<close>

lemma delivered_entries:
  assumes "delivers topic ks ms" and "\<And>m. m \<in> set ks \<Longrightarrow> kTopic m = topic \<longleftrightarrow> m \<in> msg ` es"
    and "\<And>e. e \<in> es \<Longrightarrow> msg e \<in> set ks"
    and "\<And>e m. e \<in> es \<Longrightarrow> cmTopic m = topic \<Longrightarrow> cmValue m = Some (kValue (msg e)) \<Longrightarrow>
      of_msg m = (if fit e then Some (wire e) else None)"
    and "\<And>m. cmTopic m \<noteq> topic \<Longrightarrow> of_msg m = None"
  shows "set (List.map_filter of_msg ms) = wire ` {e \<in> es. fit e}"
proof -
  have "{m \<in> set ks. kTopic m = topic} = msg ` es" using assms(2,3) by blast
  with assms(1) have sent_values: "cmValue ` {m \<in> set ms. cmTopic m = topic} = (\<lambda>e. Some (kValue (msg e))) ` es"
    by (simp add: delivers_def image_image)
  show ?thesis
  proof (intro set_eqI iffI)
    fix x assume "x \<in> set (List.map_filter of_msg ms)"
    then obtain m where m: "m \<in> set ms" "of_msg m = Some x" by (auto simp: map_filter_set)
    with assms(5) have topic: "cmTopic m = topic" by fastforce
    with m(1) sent_values obtain e where e: "e \<in> es" "cmValue m = Some (kValue (msg e))" by blast
    with assms(4) [OF e(1) topic e(2)] m(2) show "x \<in> wire ` {e \<in> es. fit e}" by (auto split: if_splits)
  next
    fix x assume "x \<in> wire ` {e \<in> es. fit e}"
    then obtain e where e: "e \<in> es" "fit e" "x = wire e" by blast
    with sent_values have "Some (kValue (msg e)) \<in> cmValue ` {m \<in> set ms. cmTopic m = topic}" by blast
    then obtain m where "m \<in> set ms" "cmTopic m = topic" "cmValue m = Some (kValue (msg e))" by auto
    with assms(4) [of e m] e show "x \<in> set (List.map_filter of_msg ms)" by (auto simp: map_filter_set)
  qed
qed

lemma delivered_vlans:
  assumes "server_reachable decode fails s" and "\<forall>k. \<not> fails k" and "all_idle s"
    and "delivers ''vlan-table'' (sent (svProducer s)) ms"
  shows "set (List.map_filter vlan_of_msg ms) = heard_vlans decode s"
proof -
  let ?es = "{e. \<exists>t \<in> heard decode s. isVlan (EncodingPath t) \<and> year_ok (msg_time t) \<and> e \<in> set (vlan_entries t)}"
  note sent = published_set [OF assms(1-3)]
  have "set (List.map_filter vlan_of_msg ms) = (\<lambda>e. e) ` {e \<in> ?es. fits_integer (uint (vVlanID e))}"
  proof (rule delivered_entries [OF assms(4), where msg = vlan_msg])
    show "kTopic m = ''vlan-table'' \<longleftrightarrow> m \<in> vlan_msg ` ?es" if "m \<in> set (sent (svProducer s))" for m
      using that sent_vlans sends_vlan unfolding sent by blast
    show "vlan_msg e \<in> set (sent (svProducer s))" if "e \<in> ?es" for e
      using that sends_vlan unfolding sent by blast
  qed (simp_all add: vlan_of_msg_def vlan_msg_def unmarshal_vlan_json)
  then show ?thesis by (auto simp: heard_vlans_def)
qed

lemma delivered_ifs:
  assumes "server_reachable decode fails s" and "\<forall>k. \<not> fails k" and "all_idle s"
    and "delivers ''interface-table'' (sent (svProducer s)) ms"
  shows "set (List.map_filter if_of_msg ms) = if_entry_wire ` heard_ifs decode s"
proof -
  let ?es = "{e. \<exists>t \<in> heard decode s. isInterface (EncodingPath t) \<and> year_ok (msg_time t) \<and> e \<in> set (if_entries t)}"
  note sent = published_set [OF assms(1-3)]
  have wire: "unmarshal_if (if_json e) = Some (if_entry_wire e)" "if_args_ok (if_entry_wire e) \<longleftrightarrow> columns_fit e"
    if "e \<in> ?es" for e
  proof -
    from that if_entries_prefix have "prefix_ok e" by auto
    then show "unmarshal_if (if_json e) = Some (if_entry_wire e)" "if_args_ok (if_entry_wire e) \<longleftrightarrow> columns_fit e"
      by (fastforce simp: prefix_ok_def intro!: unmarshal_if_json, simp add: if_entry_wire_args)
  qed
  have "set (List.map_filter if_of_msg ms) = if_entry_wire ` {e \<in> ?es. columns_fit e}"
  proof (rule delivered_entries [OF assms(4), where msg = if_msg])
    show "kTopic m = ''interface-table'' \<longleftrightarrow> m \<in> if_msg ` ?es" if "m \<in> set (sent (svProducer s))" for m
      using that sent_ifs sends_if unfolding sent by blast
    show "if_msg e \<in> set (sent (svProducer s))" if "e \<in> ?es" for e
      using that sends_if unfolding sent by blast
    show "if_of_msg m = (if columns_fit e then Some (if_entry_wire e) else None)"
      if "e \<in> ?es" "cmTopic m = ''interface-table''" "cmValue m = Some (kValue (if_msg e))" for e m
      using wire [OF that(1)] that(2,3) by (simp add: if_of_msg_def if_msg_def)
  qed (simp add: if_of_msg_def)
  then show ?thesis unfolding heard_ifs_def by (simp add: conj_commute)
qed

subsection \<open>The partitions of the MAC topic\<close>

text \<open>Kafka keeps the messages of a topic in partitions and counts them; it adds none and loses none.\<close>

definition partitions :: "string \<Rightarrow> kmsg list \<Rightarrow> (nat \<Rightarrow> cmsg list) \<Rightarrow> bool" where
  "partitions topic ks log \<longleftrightarrow>
     (\<forall>i n. n < length (log i) \<longrightarrow> cmOffset (log i ! n) = n \<and>
        (\<exists>m \<in> set ks. kTopic m = topic \<and> cmValue (log i ! n) = Some (kValue m))) \<and>
     (\<forall>m \<in> set ks. kTopic m = topic \<longrightarrow> (\<exists>i n. n < length (log i) \<and> cmValue (log i ! n) = Some (kValue m)))"

definition heard_macs :: "(8 word list \<Rightarrow> telemetry option) \<Rightarrow> server \<Rightarrow> mac_entry set" where
  "heard_macs decode s =
     {e. \<exists>t \<in> heard decode s. isMAC (EncodingPath t) \<and> year_ok (msg_time t) \<and> e \<in> set (mac_entries t)}"

lemma sent_macs:
  assumes "m \<in> set (to_send t)" and "kTopic m = ''mac-table''"
  shows "isMAC (EncodingPath t) \<and> year_ok (msg_time t) \<and> kValue m = JArr (map mac_json (mac_entries t))"
  using assms by (auto simp: to_send_def published_def if_msg_def vlan_msg_def split: if_splits)

lemma sends_macs:
  assumes "isMAC (EncodingPath t)" and "year_ok (msg_time t)" and "e \<in> set (mac_entries t)"
  shows "\<exists>m \<in> set (to_send t). kTopic m = ''mac-table'' \<and> kValue m = JArr (map mac_json (mac_entries t))"
proof -
  from assms(3) have "mac_entries t \<noteq> []" by auto
  with assms(1,2) show ?thesis by (simp add: to_send_def published_topics)
qed

lemma partitioned_macs:
  assumes "server_reachable decode fails s" and "\<forall>k. \<not> fails k" and "all_idle s"
    and "partitions ''mac-table'' (sent (svProducer s)) log"
  shows "well_logged (unmarshal_slice unmarshal_mac) log"
    and "all_entries (unmarshal_slice unmarshal_mac) log \<subseteq> heard_macs decode s"
    and "\<And>e. e \<in> heard_macs decode s \<Longrightarrow>
      \<exists>i n. n < length (log i) \<and> e \<in> set (entries_in (unmarshal_slice unmarshal_mac) (log i ! n))"
proof -
  note sent = published_set [OF assms(1-3)]
  have message: "\<exists>t \<in> heard decode s. isMAC (EncodingPath t) \<and> year_ok (msg_time t) \<and>
      Option.bind (cmValue (log i ! n)) (unmarshal_slice unmarshal_mac) = Some (mac_entries t)"
    if n: "n < length (log i)" for i n
  proof -
    from assms(4) n obtain m where m: "m \<in> set (sent (svProducer s))" "kTopic m = ''mac-table''"
      "cmValue (log i ! n) = Some (kValue m)" unfolding partitions_def by blast
    from m(1) obtain t where t: "t \<in> heard decode s" "m \<in> set (to_send t)" unfolding sent by blast
    with sent_macs [OF t(2) m(2)] m(3) show ?thesis by (auto simp: unmarshal_macs_json)
  qed
  show "well_logged (unmarshal_slice unmarshal_mac) log"
    using assms(4) message unfolding well_logged_def partitions_def by fastforce
  show "all_entries (unmarshal_slice unmarshal_mac) log \<subseteq> heard_macs decode s"
    using message by (fastforce simp: all_entries_def entries_in_def heard_macs_def)
  fix e assume "e \<in> heard_macs decode s"
  then obtain t where t: "t \<in> heard decode s" "isMAC (EncodingPath t)" "year_ok (msg_time t)" "e \<in> set (mac_entries t)"
    by (auto simp: heard_macs_def)
  from sends_macs [OF t(2-4)] obtain m where m: "m \<in> set (to_send t)" "kTopic m = ''mac-table''"
    "kValue m = JArr (map mac_json (mac_entries t))" by blast
  with t(1) have "m \<in> set (sent (svProducer s))" unfolding sent by blast
  with assms(4) m(2) obtain i n where "n < length (log i)" "cmValue (log i ! n) = Some (kValue m)"
    unfolding partitions_def by blast
  with t(4) m(3) show "\<exists>i n. n < length (log i) \<and> e \<in> set (entries_in (unmarshal_slice unmarshal_mac) (log i ! n))"
    by (intro exI [of _ i] exI [of _ n]) (simp add: entries_in_def unmarshal_macs_json)
qed

subsection \<open>The VLAN list\<close>

lemma vlans_of_node:
  assumes "db_ok d" and "node \<noteq> []" and "query ''node_id'' = node"
  shows "\<exists>vs. VlansHandler False d ''GET'' query = Reply 200 vs \<and> distinct (map vrVlanID vs) \<and>
    (\<forall>n nm. \<lparr>vrVlanID = n, vrName = nm\<rparr> \<in> set vs \<longleftrightarrow>
       (\<exists>r. get vlan_key (vlanT d) (node, n) = Some r \<and> rvName r = nm))"
proof -
  let ?rs = "filter (\<lambda>r. rvNode r = node) (map snd (rows (vlanT d)))"
  have ok: "table_ok vlan_key (vlanT d)" using assms(1) by (simp add: db_ok_def)
  then have "distinct (map vlan_key (map snd (rows (vlanT d))))" by (simp add: table_ok_def comp_def)
  then have "distinct (map vlan_key ?rs)" by (rule distinct_map_filter)
  then have "distinct (map rvVlanId ?rs)" by (auto simp: distinct_map inj_on_def)
  then have "distinct (map rvVlanId (sort_key rvVlanId ?rs))" by (simp add: distinct_map)
  moreover have "VlansHandler False d ''GET'' query = Reply 200 (vlansSQL d node)"
    using assms(2,3) by (simp add: VlansHandler_def Let_def)
  moreover have "\<lparr>vrVlanID = n, vrName = nm\<rparr> \<in> set (vlansSQL d node) \<longleftrightarrow>
      (\<exists>r. get vlan_key (vlanT d) (node, n) = Some r \<and> rvName r = nm)" for n nm
    unfolding get_Some_iff [OF ok] by (force simp: vlansSQL_def)
  ultimately show ?thesis by (auto simp: vlansSQL_def comp_def)
qed

text \<open>The newest push of a VLAN and of an interface decide what is stored, in whatever order they arrive.\<close>

definition newest_vlan :: "vlan_entry set \<Rightarrow> vlan_entry \<Rightarrow> bool" where
  "newest_vlan E e \<longleftrightarrow>
     e \<in> E \<and> (\<forall>e' \<in> E. vlan_entry_key e' = vlan_entry_key e \<longrightarrow> e' = e \<or> vTimestamp e' < vTimestamp e)"

definition newest_if :: "if_entry set \<Rightarrow> if_entry \<Rightarrow> bool" where
  "newest_if E e \<longleftrightarrow>
     e \<in> E \<and> (\<forall>e' \<in> E. (iNodeID e', iName e') = (iNodeID e, iName e) \<longrightarrow> e' = e \<or> iTimestamp e' < iTimestamp e)"

lemma newest_vlan_stored:
  assumes "newest_vlan (set es) e" and "vName e = Some name" and "table_ok vlan_key t" and "get vlan_key t (vlan_entry_key e) = None"
  shows "\<exists>r. get vlan_key (fold vlan_put es t) (vlan_entry_key e) = Some r \<and> rvName r = Some name"
proof -
  have "rvName (vlan_merge e old) = Some name" if "\<forall>r. old = Some r \<longrightarrow> rvAt r \<le> vTimestamp e" for old
    using vlan_merge_name [OF that] assms(2) by (simp add: coalesce_def)
  from vlans.newest_wins [where P = "\<lambda>r. rvName r = Some name" and k = "vlan_entry_key e", OF assms(3,4) _ refl _ this, of es]
    assms(1) show ?thesis by (auto simp: newest_vlan_def)
qed

lemma newest_if_stored:
  assumes "set es = if_entry_wire ` E" and "newest_if E e" and "iAccessVlan e = Some w"
    and "table_ok if_key t" and "get if_key t (iNodeID e, iName e) = None"
  shows "\<exists>r. get if_key (fold if_put es t) (iNodeID e, iName e) = Some r \<and> riAccessVlan r = uint w \<and>
    riShutdown r = iShutdown e \<and> (iDescription e \<noteq> None \<longrightarrow> riDescription r = iDescription e) \<and> riAt r = iTimestamp e"
proof -
  let ?P = "\<lambda>r. riAccessVlan r = uint w \<and> riShutdown r = iShutdown e \<and> (iDescription e \<noteq> None \<longrightarrow> riDescription r = iDescription e)"
  have "?P (if_merge (if_entry_wire e) old)"
    if "\<forall>r. old = Some r \<longrightarrow> riAt r \<le> jTimestamp (if_entry_wire e)" for old
    using if_merge_described [of old e] that assms(3) by (auto simp: if_entry_wire_def coalesce_def)
  moreover have "if_entry_wire e \<in> set es" and "if_entry_key (if_entry_wire e) = (iNodeID e, iName e)"
    and "\<forall>b \<in> set es. if_entry_key b = (iNodeID e, iName e) \<longrightarrow>
      b = if_entry_wire e \<or> jTimestamp b < jTimestamp (if_entry_wire e)"
    using assms(1,2) by (auto simp: newest_if_def if_entry_wire_def)
  ultimately show ?thesis
    using ifs.newest_wins [where P = ?P and a = "if_entry_wire e" and as = es, OF assms(4,5)]
    by (auto simp: if_entry_wire_def)
qed

text \<open>The pages over tables that hold the writes \<open>es\<close> and no others.\<close>

lemma vlan_page_shows:
  assumes "vlanT d = fold vlan_put es t0" and "table_ok vlan_key t0" and "\<And>k. get vlan_key t0 k = None"
    and "set es = E" and "db_ok d" and "query ''node_id'' = node" and "node \<noteq> []"
  shows "\<exists>vs. VlansHandler False d ''GET'' query = Reply 200 vs \<and> distinct (map vrVlanID vs) \<and>
    vrVlanID ` set vs = {uint (vVlanID e) | e. e \<in> E \<and> vNodeID e = node} \<and>
    (\<forall>e \<in> E. \<forall>name. vNodeID e = node \<longrightarrow> vName e = Some name \<longrightarrow>
       newest_vlan E e \<longrightarrow> \<lparr>vrVlanID = uint (vVlanID e), vrName = Some name\<rparr> \<in> set vs)"
proof -
  from vlans_of_node [OF assms(5,7), of query] assms(6) obtain vs where
    vs: "VlansHandler False d ''GET'' query = Reply 200 vs" "distinct (map vrVlanID vs)"
    and row: "\<And>n nm. \<lparr>vrVlanID = n, vrName = nm\<rparr> \<in> set vs \<longleftrightarrow>
       (\<exists>r. get vlan_key (vlanT d) (node, n) = Some r \<and> rvName r = nm)" by blast
  have listed: "n \<in> vrVlanID ` set vs \<longleftrightarrow> (\<exists>nm. \<lparr>vrVlanID = n, vrName = nm\<rparr> \<in> set vs)" for n
    by (metis image_eqI vlan_record.cases vlan_record.select_convs(1) imageE)
  have ids: "n \<in> vrVlanID ` set vs \<longleftrightarrow> (\<exists>e \<in> E. (vNodeID e, uint (vVlanID e)) = (node, n))" for n
  proof -
    have "n \<in> vrVlanID ` set vs \<longleftrightarrow> get vlan_key (vlanT d) (node, n) \<noteq> None"
      unfolding listed row by auto
    also have "\<dots> \<longleftrightarrow> (node, n) \<in> vlan_entry_key ` set es"
      unfolding assms(1) vlans.look_puts_None [OF assms(2)] using assms(3) by simp
    finally show ?thesis by (auto simp: assms(4))
  qed
  have named: "\<lparr>vrVlanID = uint (vVlanID e), vrName = Some name\<rparr> \<in> set vs"
    if e: "e \<in> E" "vNodeID e = node" "vName e = Some name" and newest: "newest_vlan E e" for e name
  proof -
    from newest_vlan_stored [of es e name, OF _ e(3) assms(2,3)] newest obtain r where
      "get vlan_key (fold vlan_put es t0) (vlan_entry_key e) = Some r" "rvName r = Some name"
      unfolding assms(4) by blast
    then show ?thesis unfolding row assms(1) e(2) [symmetric] by blast
  qed
  have "vrVlanID ` set vs = {uint (vVlanID e) | e. e \<in> E \<and> vNodeID e = node}"
    unfolding set_eq_iff ids by auto
  with vs named show ?thesis by (intro exI [of _ vs]) blast
qed

lemma port_page_shows:
  assumes "ifT d = fold if_put is t0" and "table_ok if_key t0" and "\<And>k. get if_key t0 k = None"
    and "vlanT d = fold vlan_put vs u0" and "table_ok vlan_key u0" and "\<And>k. get vlan_key u0 k = None"
    and "set is = if_entry_wire ` E" and "set vs = V"
    and "newest_if E e" and "iAccessVlan e = Some w"
    and "newest_vlan V v" and "vlan_entry_key v = (iNodeID e, uint w)" and "vName v = Some name"
    and "query ''node_id'' = iNodeID e" and "query ''port'' = iName e" and "iNodeID e \<noteq> []" and "iName e \<noteq> []"
  shows "\<exists>res. PortHandler False d ''GET'' query = Reply 200 res \<and>
    prNode res = iNodeID e \<and> prName res = iName e \<and> prAccessVlan res = uint w \<and> prAccessName res = Some name \<and>
    prShutdown res = iShutdown e \<and> (iDescription e \<noteq> None \<longrightarrow> prDescription res = iDescription e) \<and>
    prCollected res = to_second (iTimestamp e)"
proof -
  obtain i where i: "get if_key (ifT d) (iNodeID e, iName e) = Some i" "riAccessVlan i = uint w"
    "riShutdown i = iShutdown e" "iDescription e \<noteq> None \<longrightarrow> riDescription i = iDescription e" "riAt i = iTimestamp e"
    using newest_if_stored [OF assms(7,9,10,2,3)] assms(1) by auto
  obtain r where "get vlan_key (vlanT d) (iNodeID e, uint w) = Some r" "rvName r = Some name"
    using newest_vlan_stored [of vs v name, OF _ assms(13,5,6)] assms(4,8,11,12) by auto
  then have "vlan_name d (iNodeID e) (Some (uint w)) = Some name" by (simp add: vlan_name_def)
  with i get_key [OF i(1)] assms(14-17) show ?thesis
    by (simp add: PortHandler_def portSQL_def Let_def port_of_row_def)
qed

subsection \<open>Properties\<close>

text \<open>From any number of devices to the VLAN page: when the collector has handled what it received, in
  whatever interleaving its streams ran, and the consumer has read the VLAN topic, its partitions in
  whatever order and messages perhaps repeated, the page of a switch lists each VLAN id any device
  pushed for it, once, and no other; and where a strictly newest push of a VLAN has a name, the page
  shows that name.\<close>

theorem vlan_page_is_inventory:
  assumes "server_reachable decode fails s" and "\<forall>k. \<not> fails k" and "all_idle s"
    and "delivers ''vlan-table'' (sent (svProducer s)) ms"
    and "\<forall>n. \<not> db_fails n" and "db_ok d" and "vlanT d = empty_table"
    and "consume_rows db_fails ms ([], d) = (mk, d')"
    and "query ''node_id'' = node" and "node \<noteq> []"
  shows "\<exists>vs. VlansHandler False d' ''GET'' query = Reply 200 vs \<and> distinct (map vrVlanID vs) \<and>
    vrVlanID ` set vs = {uint (vVlanID e) | e. e \<in> heard_vlans decode s \<and> vNodeID e = node} \<and>
    (\<forall>e \<in> heard_vlans decode s. \<forall>name. vNodeID e = node \<longrightarrow> vName e = Some name \<longrightarrow>
       newest_vlan (heard_vlans decode s) e \<longrightarrow> \<lparr>vrVlanID = uint (vVlanID e), vrName = Some name\<rparr> \<in> set vs)"
proof -
  have es: "set (List.map_filter vlan_of_msg ms) = heard_vlans decode s"
    by (rule delivered_vlans [OF assms(1-4)])
  have ok: "table_ok vlan_key (vlanT d)" "get vlan_key (vlanT d) k = None" for k
    using assms(6,7) by (simp_all add: db_ok_def)
  have ok': "db_ok d'" using consume_rows_ok [of "([], d)" db_fails ms] assms(6,8) by simp
  show ?thesis
    by (rule vlan_page_shows [where query = query, OF _ ok es ok' assms(9,10)])
      (simp add: consume_rows_no_faults [OF assms(5,8)])
qed

text \<open>From any number of devices to the port page: when the collector has handled what it received and
  the consumer has read the interface and VLAN topics, in any interleaving and order and with
  repetitions, the page of a port shows what the strictly newest push of the interface says of it and
  names its access VLAN as the strictly newest push of that VLAN does.\<close>

theorem port_page_is_newest:
  assumes "server_reachable decode fails s" and "\<forall>k. \<not> fails k" and "all_idle s"
    and "delivers ''interface-table'' (sent (svProducer s)) ms" and "delivers ''vlan-table'' (sent (svProducer s)) ms"
    and "\<forall>n. \<not> db_fails n" and "db_ok d" and "ifT d = empty_table" and "vlanT d = empty_table"
    and "consume_rows db_fails ms ([], d) = (mk, d')"
    and "newest_if (heard_ifs decode s) e" and "iAccessVlan e = Some w"
    and "newest_vlan (heard_vlans decode s) v" and "vlan_entry_key v = (iNodeID e, uint w)" and "vName v = Some name"
    and "query ''node_id'' = iNodeID e" and "query ''port'' = iName e" and "iNodeID e \<noteq> []" and "iName e \<noteq> []"
  shows "\<exists>res. PortHandler False d' ''GET'' query = Reply 200 res \<and>
    prNode res = iNodeID e \<and> prName res = iName e \<and> prAccessVlan res = uint w \<and> prAccessName res = Some name \<and>
    prShutdown res = iShutdown e \<and> (iDescription e \<noteq> None \<longrightarrow> prDescription res = iDescription e) \<and>
    prCollected res = to_second (iTimestamp e)"
proof -
  note tables = consume_rows_no_faults [OF assms(6,10)]
  have ok: "table_ok if_key (ifT d)" "table_ok vlan_key (vlanT d)" using assms(7) by (simp_all add: db_ok_def)
  have none: "get if_key (ifT d) k = None" "get vlan_key (vlanT d) k' = None" for k k'
    using assms(8,9) by simp_all
  show ?thesis
    by (rule port_page_shows [where query = query, OF _ ok(1) none(1) _ ok(2) none(2) delivered_ifs [OF assms(1-4)]
          delivered_vlans [OF assms(1-3,5)] assms(11-)])
       (simp_all add: tables)
qed

text \<open>No MAC address gets lost on its way from any number of devices to the search: when the collector has
  handled what it received and the consumer group has committed all of the MAC topic, whatever the
  interleaving of streams, claims, other topics, crashes, rebalances and failing statements, a search for any
  address a device reported, in any spelling that normalises to it, finds it. Nothing reported is
  older than the retention has deleted, and no claim lost its place before its first commit.\<close>

theorem heard_macs_are_found:
  assumes "server_reachable decode fails s" and "\<forall>k. \<not> fails k" and "all_idle s"
    and "partitions ''mac-table'' (sent (svProducer s)) log" and "db_ok d"
    and "(mac_group_step db_fails c log)\<^sup>*\<^sup>* (group_start d) g"
    and "\<forall>i. log i \<noteq> [] \<longrightarrow> grCommitted g i = Some (length (log i)) \<and> grFrom g i = 0"
    and "\<forall>e \<in> heard_macs decode s. c \<le> mTimestamp e"
    and "e \<in> heard_macs decode s"
    and "Option.bind body (unmarshal_struct store_terms []) = Some terms" and "term \<in> set terms"
    and "MacRe (TrimSpace term)" and "to_lower (mMacAddress e) \<in> set (normalizeMac (TrimSpace term))"
    and "\<And>rs. mset (arrange rs) = mset rs"
  shows "\<exists>rsp. SearchHandler lookup_host arrange False (grDb g) ''POST'' body = Reply 200 rsp \<and>
    (\<exists>r \<in> set (spResults rsp). srMac r = mMacAddress e) \<and> TrimSpace term \<notin> set (spNotFound rsp)"
proof -
  note macs = partitioned_macs [OF assms(1-4)]
  from macs(3) [OF assms(9)] obtain i n where n: "n < length (log i)"
    "e \<in> set (entries_in (unmarshal_slice unmarshal_mac) (log i ! n))" by blast
  have inv: "mac_group.group_inv c (unmarshal_slice unmarshal_mac) log g"
    using mac_group.group_inv_run assms(5,6) macs(1) unfolding mac_group_step_def by blast
  from n(1) have "log i \<noteq> []" by auto
  with assms(7) have "grCommitted g i = Some (length (log i))" "grFrom g i \<le> n" by simp_all
  from mac_group.group_committed [OF inv this n] obtain e' where
    e': "e' \<in> all_entries (unmarshal_slice unmarshal_mac) log" "mac_entry_key e' = mac_entry_key e"
    "get mac_key (macT (grDb g)) (mac_entry_key e) = Some (mac_row_of e') \<or> mTimestamp e' < c"
    by (auto simp: mac_group.stored_def mac_row_of_def)
  with macs(2) assms(8) have row: "get mac_key (macT (grDb g)) (mac_entry_key e) = Some (mac_row_of e')" by fastforce
  have mac: "rmMac (mac_row_of e') = mMacAddress e" using e'(2) by (simp add: mac_row_of_def)
  from mac_term_answered [OF assms(10-12) get_row_mem [OF row, THEN conjunct1], of arrange lookup_host] assms(13,14) mac
  show ?thesis by simp
qed

subsection \<open>Witnesses\<close>

text \<open>What the two overlapping streams of a \<open>two_streams\<close> state have told.\<close>

lemma two_streams_at:
  "svStreams (two_streams mt mu) c = Some st \<longleftrightarrow>
    (c = 0 \<and> st = demo_stream_state [1] [False] \<or> c = 1 \<and> st = demo_stream_state [2] [False])"
  by (auto simp: two_streams_def)

lemma two_streams_idle: "all_idle (two_streams mt mu)"
  by (auto simp: all_idle_def two_streams_at demo_stream_state_def)

lemma two_streams_heard:
  assumes "decode [1] = Some t" and "decode [2] = Some u"
  shows "heard decode (two_streams mt mu) = {t, u}"
proof -
  have "stream_msgs decode [RecvArgs [1]] = [t]" "stream_msgs decode [RecvArgs [2]] = [u]"
    using assms by (simp_all add: stream_msgs_def List.map_filter_simps)
  then have msgs: "set (stream_msgs decode (smGot (demo_stream_state [1] [False]))) = {t}"
    "set (stream_msgs decode (smGot (demo_stream_state [2] [False]))) = {u}"
    by (simp_all add: demo_stream_state_def)
  have "x \<in> heard decode (two_streams mt mu) \<longleftrightarrow>
      x \<in> set (stream_msgs decode (smGot (demo_stream_state [1] [False]))) \<or>
      x \<in> set (stream_msgs decode (smGot (demo_stream_state [2] [False])))" for x
    unfolding heard_def two_streams_at by blast
  with msgs show ?thesis by blast
qed

lemma demo_heard: "heard demo_decode demo_server = {demo_vlans, demo_macs}"
  unfolding demo_server_def by (rule two_streams_heard) (simp_all add: demo_decode_def)

lemma demo_heard_entries:
  "heard_vlans demo_decode demo_server =
     {\<lparr>vTimestamp = 1000, vNodeID = ''sw1'', vVlanID = 10, vName = Some ''users'', vStatus = []\<rparr>}"
  "heard_macs demo_decode demo_server = set (mac_entries demo_macs)"
proof -
  have "\<not> isVlan (EncodingPath demo_macs)" "\<not> isMAC (EncodingPath demo_vlans)" by code_simp+
  then show "heard_vlans demo_decode demo_server =
      {\<lparr>vTimestamp = 1000, vNodeID = ''sw1'', vVlanID = 10, vName = Some ''users'', vStatus = []\<rparr>}"
    and "heard_macs demo_decode demo_server = set (mac_entries demo_macs)"
    by (auto simp: heard_vlans_def heard_macs_def demo_heard demo_paths demo_times demo_vlan_entries fits_integer_def)
qed

lemma demo_server_sent:
  "{m \<in> set (sent (svProducer demo_server)). kTopic m = ''vlan-table''} = {vlan_msg (hd (vlan_entries demo_vlans))}"
  "set (sent (svProducer demo_server)) = {hd (to_send demo_macs), hd (to_send demo_vlans)}"
  by (auto simp: demo_server_def two_streams_def demo_to_send vlan_msg_def)

theorem vlan_page_is_inventory_witness:
  "\<exists>vs. VlansHandler False (snd (consume_rows (\<lambda>_. False) (demo_vlan_claim @ demo_vlan_claim) ([], empty_db))) ''GET''
      (\<lambda>_. ''sw1'') = Reply 200 vs \<and> vrVlanID ` set vs = {10} \<and> \<lparr>vrVlanID = 10, vrName = Some ''users''\<rparr> \<in> set vs"
proof -
  have "delivers ''vlan-table'' (sent (svProducer demo_server)) (demo_vlan_claim @ demo_vlan_claim)"
    by (auto simp: delivers_def demo_server_sent(1) demo_vlan_claim_def vlan_msg_def)
  from vlan_page_is_inventory [OF demo_server_reachable never two_streams_idle [of "hd (to_send demo_vlans)" "hd (to_send demo_macs)", folded demo_server_def] this never db_ok_empty _ prod.collapse [symmetric],
      of "\<lambda>_. ''sw1''" "''sw1''"]
  show ?thesis by (auto simp: demo_heard_entries(1) empty_db_def newest_vlan_def)
qed

text \<open>A switch that tells its VLANs on one stream and a port on another.\<close>

definition access_decode :: "8 word list \<Rightarrow> telemetry option" where
  "access_decode bs = (if bs = [1] then Some demo_vlans else if bs = [2] then Some demo_access else None)"

lemma access_to_send: "to_send demo_access = [if_msg demo_port]"
  by (simp add: to_send_def demo_access_path published_topics demo_access_entries)

lemma access_heard:
  "heard_ifs access_decode (two_streams (hd (to_send demo_vlans)) (if_msg demo_port)) = {demo_port}"
  "heard_vlans access_decode (two_streams (hd (to_send demo_vlans)) (if_msg demo_port)) = {demo_vlan_entry}"
proof -
  have heard: "heard access_decode (two_streams (hd (to_send demo_vlans)) (if_msg demo_port)) = {demo_vlans, demo_access}"
    by (rule two_streams_heard) (simp_all add: access_decode_def)
  have "\<not> isVlan (EncodingPath demo_access)" "\<not> isInterface (EncodingPath demo_vlans)" "columns_fit demo_port" by code_simp+
  then show "heard_ifs access_decode (two_streams (hd (to_send demo_vlans)) (if_msg demo_port)) = {demo_port}"
    and "heard_vlans access_decode (two_streams (hd (to_send demo_vlans)) (if_msg demo_port)) = {demo_vlan_entry}"
    unfolding heard_ifs_def heard_vlans_def heard
    by (auto simp: demo_paths demo_times demo_access_path demo_access_entries demo_vlan_entries demo_vlan_entry_def fits_integer_def)
qed

theorem port_page_is_newest_witness:
  "\<exists>res. PortHandler False
      (snd (consume_rows (\<lambda>_. False) (demo_access_claim @ demo_vlan_claim @ demo_access_claim) ([], empty_db))) ''GET''
      (\<lambda>k. if k = ''node_id'' then ''sw1'' else ''GigabitEthernet1/0/4'') = Reply 200 res \<and>
    prDescription res = Some ''lab'' \<and> prAccessVlan res = 10 \<and> prAccessName res = Some ''users''"
proof -
  let ?s = "two_streams (hd (to_send demo_vlans)) (if_msg demo_port)"
  let ?ms = "demo_access_claim @ demo_vlan_claim @ demo_access_claim"
  let ?q = "\<lambda>k. if k = ''node_id'' then ''sw1'' else ''GigabitEthernet1/0/4''"
  have reach: "server_reachable access_decode (\<lambda>_. False) ?s"
    by (rule two_streams_reachable [of _ demo_vlans _ demo_access])
       (simp_all add: access_decode_def demo_to_send access_to_send)
  have sent: "set (sent (svProducer ?s)) = {if_msg demo_port, vlan_msg (hd (vlan_entries demo_vlans))}"
    by (simp add: two_streams_def demo_to_send)
  have one: "{m \<in> set (sent (svProducer ?s)). kTopic m = ''interface-table''} = {if_msg demo_port}"
    "{m \<in> set (sent (svProducer ?s)). kTopic m = ''vlan-table''} = {vlan_msg (hd (vlan_entries demo_vlans))}"
    "{m \<in> set ?ms. cmTopic m = ''interface-table''} = set demo_access_claim"
    "{m \<in> set ?ms. cmTopic m = ''vlan-table''} = set demo_vlan_claim"
    unfolding sent by (auto simp: if_msg_def vlan_msg_def demo_access_claim_def demo_vlan_claim_def)
  have "delivers ''interface-table'' (sent (svProducer ?s)) ?ms" "delivers ''vlan-table'' (sent (svProducer ?s)) ?ms"
    unfolding delivers_def one by (simp_all add: if_msg_def vlan_msg_def demo_access_claim_def demo_vlan_claim_def)
  then have "\<exists>res. PortHandler False (snd (consume_rows (\<lambda>_. False) ?ms ([], empty_db))) ''GET'' ?q = Reply 200 res \<and>
      prNode res = iNodeID demo_port \<and> prName res = iName demo_port \<and> prAccessVlan res = uint (10 :: 16 word) \<and>
      prAccessName res = Some ''users'' \<and> prShutdown res = iShutdown demo_port \<and>
      (iDescription demo_port \<noteq> None \<longrightarrow> prDescription res = iDescription demo_port) \<and>
      prCollected res = to_second (iTimestamp demo_port)"
    by (rule port_page_is_newest [OF reach never two_streams_idle _ _ never db_ok_empty _ _ prod.collapse [symmetric],
          where v = demo_vlan_entry])
       (simp_all add: access_heard newest_if_def newest_vlan_def empty_db_def, simp_all add: demo_port_def demo_vlan_entry_def)
  then show ?thesis by (auto simp: demo_port_def)
qed

definition demo_mac_log :: "nat \<Rightarrow> cmsg list" where
  "demo_mac_log = (\<lambda>i. if i = 0 then [demo_mac_msg\<lparr>cmOffset := 0\<rparr>] else [])"

theorem heard_macs_are_found_witness:
  "\<exists>g rsp. (mac_group_step (\<lambda>_. False) 0 demo_mac_log)\<^sup>*\<^sup>* (group_start empty_db) g \<and>
    SearchHandler (\<lambda>_. None) id False (grDb g) ''POST''
      (Some (JObj [(''terms'', JArr [JStr ''0011.2233.4455''])])) = Reply 200 rsp \<and>
    (\<exists>r \<in> set (spResults rsp). srMac r = ''0011.2233.4455'')"
proof -
  let ?e = "hd (mac_entries demo_macs)"
  have one: "mac_entries demo_macs = [?e]" by (simp add: demo_mac_entries)
  have parts: "partitions ''mac-table'' (sent (svProducer demo_server)) demo_mac_log"
    by (auto simp: partitions_def demo_server_sent(2) demo_mac_log_def demo_mac_msg_def demo_to_send vlan_msg_def
        split: if_splits)
  have "Option.bind (cmValue (demo_mac_msg\<lparr>cmOffset := 0\<rparr>)) (unmarshal_slice unmarshal_mac) = Some [?e]"
    using one unmarshal_macs_json [of "mac_entries demo_macs"] by (simp add: demo_mac_msg_def)
  from single_mac_run [OF demo_mac_log_def _ this, of 0] obtain g where
    g: "(mac_group_step (\<lambda>_. False) 0 demo_mac_log)\<^sup>*\<^sup>* (group_start empty_db) g"
      "grCommitted g 0 = Some 1" "grFrom g 0 = 0" by auto
  have "\<forall>i. demo_mac_log i \<noteq> [] \<longrightarrow> grCommitted g i = Some (length (demo_mac_log i)) \<and> grFrom g i = 0"
    using g(2,3) by (simp add: demo_mac_log_def)
  from heard_macs_are_found [OF demo_server_reachable never two_streams_idle [of "hd (to_send demo_vlans)" "hd (to_send demo_macs)", folded demo_server_def] parts db_ok_empty g(1) this _ _ demo_term(1),
      of ?e "''0011.2233.4455''" id "\<lambda>_. None"] demo_term(2-4) g(1)
  show ?thesis by (auto simp: demo_heard_entries(2) demo_mac_entries)
qed

end
