(* ===== verification/Consumers.thy ===== *)
theory Consumers imports Group begin

text \<open>
  The consumer as one program: the claims of its four topics and the retention loop, sharing one
  database. A claim of \<open>mac-table\<close> or \<open>arp-table\<close> runs \<open>consumeMACBatch\<close> or \<open>consumeARPBatch\<close> (the
  steps of \<open>Group\<close>), a claim of \<open>interface-table\<close> or \<open>vlan-table\<close> the loop of \<open>ConsumeClaim\<close>, and
  any claim may be committed, end, and be taken up again. Each batched topic of the whole is a run of
  its own group, so what \<open>Group\<close> shows of a group holds here; what the row topics do is shown here.
\<close>

subsection \<open>The step relation\<close>

text \<open>A topic is its partitions: \<open>kafka t i\<close> are the messages of partition \<open>i\<close> of the topic \<open>t\<close>.\<close>

type_synonym kafka = "string \<Rightarrow> nat \<Rightarrow> cmsg list"

text \<open>A claim of a row topic: its next message, its marks, what is committed, where the group began.\<close>

record row_claim =
  rcNext :: nat
  rcMarks :: "nat list"
  rcCommitted :: "nat option"
  rcFrom :: nat

record consumer =
  coDb :: db
  coMacs :: "(string \<times> string, mac_entry) group"
  coArps :: "(string \<times> string, arp_entry) group"
  coRows :: "string \<Rightarrow> nat \<Rightarrow> row_claim"

definition consumer_start :: "db \<Rightarrow> consumer" where
  "consumer_start d = \<lparr>coDb = d, coMacs = group_start d, coArps = group_start d,
     coRows = \<lambda>_ _. \<lparr>rcNext = 0, rcMarks = [], rcCommitted = None, rcFrom = 0\<rparr>\<rparr>"

text \<open>A batched group with the database as it is now, and a row claim put back.\<close>

definition macs_of :: "consumer \<Rightarrow> (string \<times> string, mac_entry) group" where
  "macs_of s = (coMacs s)\<lparr>grDb := coDb s\<rparr>"

definition arps_of :: "consumer \<Rightarrow> (string \<times> string, arp_entry) group" where
  "arps_of s = (coArps s)\<lparr>grDb := coDb s\<rparr>"

definition put_row :: "string \<Rightarrow> nat \<Rightarrow> row_claim \<Rightarrow> consumer \<Rightarrow> consumer" where
  "put_row t i r s = s\<lparr>coRows := (coRows s)(t := (coRows s t)(i := r))\<rparr>"

definition row_topics :: "string set" where
  "row_topics = {''interface-table'', ''vlan-table''}"

text \<open>
  \<open>macs\<close> and \<open>arps\<close>: one step of a batched claim, alone. \<open>row\<close>: one round of the loop of
  \<open>ConsumeClaim\<close>. \<open>row_commit\<close>, \<open>row_restart\<close>, \<open>row_fresh\<close>: as \<open>commit\<close>, \<open>restart\<close> and \<open>fresh\<close> of a
  batched claim. \<open>retention\<close>: one \<open>Exec\<close> of the retention loop, with a cutoff that has not passed \<open>c\<close>.
\<close>

inductive consumer_step :: "(nat \<Rightarrow> bool) \<Rightarrow> instant \<Rightarrow> kafka \<Rightarrow> consumer \<Rightarrow> consumer \<Rightarrow> bool"
  for db_fails :: "nat \<Rightarrow> bool" and c :: instant and kafka :: kafka
where
  macs: "group_step db_fails (unmarshal_slice unmarshal_mac) mac_entry_key mTimestamp macBatchSize mac_upsert
      (\<lambda>_ _. False) (kafka ''mac-table'') (macs_of s) g \<Longrightarrow>
    consumer_step db_fails c kafka s (s\<lparr>coDb := grDb g, coMacs := g\<rparr>)"
| arps: "group_step db_fails (unmarshal_slice unmarshal_arp) arp_entry_key aTimestamp arpBatchSize arp_upsert
      (\<lambda>_ _. False) (kafka ''arp-table'') (arps_of s) g \<Longrightarrow>
    consumer_step db_fails c kafka s (s\<lparr>coDb := grDb g, coArps := g\<rparr>)"
| row: "t \<in> row_topics \<Longrightarrow> r = coRows s t i \<Longrightarrow> rcNext r < length (kafka t i) \<Longrightarrow>
    consume_rows db_fails [kafka t i ! rcNext r] (rcMarks r, coDb s) = (mk, d) \<Longrightarrow>
    consumer_step db_fails c kafka s
      ((put_row t i (r\<lparr>rcNext := rcNext r + 1, rcMarks := mk\<rparr>) s)\<lparr>coDb := d\<rparr>)"
| row_commit: "t \<in> row_topics \<Longrightarrow> r = coRows s t i \<Longrightarrow>
    consumer_step db_fails c kafka s
      (put_row t i (r\<lparr>rcCommitted := commit_offset (rcCommitted r) (rcMarks r)\<rparr>) s)"
| row_restart: "t \<in> row_topics \<Longrightarrow> r = coRows s t i \<Longrightarrow> rcCommitted r = Some n \<Longrightarrow>
    consumer_step db_fails c kafka s (put_row t i (r\<lparr>rcNext := n, rcMarks := []\<rparr>) s)"
| row_fresh: "t \<in> row_topics \<Longrightarrow> r = coRows s t i \<Longrightarrow> rcCommitted r = None \<Longrightarrow>
    rcNext r \<le> newest \<Longrightarrow> newest \<le> length (kafka t i) \<Longrightarrow>
    consumer_step db_fails c kafka s
      (put_row t i (r\<lparr>rcNext := newest, rcMarks := [], rcFrom := newest\<rparr>) s)"
| retention: "cutoff \<le> c \<Longrightarrow>
    consumer_step db_fails c kafka s
      (s\<lparr>coDb := snd (db_exec db_fails (\<lambda>d. Some (delete_older tb cutoff d)) (coDb s))\<rparr>)"

subsection \<open>Each batched topic is a run of its group\<close>

lemma group_step_mono:
  assumes "group_step db_fails unmarshal key ts lim stmt rest log g g'" and "\<And>d d'. rest d d' \<Longrightarrow> rest' d d'"
  shows "group_step db_fails unmarshal key ts lim stmt rest' log g g'"
  using assms(1)
proof cases
  case (deliver i s)
  then show ?thesis by (simp only: deliver(1)) (rule group_step.deliver)
qed (auto intro: group_step.intros assms(2))

lemma flush_db:
  "flush db_fails stmt s = Some s' \<Longrightarrow>
    database s' = database s \<or> (\<exists>es. database s' = snd (db_exec db_fails (stmt es) (database s)))"
  by (cases "db_exec db_fails (stmt (map snd (batch s))) (database s)")
    (auto simp: flush_def split: if_splits option.splits intro: exI [of _ "map snd (batch s)"])

lemma on_message_db:
  assumes "on_message db_fails unmarshal key ts lim stmt m s = Some s'"
  shows "database s' = database s \<or> (\<exists>es. database s' = snd (db_exec db_fails (stmt es) (database s)))"
proof (cases "Option.bind (cmValue m) unmarshal")
  case (Some es)
  let ?s1 = "s\<lparr>batch := fold (add_entry key ts) es (batch s), lastMsg := Some (cmOffset m)\<rparr>"
  show ?thesis
    using assms Some flush_db [of db_fails stmt ?s1 s'] by (auto simp: on_message_def Let_def split: if_splits)
qed (use assms in \<open>auto simp: on_message_def\<close>)

text \<open>A step of a claim leaves the database as it is or runs its own statement.\<close>

lemma group_step_db:
  assumes "group_step db_fails unmarshal key ts lim stmt (\<lambda>_ _. False) log g g'"
  shows "grDb g' = grDb g \<or> (\<exists>es. grDb g' = snd (db_exec db_fails (stmt es) (grDb g)))"
  using assms
proof cases
  case (deliver i s)
  with on_message_db [OF deliver(3)] show ?thesis by (simp add: put_claim_def claim_state_def)
next
  case (timer i s)
  with flush_db [OF timer(2)] show ?thesis by (simp add: put_claim_def claim_state_def)
qed simp_all

lemma consume_row_db:
  assumes "consume_rows db_fails [m] (mk, d) = (mk', d')"
  shows "d' = d \<or> (\<exists>e. d' = snd (db_exec db_fails (if_upsert e) d)) \<or>
    (\<exists>v. d' = snd (db_exec db_fails (vlan_upsert v) d))"
proof -
  from assms have "d' = snd (handle_row db_fails m d)" by (auto split: prod.splits option.splits)
  then show ?thesis by (auto simp: handle_row_def handleInterface_def handleVlan_def split: option.splits)
qed

lemma row_elsewhere:
  assumes "consume_rows db_fails [m] (mk, d) = (mk', d')" and "own \<noteq> InterfaceTable" and "own \<noteq> VlanTable"
  shows "d' = d \<or> elsewhere db_fails own c d d'"
  using consume_row_db [OF assms(1)] assms(2,3) by (auto intro: elsewhere.intros)

lemma group_same: "g\<lparr>grDb := grDb g\<rparr> = g"
  by simp

lemma macs_project:
  assumes "consumer_step db_fails c kafka s s'"
  shows "(mac_group_step db_fails c (kafka ''mac-table''))\<^sup>*\<^sup>* (macs_of s) (macs_of s')"
proof -
  let ?step = "mac_group_step db_fails c (kafka ''mac-table'')"
  have move: "?step\<^sup>*\<^sup>* (macs_of s) ((macs_of s)\<lparr>grDb := d\<rparr>)"
    if "d = coDb s \<or> elsewhere db_fails MacTable c (coDb s) d" for d
    using that
  proof
    assume "elsewhere db_fails MacTable c (coDb s) d"
    then have "?step (macs_of s) ((macs_of s)\<lparr>grDb := d\<rparr>)"
      unfolding mac_group_step_def by (intro group_step.rest) (simp add: macs_of_def)
    then show ?thesis by blast
  qed (simp add: macs_of_def)
  from assms show ?thesis
  proof cases
    case (macs g)
    from group_step_mono [OF macs(2)] have "?step (macs_of s) g" unfolding mac_group_step_def by blast
    moreover have "macs_of s' = g" by (simp add: macs(1) macs_of_def)
    ultimately show ?thesis by blast
  next
    case (arps g)
    from group_step_db [OF arps(2)] have "grDb g = coDb s \<or> elsewhere db_fails MacTable c (coDb s) (grDb g)"
      by (auto simp: arps_of_def intro: elsewhere.intros)
    from move [OF this] show ?thesis by (simp add: arps(1) macs_of_def)
  next
    case (row t r i mk d)
    from move [OF row_elsewhere [OF row(5)]] show ?thesis by (simp add: row(1) macs_of_def put_row_def)
  next
    case (retention cutoff tb)
    from move [OF disjI2 [OF elsewhere.retention [OF retention(2)]]] show ?thesis
      by (simp add: retention(1) macs_of_def)
  qed (simp_all add: macs_of_def put_row_def)
qed

lemma arps_project:
  assumes "consumer_step db_fails c kafka s s'"
  shows "(arp_group_step db_fails c (kafka ''arp-table''))\<^sup>*\<^sup>* (arps_of s) (arps_of s')"
proof -
  let ?step = "arp_group_step db_fails c (kafka ''arp-table'')"
  have move: "?step\<^sup>*\<^sup>* (arps_of s) ((arps_of s)\<lparr>grDb := d\<rparr>)"
    if "d = coDb s \<or> elsewhere db_fails ArpTable c (coDb s) d" for d
    using that
  proof
    assume "elsewhere db_fails ArpTable c (coDb s) d"
    then have "?step (arps_of s) ((arps_of s)\<lparr>grDb := d\<rparr>)"
      unfolding arp_group_step_def by (intro group_step.rest) (simp add: arps_of_def)
    then show ?thesis by blast
  qed (simp add: arps_of_def)
  from assms show ?thesis
  proof cases
    case (arps g)
    from group_step_mono [OF arps(2)] have "?step (arps_of s) g" unfolding arp_group_step_def by blast
    moreover have "arps_of s' = g" by (simp add: arps(1) arps_of_def)
    ultimately show ?thesis by blast
  next
    case (macs g)
    from group_step_db [OF macs(2)] have "grDb g = coDb s \<or> elsewhere db_fails ArpTable c (coDb s) (grDb g)"
      by (auto simp: macs_of_def intro: elsewhere.intros)
    from move [OF this] show ?thesis by (simp add: macs(1) arps_of_def)
  next
    case (row t r i mk d)
    from move [OF row_elsewhere [OF row(5)]] show ?thesis by (simp add: row(1) arps_of_def put_row_def)
  next
    case (retention cutoff tb)
    from move [OF disjI2 [OF elsewhere.retention [OF retention(2)]]] show ?thesis
      by (simp add: retention(1) arps_of_def)
  qed (simp_all add: arps_of_def put_row_def)
qed

lemma groups_project:
  assumes "(consumer_step db_fails c kafka)\<^sup>*\<^sup>* s s'"
  shows "(mac_group_step db_fails c (kafka ''mac-table''))\<^sup>*\<^sup>* (macs_of s) (macs_of s')"
    and "(arp_group_step db_fails c (kafka ''arp-table''))\<^sup>*\<^sup>* (arps_of s) (arps_of s')"
  using assms
  by (induction rule: rtranclp_induct) (auto dest: macs_project arps_project intro: rtranclp_trans)

lemma start_groups [simp]:
  "macs_of (consumer_start d) = group_start d" "arps_of (consumer_start d) = group_start d"
  by (simp_all add: macs_of_def arps_of_def consumer_start_def group_start_def)

lemma grDb_of [simp]: "grDb (macs_of s) = coDb s" "grDb (arps_of s) = coDb s"
  by (simp_all add: macs_of_def arps_of_def)

subsection \<open>Every row was reported\<close>

text \<open>
  A row is backed by a set of arguments when it is what some of them for its key, merged in some
  order, make of it. Writes of arguments of the set keep this, and so does deleting rows.
\<close>

context kv_store
begin

definition built where
  "built E k r \<longleftrightarrow>
     (\<exists>es. set es \<subseteq> {e \<in> E. akey e = k} \<and> fold (\<lambda>e old. Some (merge e old)) es None = Some r)"

definition backed where
  "backed E t \<longleftrightarrow> (\<forall>k r. look t k = Some r \<longrightarrow> built E k r)"

lemma built_merge:
  assumes "e \<in> E" and "akey e = k" and "\<And>r. old = Some r \<Longrightarrow> built E k r"
  shows "built E k (merge e old)"
proof -
  have "\<exists>es. set es \<subseteq> {e \<in> E. akey e = k} \<and> fold (\<lambda>e old. Some (merge e old)) es None = old"
  proof (cases old)
    case None
    then show ?thesis by (intro exI [of _ "[]"]) simp
  next
    case (Some r)
    with assms(3) show ?thesis by (simp add: built_def)
  qed
  then obtain es where "set es \<subseteq> {e \<in> E. akey e = k}" "fold (\<lambda>e old. Some (merge e old)) es None = old" by blast
  with assms(1,2) show ?thesis unfolding built_def by (intro exI [of _ "es @ [e]"]) simp
qed

lemma backed_put:
  assumes "invar t" and "backed E t" and "e \<in> E"
  shows "backed E (put e t)"
  using assms(2) built_merge [OF assms(3), of "akey e" "look t (akey e)"]
  by (auto simp: backed_def look_put [OF assms(1)])

lemma backed_puts: "invar t \<Longrightarrow> backed E t \<Longrightarrow> set es \<subseteq> E \<Longrightarrow> backed E (fold put es t)"
  by (induction es arbitrary: t) (simp_all add: backed_put invar_put)

lemma backed_less:
  "backed E t \<Longrightarrow> (\<And>k. look t' k = look t k \<or> look t' k = None) \<Longrightarrow> backed E t'"
  unfolding backed_def by (metis option.distinct(1))

lemma built_mono: "built E k r \<Longrightarrow> E \<subseteq> E' \<Longrightarrow> built E' k r"
  unfolding built_def by blast

text \<open>A field that a merge takes from its argument or leaves as it was is that of one of the arguments.\<close>

lemma built_field:
  assumes "built E k r" and "\<And>e. f (merge e None) = g e" and "\<And>e r. f (merge e (Some r)) = g e \<or> f (merge e (Some r)) = f r"
  shows "\<exists>e \<in> E. akey e = k \<and> f r = g e"
proof -
  have "\<forall>r. fold (\<lambda>e old. Some (merge e old)) es None = Some r \<longrightarrow> (\<exists>e \<in> set es. f r = g e)" for es
  proof (induction es rule: rev_induct)
    case (snoc e es)
    show ?case
    proof (cases "fold (\<lambda>e old. Some (merge e old)) es None")
      case None
      with assms(2) show ?thesis by simp
    next
      case (Some r)
      with snoc assms(3) [of e r] show ?thesis by auto
    qed
  qed simp
  with assms(1) show ?thesis unfolding built_def by blast
qed

text \<open>A row is that of its last argument: there is one.\<close>

lemma built_last:
  assumes "built E k r"
  obtains e old where "e \<in> E" "akey e = k" "r = merge e old"
proof -
  from assms obtain es where es: "set es \<subseteq> {e \<in> E. akey e = k}" "fold (\<lambda>e old. Some (merge e old)) es None = Some r"
    unfolding built_def by blast
  then obtain es' e where "es = es' @ [e]" by (cases es rule: rev_cases) simp_all
  with es that show ?thesis by auto
qed

end

text \<open>A batched group: what waits in the batches and what the table holds stems from the topic.\<close>

lemma add_entries_set:
  "snd ` set (fold (add_entry key ts) es b) \<subseteq> snd ` set b \<union> set es"
proof (induction es arbitrary: b)
  case (Cons e es)
  have "snd ` set (add_entry key ts e b) \<subseteq> insert e (snd ` set b)"
    by (auto simp: add_entry_def set_entry_def split: option.splits if_splits)
  with Cons.IH [of "add_entry key ts e b"] show ?case by auto
qed simp

context batch_group
begin

definition traced where
  "traced E d \<longleftrightarrow> (\<forall>k r. look d k = Some r \<longrightarrow> (\<exists>e \<in> E. key e = k \<and> r = row_of e))"

definition waits where
  "waits E s \<longleftrightarrow> keyed key (batch s) \<and> snd ` set (batch s) \<subseteq> E"

definition group_traced where
  "group_traced unmarshal log g \<longleftrightarrow> db_ok (grDb g) \<and> traced (all_entries unmarshal log) (grDb g) \<and>
     (\<forall>i. waits (all_entries unmarshal log) (grClaims g i))"

lemma waits_frames [simp]:
  "waits E (s\<lparr>database := d\<rparr>) = waits E s" "waits E (s\<lparr>marks := mk\<rparr>) = waits E s"
  by (simp_all add: waits_def)

lemma flush_traced:
  assumes "flush db_fails stmt s = Some s'" and "db_ok (database s)" and "traced E (database s)" and "waits E s"
  shows "db_ok (database s') \<and> traced E (database s') \<and> waits E s'"
proof (cases "batch s = []")
  case True
  with assms show ?thesis by (simp add: flush_def)
next
  case False
  let ?d1 = "(database s)\<lparr>execs := execs (database s) + 1\<rparr>"
  have d1: "db_ok ?d1" "traced E ?d1" using assms(2,3) by (simp_all add: traced_def look_execs)
  show ?thesis
  proof (cases "fst (db_exec db_fails (stmt (map snd (batch s))) (database s))")
    case (Some err)
    with db_exec_error [of db_fails "stmt (map snd (batch s))" "database s"] False assms(1,4) d1
    show ?thesis by (auto simp: flush_def split: prod.splits)
  next
    case None
    define d where "d = snd (db_exec db_fails (stmt (map snd (batch s))) (database s))"
    from None have d: "stmt (map snd (batch s)) ?d1 = Some d" by (simp add: db_exec_None d_def)
    have s': "database s' = d" "batch s' = []"
      using assms(1) False None by (auto simp: flush_def d_def split: prod.splits option.splits)
    have keyed: "keyed key (batch s)" using assms(4) by (simp add: waits_def)
    have "\<exists>e \<in> E. key e = k \<and> r = row_of e" if r: "look d k = Some r" for k r
    proof (cases "map_of (batch s) k")
      case None
      with r stmt_batch_look [OF d1(1) keyed d, of k] d1(2) show ?thesis by (simp add: traced_def)
    next
      case (Some e)
      then have "(k, e) \<in> set (batch s)" by (rule map_of_SomeD)
      with keyed assms(4) have "key e = k" "e \<in> E" by (force simp: keyed_def waits_def)+
      with r Some stmt_batch_look [OF d1(1) keyed d, of k] show ?thesis by auto
    qed
    with s' stmt_ok [OF d1(1) d] show ?thesis by (simp add: traced_def waits_def)
  qed
qed

lemma message_traced:
  assumes "on_message db_fails unmarshal key ts lim stmt m s = Some s'" and "set (entries_in unmarshal m) \<subseteq> E"
    and "db_ok (database s)" and "traced E (database s)" and "waits E s"
  shows "db_ok (database s') \<and> traced E (database s') \<and> waits E s'"
proof (cases "Option.bind (cmValue m) unmarshal")
  case None
  with assms show ?thesis by (auto simp: on_message_def)
next
  case (Some es)
  let ?s1 = "s\<lparr>batch := fold (add_entry key ts) es (batch s), lastMsg := Some (cmOffset m)\<rparr>"
  have "set es \<subseteq> E" using assms(2) Some by (simp add: entries_in_def)
  with assms(5) add_entries_set [of key ts es "batch s"] have "waits E ?s1"
    by (auto simp: waits_def keyed_add_entries)
  with assms Some flush_traced [of db_fails ?s1 s' E] show ?thesis
    by (auto simp: on_message_def Let_def split: if_splits)
qed

lemma group_traced_put:
  assumes "group_traced unmarshal log g" and "db_ok (database s)" and "traced (all_entries unmarshal log) (database s)"
    and "waits (all_entries unmarshal log) s"
  shows "group_traced unmarshal log (put_claim i s g)"
    and "group_traced unmarshal log ((put_claim i s g)\<lparr>grNext := p\<rparr>)"
  using assms by (simp_all add: group_traced_def put_claim_def)

lemma waits_start [simp]: "waits E (start_batch d)"
  by (simp add: waits_def start_batch_def)

lemma group_traced_step:
  assumes "group_step db_fails unmarshal key ts lim stmt rest log g g'" and inv: "group_traced unmarshal log g"
  shows "group_traced unmarshal log g'"
proof -
  have claim: "db_ok (database (claim_state g i))" "traced (all_entries unmarshal log) (database (claim_state g i))"
    "waits (all_entries unmarshal log) (claim_state g i)" for i
    using inv by (simp_all add: group_traced_def claim_state_def waits_def)
  from assms(1) show ?thesis
  proof cases
    case (deliver i s)
    have "set (entries_in unmarshal (log i ! grNext g i)) \<subseteq> all_entries unmarshal log"
      using deliver(2) by (auto simp: all_entries_def)
    from message_traced [OF deliver(3) this claim] group_traced_put(2) [OF inv] deliver(1) show ?thesis by simp
  next
    case (timer i s)
    from flush_traced [OF timer(2) claim] group_traced_put(1) [OF inv] timer(1) show ?thesis by simp
  next
    case (rest d)
    have "look d k = look (grDb g) k \<or> look d k = None" for k
      using rest_look [OF rest(2), of k] inv by (auto simp: group_traced_def)
    with inv have "traced (all_entries unmarshal log) d"
      unfolding group_traced_def traced_def by (metis option.distinct(1))
    with inv rest show ?thesis by (auto simp: group_traced_def intro: rest_ok)
  qed (use inv in \<open>auto simp: group_traced_def\<close>)
qed

lemma group_tracedD:
  "group_traced unmarshal log g \<Longrightarrow> look (grDb g) k = Some r \<Longrightarrow>
    \<exists>e \<in> all_entries unmarshal log. key e = k \<and> r = row_of e"
  unfolding group_traced_def traced_def by blast

lemma group_traced_run:
  assumes "(group_step db_fails unmarshal key ts lim stmt rest log)\<^sup>*\<^sup>* (group_start d) g"
    and "db_ok d" and "\<And>k. look d k = None"
  shows "group_traced unmarshal log g"
  using assms(1)
proof (induction rule: rtranclp_induct)
  case base
  with assms(2,3) show ?case by (simp add: group_traced_def group_start_def traced_def)
next
  case (step g g')
  from group_traced_step [OF step.hyps(2) step.IH] show ?case .
qed

end

lemma consumer_ok_step:
  assumes "consumer_step db_fails c kafka s s'" and ok: "db_ok (coDb s)"
  shows "db_ok (coDb s')"
  using assms(1)
proof cases
  case (macs g)
  have "db_ok (snd (db_exec db_fails (mac_upsert es) (coDb s)))" for es by (rule db_exec_ok [OF ok mac_upsert_ok])
  with group_step_db [OF macs(2)] ok macs(1) show ?thesis by auto
next
  case (arps g)
  have "db_ok (snd (db_exec db_fails (arp_upsert es) (coDb s)))" for es by (rule db_exec_ok [OF ok arp_upsert_ok])
  with group_step_db [OF arps(2)] ok arps(1) show ?thesis by auto
next
  case (row t r i mk d)
  from consume_row_db [OF row(5)] if_exec_ok [OF ok, of db_fails] vlan_exec_ok [OF ok, of db_fails] ok
  have "db_ok d" by auto
  with row(1) show ?thesis by simp
next
  case (retention cutoff tb)
  have "db_ok (snd (db_exec db_fails (\<lambda>d. Some (delete_older tb cutoff d)) (coDb s)))"
    by (rule db_exec_ok [OF ok]) (auto intro: delete_older_ok)
  with retention(1) show ?thesis by simp
qed (use ok in \<open>simp_all add: put_row_def\<close>)

lemma consumer_ok_run:
  "(consumer_step db_fails c kafka)\<^sup>*\<^sup>* (consumer_start d) s \<Longrightarrow> db_ok d \<Longrightarrow> db_ok (coDb s)"
  by (induction rule: rtranclp_induct) (auto simp: consumer_start_def dest: consumer_ok_step)

subsection \<open>The row topics\<close>

text \<open>
  What the consumer does to the table of a row topic: a guarded store \<open>tab\<close> that the handler writes an
  accepted message \<open>of_msg m\<close> to, that no other statement of the consumer touches, and that retention
  can only take rows from, none of which is as new as the cutoff.
\<close>

locale row_topic = guarded_store +
  fixes tab :: "db \<Rightarrow> 'b"
    and of_msg :: "cmsg \<Rightarrow> 'a option"
  assumes tab_ok: "db_ok d \<Longrightarrow> invar (tab d)"
    and tab_execs: "tab (d\<lparr>execs := n\<rparr>) = tab d"
    and tab_mac: "mac_upsert ms d = Some d' \<Longrightarrow> tab d' = tab d"
    and tab_arp: "arp_upsert as d = Some d' \<Longrightarrow> tab d' = tab d"
    and handled: "snd (handle_row db_fails m d) = d' \<Longrightarrow>
      tab d' = tab d \<or> (\<exists>e. of_msg m = Some e \<and> tab d' = put e (tab d))"
    and handled_works: "\<forall>n. \<not> db_fails n \<Longrightarrow> handle_row db_fails m d = (err, d') \<Longrightarrow>
      tab d' = (case of_msg m of None \<Rightarrow> tab d | Some e \<Rightarrow> put e (tab d))"
    and deleted: "db_ok d \<Longrightarrow> look (tab (delete_older tb cutoff d)) k = look (tab d) k \<or>
      look (tab (delete_older tb cutoff d)) k = None"
    and none_deleted: "db_ok d \<Longrightarrow> \<forall>k r. look (tab d) k = Some r \<longrightarrow> cutoff \<le> stamp r \<Longrightarrow>
      tab (delete_older tb cutoff d) = tab d"
begin

definition told :: "kafka \<Rightarrow> 'a set" where
  "told kafka = {e. \<exists>t \<in> row_topics. \<exists>i n. n < length (kafka t i) \<and> of_msg (kafka t i ! n) = Some e}"

lemma exec_tab:
  assumes "\<And>d d'. stmt d = Some d' \<Longrightarrow> tab d' = tab d"
  shows "tab (snd (db_exec db_fails stmt d)) = tab d"
  using db_exec_cases [of db_fails stmt d] assms [of "d\<lparr>execs := execs d + 1\<rparr>"] by (auto simp: tab_execs)

lemma group_tab:
  assumes "group_step db_fails unmarshal key ts lim stmt (\<lambda>_ _. False) log g g'"
    and "\<And>es d d'. stmt es d = Some d' \<Longrightarrow> tab d' = tab d"
  shows "tab (grDb g') = tab (grDb g)"
  using group_step_db [OF assms(1)] exec_tab assms(2) by metis

lemma consume_row: "consume_rows db_fails [m] (mk, d) = (mk', d') \<Longrightarrow>
    \<exists>err. handle_row db_fails m d = (err, d') \<and> mk' = (if err = None then mk @ [cmOffset m] else mk)"
  by (auto split: prod.splits option.splits)

lemma retention_cases:
  "snd (db_exec db_fails (\<lambda>d. Some (delete_older tb cutoff d)) d) = d\<lparr>execs := execs d + 1\<rparr> \<or>
   snd (db_exec db_fails (\<lambda>d. Some (delete_older tb cutoff d)) d) = delete_older tb cutoff (d\<lparr>execs := execs d + 1\<rparr>)"
  by (auto simp: db_exec_def Let_def)

lemma backed_step:
  assumes "consumer_step db_fails c kafka s s'" and "db_ok (coDb s)" and "backed (told kafka) (tab (coDb s))"
  shows "backed (told kafka) (tab (coDb s'))"
  using assms(1)
proof cases
  case (macs g)
  with group_tab [OF macs(2) tab_mac] assms(3) show ?thesis by simp
next
  case (arps g)
  with group_tab [OF arps(2) tab_arp] assms(3) show ?thesis by simp
next
  case (row t r i mk d)
  from consume_row [OF row(5)] have "snd (handle_row db_fails (kafka t i ! rcNext r) (coDb s)) = d" by auto
  from handled [OF this]
  have "tab d = tab (coDb s) \<or> (\<exists>e \<in> told kafka. tab d = put e (tab (coDb s)))"
    using row(2,4) by (auto simp: told_def)
  with backed_put [OF tab_ok [OF assms(2)] assms(3)] assms(3) row(1) show ?thesis by auto
next
  case (retention cutoff tb)
  have "look (tab (coDb s')) k = look (tab (coDb s)) k \<or> look (tab (coDb s')) k = None" for k
    using retention_cases [of db_fails tb cutoff "coDb s"]
      deleted [of "(coDb s)\<lparr>execs := execs (coDb s) + 1\<rparr>" tb cutoff k] assms(2) retention(1)
    by (auto simp: tab_execs)
  then show ?thesis by (rule backed_less [OF assms(3)])
qed (use assms(3) in \<open>simp_all add: put_row_def\<close>)

lemma backed_run:
  assumes "(consumer_step db_fails c kafka)\<^sup>*\<^sup>* (consumer_start d) s" and "db_ok d" and "\<And>k. look (tab d) k = None"
  shows "backed (told kafka) (tab (coDb s))"
  using assms(1)
proof (induction rule: rtranclp_induct)
  case base
  with assms(3) show ?case by (simp add: consumer_start_def backed_def)
next
  case (step s s')
  from backed_step [OF step.hyps(2) consumer_ok_run [OF step.hyps(1) assms(2)] step.IH] show ?case .
qed

text \<open>
  While the database works, a claim has written what it has read: \<open>es\<close> are the arguments written so far,
  in order, and \<open>m\<close> is where the claim has been, at least up to its next message, its marks and what is
  committed. Retention takes nothing when nothing told is older than its cutoff.
\<close>

definition row_inv where
  "row_inv es log r \<longleftrightarrow>
     (\<exists>m. rcNext r \<le> m \<and> pred_option (\<lambda>n. n \<le> m) (rcCommitted r) \<and> (\<forall>x \<in> set (rcMarks r). x < m) \<and>
        m \<le> length log \<and>
        (\<forall>n. rcFrom r \<le> n \<longrightarrow> n < m \<longrightarrow> (\<forall>e. of_msg (log ! n) = Some e \<longrightarrow> e \<in> set es)))"

definition rows_inv where
  "rows_inv es t0 kafka s \<longleftrightarrow>
     tab (coDb s) = fold put es t0 \<and> set es \<subseteq> told kafka \<and>
     (\<forall>t \<in> row_topics. \<forall>i. row_inv es (kafka t i) (coRows s t i))"

lemma row_inv_more: "row_inv es log r \<Longrightarrow> set es \<subseteq> set es' \<Longrightarrow> row_inv es' log r"
  unfolding row_inv_def by blast

lemma row_inv_read:
  assumes "row_inv es log r" and "rcNext r < length log" and "\<And>e. of_msg (log ! rcNext r) = Some e \<Longrightarrow> e \<in> set es"
    and "set mk \<subseteq> insert (rcNext r) (set (rcMarks r))"
  shows "row_inv es log (r\<lparr>rcNext := rcNext r + 1, rcMarks := mk\<rparr>)"
proof -
  from assms(1) obtain m where m: "rcNext r \<le> m" "pred_option (\<lambda>n. n \<le> m) (rcCommitted r)"
    "\<forall>x \<in> set (rcMarks r). x < m" "m \<le> length log"
    "\<forall>n. rcFrom r \<le> n \<longrightarrow> n < m \<longrightarrow> (\<forall>e. of_msg (log ! n) = Some e \<longrightarrow> e \<in> set es)"
    unfolding row_inv_def by blast
  let ?m = "max m (rcNext r + 1)"
  have read: "of_msg (log ! n) = Some e \<longrightarrow> e \<in> set es" if "rcFrom r \<le> n" "n < ?m" for n e
  proof (cases "n < m")
    case False
    with that m(1) have "n = rcNext r" by auto
    with assms(3) show ?thesis by blast
  qed (use m(5) that in blast)
  have "pred_option (\<lambda>n. n \<le> ?m) (rcCommitted r)" using m(2) by (cases "rcCommitted r") auto
  moreover have "\<forall>x \<in> set mk. x < ?m" using m(1,3) assms(4) by fastforce
  moreover have "?m \<le> length log" using m(4) assms(2) by simp
  ultimately show ?thesis unfolding row_inv_def using read by (intro exI [of _ ?m]) simp
qed

lemma row_inv_commit:
  assumes "row_inv es log r"
  shows "row_inv es log (r\<lparr>rcCommitted := commit_offset (rcCommitted r) (rcMarks r)\<rparr>)"
proof -
  from assms obtain m where m: "rcNext r \<le> m" "pred_option (\<lambda>n. n \<le> m) (rcCommitted r)"
    "\<forall>x \<in> set (rcMarks r). x < m" "m \<le> length log"
    "\<forall>n. rcFrom r \<le> n \<longrightarrow> n < m \<longrightarrow> (\<forall>e. of_msg (log ! n) = Some e \<longrightarrow> e \<in> set es)"
    unfolding row_inv_def by blast
  have "resume_offset (rcMarks r) \<le> m" using m(3) by (intro resume_offset_le) blast
  with m(2) have "pred_option (\<lambda>n. n \<le> m) (commit_offset (rcCommitted r) (rcMarks r))"
    by (cases "rcCommitted r") (simp_all add: commit_offset_def)
  with m show ?thesis unfolding row_inv_def by (intro exI [of _ m]) simp
qed

lemma row_inv_restart:
  assumes "row_inv es log r" and "rcCommitted r = Some n"
  shows "row_inv es log (r\<lparr>rcNext := n, rcMarks := []\<rparr>)"
proof -
  from assms obtain m where "n \<le> m" "m \<le> length log"
    "\<forall>k. rcFrom r \<le> k \<longrightarrow> k < m \<longrightarrow> (\<forall>e. of_msg (log ! k) = Some e \<longrightarrow> e \<in> set es)"
    unfolding row_inv_def by auto
  with assms(2) show ?thesis unfolding row_inv_def by (intro exI [of _ m]) simp
qed

lemma row_inv_fresh:
  assumes "rcCommitted r = None" and "newest \<le> length log"
  shows "row_inv es log (r\<lparr>rcNext := newest, rcMarks := [], rcFrom := newest\<rparr>)"
  using assms unfolding row_inv_def by (intro exI [of _ newest]) simp

lemma rows_inv_put:
  assumes "rows_inv es t0 kafka s" and "set es \<subseteq> set es'" and "set es' \<subseteq> told kafka"
    and "tab d = fold put es' t0" and "row_inv es' (kafka t i) r"
  shows "rows_inv es' t0 kafka ((put_row t i r s)\<lparr>coDb := d\<rparr>)"
proof -
  have "row_inv es' (kafka t' j) (coRows s t' j)" if "t' \<in> row_topics" for t' j
    using assms(1) that by (intro row_inv_more [OF _ assms(2)]) (simp add: rows_inv_def)
  with assms(3-5) show ?thesis by (simp add: rows_inv_def put_row_def)
qed

lemma stamps_from:
  assumes "invar t" and "\<forall>k r. look t k = Some r \<longrightarrow> c \<le> stamp r" and "\<forall>e \<in> set es. c \<le> stamp_of e"
  shows "\<forall>k r. look (fold put es t) k = Some r \<longrightarrow> c \<le> stamp r"
  using assms
proof (induction es arbitrary: t)
  case (Cons e es)
  have "c \<le> stamp r" if "look (put e t) k = Some r" for k r
  proof (cases "k = akey e \<and> look t k = None")
    case True
    then have "look t (akey e) = None" "k = akey e" by auto
    with that Cons.prems(3) stamp_put [OF Cons.prems(1), of e k] show ?thesis by simp
  next
    case False
    with that stamp_put [OF Cons.prems(1), of e k] obtain r0 where
      "look t k = Some r0" "stamp r0 \<le> stamp r" by (cases "look t k") (auto split: if_splits)
    with Cons.prems(2) show ?thesis by (meson order_trans)
  qed
  then have "\<forall>k r. look (put e t) k = Some r \<longrightarrow> c \<le> stamp r" by blast
  from Cons.IH [OF invar_put [OF Cons.prems(1)] this] Cons.prems(3) show ?case by simp
qed simp

lemma rows_inv_step:
  assumes "consumer_step db_fails c kafka s s'" and "db_ok (coDb s)" and works: "\<forall>n. \<not> db_fails n"
    and offsets: "\<And>t i n. t \<in> row_topics \<Longrightarrow> n < length (kafka t i) \<Longrightarrow> cmOffset (kafka t i ! n) = n"
    and recent: "\<forall>e \<in> told kafka. c \<le> stamp_of e"
    and t0: "invar t0" "\<And>k. look t0 k = None" and inv: "rows_inv es t0 kafka s"
  shows "\<exists>es'. rows_inv es' t0 kafka s'"
proof -
  have same: "rows_inv es t0 kafka s1" if "tab (coDb s1) = tab (coDb s)" "coRows s1 = coRows s" for s1
    using inv that by (simp add: rows_inv_def)
  have put: "rows_inv es t0 kafka (put_row t i r s)" if "t \<in> row_topics" "row_inv es (kafka t i) r" for t i r
    using inv that by (auto simp: rows_inv_def put_row_def)
  have claim: "row_inv es (kafka t i) (coRows s t i)" if "t \<in> row_topics" for t i
    using inv that by (simp add: rows_inv_def)
  from assms(1) show ?thesis
  proof cases
    case (macs g)
    from same [of s'] group_tab [OF macs(2) tab_mac] macs(1) show ?thesis by auto
  next
    case (arps g)
    from same [of s'] group_tab [OF arps(2) tab_arp] arps(1) show ?thesis by auto
  next
    case (row t r i mk d)
    let ?m = "kafka t i ! rcNext r"
    from consume_row [OF row(5)] obtain err where h: "handle_row db_fails ?m (coDb s) = (err, d)"
      "mk = (if err = None then rcMarks r @ [cmOffset ?m] else rcMarks r)" by blast
    let ?es = "es @ (case of_msg ?m of None \<Rightarrow> [] | Some e \<Rightarrow> [e])"
    have "tab d = fold put ?es t0"
      using handled_works [OF works h(1)] inv by (simp add: rows_inv_def split: option.split)
    moreover have "e \<in> told kafka" if "of_msg ?m = Some e" for e
      using that row(2,4) unfolding told_def by blast
    then have "set ?es \<subseteq> told kafka"
      using inv by (cases "of_msg ?m") (simp_all add: rows_inv_def)
    moreover have "row_inv ?es (kafka t i) r"
      using claim [OF row(2)] unfolding row(3) by (rule row_inv_more) simp
    then have "row_inv ?es (kafka t i) (r\<lparr>rcNext := rcNext r + 1, rcMarks := mk\<rparr>)"
    proof (rule row_inv_read [OF _ row(4)])
      show "set mk \<subseteq> insert (rcNext r) (set (rcMarks r))" using h(2) offsets [OF row(2,4)] by auto
    qed simp
    ultimately show ?thesis
      unfolding row(1) by (intro exI [of _ ?es] rows_inv_put [OF inv]) simp_all
  next
    case (row_commit t r i)
    with put [OF row_commit(2) row_inv_commit] claim [OF row_commit(2)] show ?thesis by blast
  next
    case (row_restart t r i n)
    with put [OF row_restart(2) row_inv_restart] claim [OF row_restart(2)] show ?thesis by blast
  next
    case (row_fresh t r i newest)
    with put [OF row_fresh(2) row_inv_fresh] show ?thesis by blast
  next
    case (retention cutoff tb)
    let ?d1 = "(coDb s)\<lparr>execs := execs (coDb s) + 1\<rparr>"
    have "\<forall>k r. look (tab (coDb s)) k = Some r \<longrightarrow> c \<le> stamp r"
      using stamps_from [of t0 c es] t0 recent inv by (auto simp: rows_inv_def)
    with retention(2) have "\<forall>k r. look (tab ?d1) k = Some r \<longrightarrow> cutoff \<le> stamp r"
      unfolding tab_execs by (meson order_trans)
    with none_deleted [of ?d1 cutoff tb] assms(2)
    have "tab (delete_older tb cutoff ?d1) = tab (coDb s)" by (simp add: tab_execs)
    with retention_cases [of db_fails tb cutoff "coDb s"]
    have "tab (snd (db_exec db_fails (\<lambda>d. Some (delete_older tb cutoff d)) (coDb s))) = tab (coDb s)"
      using tab_execs by metis
    with same [of s'] retention(1) show ?thesis by auto
  qed
qed

lemma rows_inv_run:
  assumes "(consumer_step db_fails c kafka)\<^sup>*\<^sup>* (consumer_start d) s" and "db_ok d" and "\<And>k. look (tab d) k = None"
    and "\<forall>n. \<not> db_fails n"
    and "\<And>t i n. t \<in> row_topics \<Longrightarrow> n < length (kafka t i) \<Longrightarrow> cmOffset (kafka t i ! n) = n"
    and "\<forall>e \<in> told kafka. c \<le> stamp_of e"
  shows "\<exists>es. rows_inv es (tab d) kafka s"
  using assms(1)
proof (induction rule: rtranclp_induct)
  case base
  have "rows_inv [] (tab d) kafka (consumer_start d)"
    by (auto simp: rows_inv_def row_inv_def consumer_start_def intro: exI [of _ 0])
  then show ?case ..
next
  case (step s s')
  then obtain es where es: "rows_inv es (tab d) kafka s" by blast
  show ?case
    by (rule rows_inv_step [OF step.hyps(2) consumer_ok_run [OF step.hyps(1) assms(2)] assms(4-6)
          tab_ok [OF assms(2)] assms(3) es])
qed

text \<open>Once every claim has read its partition from the beginning, what is written is what was told.\<close>

lemma rows_inv_all:
  assumes "rows_inv es t0 kafka s"
    and "\<And>t i. t \<in> row_topics \<Longrightarrow> kafka t i \<noteq> [] \<Longrightarrow> rcNext (coRows s t i) = length (kafka t i) \<and> rcFrom (coRows s t i) = 0"
  shows "tab (coDb s) = fold put es t0 \<and> set es = told kafka"
proof -
  have "e \<in> set es" if "e \<in> told kafka" for e
  proof -
    from that obtain t i n where n: "t \<in> row_topics" "n < length (kafka t i)" "of_msg (kafka t i ! n) = Some e"
      by (auto simp: told_def)
    from n(2) have "kafka t i \<noteq> []" by auto
    with assms(2) [OF n(1)] have "rcNext (coRows s t i) = length (kafka t i)" "rcFrom (coRows s t i) = 0" by auto
    moreover from assms(1) n(1) have "row_inv es (kafka t i) (coRows s t i)" by (simp add: rows_inv_def)
    ultimately obtain m where "length (kafka t i) \<le> m"
      "\<forall>n < m. \<forall>e. of_msg (kafka t i ! n) = Some e \<longrightarrow> e \<in> set es"
      unfolding row_inv_def by auto
    with n(2,3) show ?thesis by (meson order_less_le_trans)
  qed
  with assms(1) show ?thesis by (auto simp: rows_inv_def)
qed

end

subsection \<open>The interface and the VLAN table\<close>

lemma delete_older_rows:
  assumes "db_ok d"
  shows "get if_key (ifT (delete_older tb c d)) k = get if_key (ifT d) k \<or> get if_key (ifT (delete_older tb c d)) k = None"
    and "get vlan_key (vlanT (delete_older tb c d)) j = get vlan_key (vlanT d) j \<or>
      get vlan_key (vlanT (delete_older tb c d)) j = None"
  using assms
  by (cases tb; simp add: delete_older_def db_ok_def get_delete_where split: option.split)+

lemma delete_where_none:
  assumes "table_ok key t" and "\<And>k r. get key t k = Some r \<Longrightarrow> \<not> P r"
  shows "delete_where P t = t"
proof -
  have "\<not> P r" if "(i, r) \<in> set (rows t)" for i r
    using assms(2) [of "key r" r] that by (auto simp: get_Some_iff [OF assms(1)])
  then have "filter (\<lambda>ir. \<not> P (snd ir)) (rows t) = rows t" by (auto simp: filter_id_conv)
  then show ?thesis by (simp add: delete_where_def)
qed

lemma handleInterface_tables:
  assumes "snd (handleInterface db_fails b d) = d'"
  shows "vlanT d' = vlanT d"
    and "ifT d' = ifT d \<or> (\<exists>e. Option.bind b unmarshal_if = Some e \<and> if_args_ok e \<and> ifT d' = if_put e (ifT d))"
proof -
  have "vlanT d' = vlanT d \<and> (ifT d' = ifT d \<or>
      (\<exists>e. Option.bind b unmarshal_if = Some e \<and> if_args_ok e \<and> ifT d' = if_put e (ifT d)))"
  proof (cases "Option.bind b unmarshal_if")
    case (Some e)
    with assms show ?thesis by (auto simp: handleInterface_def db_exec_def Let_def if_upsert_def split: if_splits)
  qed (use assms in \<open>simp add: handleInterface_def\<close>)
  then show "vlanT d' = vlanT d"
    and "ifT d' = ifT d \<or> (\<exists>e. Option.bind b unmarshal_if = Some e \<and> if_args_ok e \<and> ifT d' = if_put e (ifT d))"
    by blast+
qed

lemma handleVlan_tables:
  assumes "snd (handleVlan db_fails b d) = d'"
  shows "ifT d' = ifT d"
    and "vlanT d' = vlanT d \<or>
      (\<exists>e. Option.bind b unmarshal_vlan = Some e \<and> fits_integer (uint (vVlanID e)) \<and> vlanT d' = vlan_put e (vlanT d))"
proof -
  have "ifT d' = ifT d \<and> (vlanT d' = vlanT d \<or>
      (\<exists>e. Option.bind b unmarshal_vlan = Some e \<and> fits_integer (uint (vVlanID e)) \<and> vlanT d' = vlan_put e (vlanT d)))"
  proof (cases "Option.bind b unmarshal_vlan")
    case (Some e)
    with assms show ?thesis by (auto simp: handleVlan_def db_exec_def Let_def vlan_upsert_def split: if_splits)
  qed (use assms in \<open>simp add: handleVlan_def\<close>)
  then show "ifT d' = ifT d" and "vlanT d' = vlanT d \<or>
      (\<exists>e. Option.bind b unmarshal_vlan = Some e \<and> fits_integer (uint (vVlanID e)) \<and> vlanT d' = vlan_put e (vlanT d))"
    by blast+
qed

lemma handle_row_tables:
  assumes "snd (handle_row db_fails m d) = d'"
  shows "ifT d' = ifT d \<or> (\<exists>e. if_of_msg m = Some e \<and> ifT d' = if_put e (ifT d))"
    and "vlanT d' = vlanT d \<or> (\<exists>e. vlan_of_msg m = Some e \<and> vlanT d' = vlan_put e (vlanT d))"
proof -
  consider "cmTopic m = ''interface-table''" | "cmTopic m = ''vlan-table''"
    | "cmTopic m \<noteq> ''interface-table''" "cmTopic m \<noteq> ''vlan-table''" by blast
  then have "(ifT d' = ifT d \<or> (\<exists>e. if_of_msg m = Some e \<and> ifT d' = if_put e (ifT d))) \<and>
    (vlanT d' = vlanT d \<or> (\<exists>e. vlan_of_msg m = Some e \<and> vlanT d' = vlan_put e (vlanT d)))"
  proof cases
    case 1
    with assms have "snd (handleInterface db_fails (cmValue m) d) = d'" by (simp add: handle_row_def)
    from handleInterface_tables [OF this] 1 show ?thesis by (auto simp: if_of_msg_def)
  next
    case 2
    with assms have "snd (handleVlan db_fails (cmValue m) d) = d'" by (simp add: handle_row_def)
    from handleVlan_tables [OF this] 2 show ?thesis by (auto simp: vlan_of_msg_def)
  next
    case 3
    with assms show ?thesis by (simp add: handle_row_def)
  qed
  then show "ifT d' = ifT d \<or> (\<exists>e. if_of_msg m = Some e \<and> ifT d' = if_put e (ifT d))"
    and "vlanT d' = vlanT d \<or> (\<exists>e. vlan_of_msg m = Some e \<and> vlanT d' = vlan_put e (vlanT d))" by blast+
qed

interpretation if_topic: row_topic if_put "get if_key" if_entry_key if_merge "table_ok if_key" jTimestamp riAt
  ifT if_of_msg
proof (unfold_locales, goal_cases)
  case (5 f m d d')
  then show ?case by (rule handle_row_tables(1))
next
  case (6 f m d err d')
  with handle_row_no_faults [of f m d err d'] show ?case by (simp split: option.split)
next
  case (7 d tb cutoff k)
  then show ?case by (rule delete_older_rows(1))
next
  case (8 d cutoff tb)
  then have "delete_where (\<lambda>r. riAt r < cutoff) (ifT d) = ifT d"
    by (intro delete_where_none [of if_key]) (force simp: db_ok_def)+
  then show ?case by (cases tb) (simp_all add: delete_older_def)
qed (auto simp: db_ok_def mac_upsert_def arp_upsert_def split: if_splits)

interpretation vlan_topic: row_topic vlan_put "get vlan_key" vlan_entry_key vlan_merge "table_ok vlan_key" vTimestamp rvAt
  vlanT vlan_of_msg
proof (unfold_locales, goal_cases)
  case (5 f m d d')
  then show ?case by (rule handle_row_tables(2))
next
  case (6 f m d err d')
  with handle_row_no_faults [of f m d err d'] show ?case by (simp split: option.split)
next
  case (7 d tb cutoff k)
  then show ?case by (rule delete_older_rows(2))
next
  case (8 d cutoff tb)
  then have "delete_where (\<lambda>r. rvAt r < cutoff) (vlanT d) = vlanT d"
    by (intro delete_where_none [of vlan_key]) (force simp: db_ok_def)+
  then show ?case by (cases tb) (simp_all add: delete_older_def)
qed (auto simp: db_ok_def mac_upsert_def arp_upsert_def split: if_splits)

subsection \<open>The loops of the code are runs\<close>

text \<open>
  The messages a run of \<open>ConsumeClaim\<close> takes from its channel; in the step relation they are the next
  ones of the claim's partition.
\<close>

fun taken :: "event list \<Rightarrow> cmsg list" where
  "taken [] = []"
| "taken (Received m # evs) = m # taken evs"
| "taken (Tick # evs) = taken evs"
| "taken (Closed # evs) = []"

lemma taken_filter:
  "taken evs = List.map_filter (\<lambda>ev. case ev of Received m \<Rightarrow> Some m | _ \<Rightarrow> None) (takeWhile (\<lambda>ev. ev \<noteq> Closed) evs)"
  by (induction evs rule: taken.induct) (simp_all add: List.map_filter_simps)

definition next_are :: "cmsg list \<Rightarrow> cmsg list \<Rightarrow> nat \<Rightarrow> bool" where
  "next_are ms log n \<longleftrightarrow> take (length ms) (drop n log) = ms"

lemma next_are_Cons: "next_are (m # ms) log n \<longleftrightarrow> n < length log \<and> log ! n = m \<and> next_are ms log (n + 1)"
proof (cases "n < length log")
  case True
  then have "drop n log = log ! n # drop (n + 1) log" by (simp add: Cons_nth_drop_Suc)
  with True show ?thesis by (auto simp: next_are_def)
qed (simp add: next_are_def)

lemma claim_state_put: "claim_state (put_claim i s g) i = s"
  by (simp add: claim_state_def put_claim_def)

lemma consume_batch_steps:
  assumes "consume_batch db_fails unmarshal key ts lim stmt evs (claim_state g i) = Some s"
    and "next_are (taken evs) (log i) (grNext g i)"
  shows "\<exists>g'. (group_step db_fails unmarshal key ts lim stmt rest log)\<^sup>*\<^sup>* g g' \<and> claim_state g' i = s \<and>
    grNext g' i = grNext g i + length (taken evs)"
  using assms
proof (induction evs arbitrary: g)
  case Nil
  then show ?case by auto
next
  case (Cons ev evs)
  let ?step = "group_step db_fails unmarshal key ts lim stmt rest log"
  have more: "\<exists>g'. ?step\<^sup>*\<^sup>* g g' \<and> claim_state g' i = s \<and> grNext g' i = grNext g1 i + length (taken evs)"
    if "?step g g1" "consume_batch db_fails unmarshal key ts lim stmt evs (claim_state g1 i) = Some s"
      "next_are (taken evs) (log i) (grNext g1 i)" for g1
  proof -
    from Cons.IH [OF that(2,3)] obtain g' where
      "?step\<^sup>*\<^sup>* g1 g'" "claim_state g' i = s" "grNext g' i = grNext g1 i + length (taken evs)" by blast
    with that(1) show ?thesis by (intro exI [of _ g']) (auto intro: converse_rtranclp_into_rtranclp)
  qed
  show ?case
  proof (cases ev)
    case (Received m)
    with Cons.prems(1) obtain s1 where s1: "on_message db_fails unmarshal key ts lim stmt m (claim_state g i) = Some s1"
      "consume_batch db_fails unmarshal key ts lim stmt evs s1 = Some s" by (auto simp: bind_eq_Some_conv)
    let ?g1 = "(put_claim i s1 g)\<lparr>grNext := (grNext g)(i := grNext g i + 1)\<rparr>"
    from Cons.prems(2) Received have m: "grNext g i < length (log i)" "log i ! grNext g i = m"
      "next_are (taken evs) (log i) (grNext g i + 1)" by (simp_all add: next_are_Cons)
    have "?step g ?g1" by (rule group_step.deliver) (simp_all add: m s1(1))
    moreover have "claim_state ?g1 i = s1" by (simp add: claim_state_def put_claim_def)
    ultimately show ?thesis using more [of ?g1] s1(2) m(3) Received by simp
  next
    case Tick
    with Cons.prems(1) obtain s1 where s1: "flush db_fails stmt (claim_state g i) = Some s1"
      "consume_batch db_fails unmarshal key ts lim stmt evs s1 = Some s" by (auto simp: bind_eq_Some_conv)
    have "?step g (put_claim i s1 g)" by (rule group_step.timer) (rule s1(1))
    moreover have "grNext (put_claim i s1 g) = grNext g" by (simp add: put_claim_def)
    ultimately show ?thesis using more [of "put_claim i s1 g"] s1(2) Cons.prems(2) Tick by (simp add: claim_state_put)
  next
    case Closed
    with Cons.prems(1) have "?step g (put_claim i s g)" by (intro group_step.timer) simp
    with Closed show ?thesis by (intro exI [of _ "put_claim i s g"]) (simp add: claim_state_put, simp add: put_claim_def)
  qed
qed

lemma lift_macs:
  assumes "(group_step db_fails (unmarshal_slice unmarshal_mac) mac_entry_key mTimestamp macBatchSize mac_upsert
      (\<lambda>_ _. False) (kafka ''mac-table''))\<^sup>*\<^sup>* (macs_of k) g"
  shows "\<exists>k'. (consumer_step db_fails c kafka)\<^sup>*\<^sup>* k k' \<and> macs_of k' = g \<and> coArps k' = coArps k \<and> coRows k' = coRows k"
  using assms
proof (induction rule: rtranclp_induct)
  case (step g g')
  then obtain k' where k': "(consumer_step db_fails c kafka)\<^sup>*\<^sup>* k k'" "macs_of k' = g" "coArps k' = coArps k"
    "coRows k' = coRows k" by blast
  let ?k = "k'\<lparr>coDb := grDb g', coMacs := g'\<rparr>"
  have "consumer_step db_fails c kafka k' ?k"
    by (rule consumer_step.macs) (use step.hyps(2) k'(2) in simp)
  with k' show ?case by (intro exI [of _ ?k]) (auto simp: macs_of_def intro: rtranclp.rtrancl_into_rtrancl)
qed blast

lemma lift_arps:
  assumes "(group_step db_fails (unmarshal_slice unmarshal_arp) arp_entry_key aTimestamp arpBatchSize arp_upsert
      (\<lambda>_ _. False) (kafka ''arp-table''))\<^sup>*\<^sup>* (arps_of k) g"
  shows "\<exists>k'. (consumer_step db_fails c kafka)\<^sup>*\<^sup>* k k' \<and> arps_of k' = g \<and> coMacs k' = coMacs k \<and> coRows k' = coRows k"
  using assms
proof (induction rule: rtranclp_induct)
  case (step g g')
  then obtain k' where k': "(consumer_step db_fails c kafka)\<^sup>*\<^sup>* k k'" "arps_of k' = g" "coMacs k' = coMacs k"
    "coRows k' = coRows k" by blast
  let ?k = "k'\<lparr>coDb := grDb g', coArps := g'\<rparr>"
  have "consumer_step db_fails c kafka k' ?k"
    by (rule consumer_step.arps) (use step.hyps(2) k'(2) in simp)
  with k' show ?case by (intro exI [of _ ?k]) (auto simp: arps_of_def intro: rtranclp.rtrancl_into_rtrancl)
qed blast

lemma consume_rows_steps:
  assumes "consume_rows db_fails ms (rcMarks (coRows k t i), coDb k) = (mk, d)" and "t \<in> row_topics"
    and "next_are ms (kafka t i) (rcNext (coRows k t i))"
  shows "\<exists>k'. (consumer_step db_fails c kafka)\<^sup>*\<^sup>* k k' \<and> coDb k' = d \<and> rcMarks (coRows k' t i) = mk \<and>
    rcNext (coRows k' t i) = rcNext (coRows k t i) + length ms \<and>
    (\<forall>u j. (u, j) \<noteq> (t, i) \<longrightarrow> coRows k' u j = coRows k u j) \<and> coMacs k' = coMacs k \<and> coArps k' = coArps k"
  using assms(1,3)
proof (induction ms arbitrary: k)
  case Nil
  then show ?case by auto
next
  case (Cons m ms)
  let ?r = "coRows k t i"
  obtain mk1 d1 where one: "consume_rows db_fails [m] (rcMarks ?r, coDb k) = (mk1, d1)" by fastforce
  let ?k1 = "(put_row t i (?r\<lparr>rcNext := rcNext ?r + 1, rcMarks := mk1\<rparr>) k)\<lparr>coDb := d1\<rparr>"
  from Cons.prems(2) have m: "rcNext ?r < length (kafka t i)" "kafka t i ! rcNext ?r = m"
    "next_are ms (kafka t i) (rcNext ?r + 1)" by (simp_all add: next_are_Cons)
  have "consumer_step db_fails c kafka k ?k1"
    by (rule consumer_step.row [OF assms(2)]) (simp_all add: m one del: consume_rows.simps)
  moreover have "coDb ?k1 = d1" "rcMarks (coRows ?k1 t i) = mk1" "rcNext (coRows ?k1 t i) = rcNext ?r + 1"
    "\<forall>u j. (u, j) \<noteq> (t, i) \<longrightarrow> coRows ?k1 u j = coRows k u j" "coMacs ?k1 = coMacs k" "coArps ?k1 = coArps k"
    by (simp_all add: put_row_def)
  ultimately obtain k1 where k1: "consumer_step db_fails c kafka k k1" "coDb k1 = d1"
    "rcMarks (coRows k1 t i) = mk1" "rcNext (coRows k1 t i) = rcNext ?r + 1"
    "\<forall>u j. (u, j) \<noteq> (t, i) \<longrightarrow> coRows k1 u j = coRows k u j" "coMacs k1 = coMacs k" "coArps k1 = coArps k" by blast
  have "consume_rows db_fails ms (rcMarks (coRows k1 t i), coDb k1) = (mk, d)"
    using Cons.prems(1) consume_rows_append [of db_fails "[m]" ms] one unfolding k1(2,3) by (metis append_Cons append_Nil)
  from Cons.IH [OF this] m(3) k1(4) obtain k' where
    k': "(consumer_step db_fails c kafka)\<^sup>*\<^sup>* k1 k'" "coDb k' = d" "rcMarks (coRows k' t i) = mk"
      "rcNext (coRows k' t i) = rcNext ?r + 1 + length ms"
      "\<forall>u j. (u, j) \<noteq> (t, i) \<longrightarrow> coRows k' u j = coRows k1 u j" "coMacs k' = coMacs k1" "coArps k' = coArps k1"
    by auto
  with k1(1,5-7) show ?case by (intro exI [of _ k']) (auto intro: converse_rtranclp_into_rtranclp)
qed

lemma cleanup_steps:
  assumes "\<forall>(tb, ttl, now) \<in> set plan. now - ttl \<le> c"
  shows "(consumer_step db_fails c kafka)\<^sup>*\<^sup>* k (k\<lparr>coDb := cleanup_tick db_fails plan (coDb k)\<rparr>)"
  using assms
proof (induction plan arbitrary: k)
  case (Cons x plan)
  obtain tb ttl now where x: "x = (tb, ttl, now)" by (cases x)
  let ?k1 = "k\<lparr>coDb := snd (db_exec db_fails (\<lambda>d. Some (delete_older tb (now - ttl) d)) (coDb k))\<rparr>"
  have "consumer_step db_fails c kafka k ?k1"
    using Cons.prems x by (intro consumer_step.retention) simp
  with Cons.IH [of ?k1] Cons.prems x show ?case by (auto intro: converse_rtranclp_into_rtranclp)
qed simp

subsection \<open>The consumer can always catch up\<close>

interpretation mac_alone: batch_group mac_entry_key mTimestamp mac_upsert
  "\<lambda>d. get mac_key (macT d)" mac_row_of "\<lambda>d. (arpT d, ifT d, vlanT d)" "\<lambda>_ _. False" "\<lambda>r. rmAt r < c" for c
  by unfold_locales simp_all

interpretation arp_alone: batch_group arp_entry_key aTimestamp arp_upsert
  "\<lambda>d. get arp_key (arpT d)" arp_row_of "\<lambda>d. (macT d, ifT d, vlanT d)" "\<lambda>_ _. False" "\<lambda>r. raAt r < c" for c
  by unfold_locales simp_all

text \<open>What the groups keep, in every state of the consumer.\<close>

definition groups_inv :: "instant \<Rightarrow> kafka \<Rightarrow> consumer \<Rightarrow> bool" where
  "groups_inv c kafka k \<longleftrightarrow>
     mac_group.group_inv c (unmarshal_slice unmarshal_mac) (kafka ''mac-table'') (macs_of k) \<and>
     arp_group.group_inv c (unmarshal_slice unmarshal_arp) (kafka ''arp-table'') (arps_of k)"

lemma groups_inv_steps:
  assumes "(consumer_step db_fails c kafka)\<^sup>*\<^sup>* k k'" and "groups_inv c kafka k"
    and "well_logged (unmarshal_slice unmarshal_mac) (kafka ''mac-table'')"
    and "well_logged (unmarshal_slice unmarshal_arp) (kafka ''arp-table'')"
  shows "groups_inv c kafka k'"
proof -
  have "mac_group.group_inv c (unmarshal_slice unmarshal_mac) (kafka ''mac-table'') (macs_of k')"
    by (rule mac_group.group_inv_steps [OF groups_project(1) [OF assms(1), unfolded mac_group_step_def] assms(3)])
      (use assms(2) in \<open>simp add: groups_inv_def\<close>)
  moreover have "arp_group.group_inv c (unmarshal_slice unmarshal_arp) (kafka ''arp-table'') (arps_of k')"
    by (rule arp_group.group_inv_steps [OF groups_project(2) [OF assms(1), unfolded arp_group_step_def] assms(4)])
      (use assms(2) in \<open>simp add: groups_inv_def\<close>)
  ultimately show ?thesis by (simp add: groups_inv_def)
qed

lemma groups_inv_start: "db_ok d \<Longrightarrow> groups_inv c kafka (consumer_start d)"
  by (simp add: groups_inv_def mac_group.group_inv_start arp_group.group_inv_start)

text \<open>A row claim stays within its partition.\<close>

definition row_within :: "cmsg list \<Rightarrow> row_claim \<Rightarrow> bool" where
  "row_within log r \<longleftrightarrow> rcNext r \<le> length log \<and> pred_option (\<lambda>n. n \<le> length log) (rcCommitted r) \<and>
     (\<forall>x \<in> set (rcMarks r). x < length log)"

definition rows_within :: "kafka \<Rightarrow> consumer \<Rightarrow> bool" where
  "rows_within kafka k \<longleftrightarrow> (\<forall>t \<in> row_topics. \<forall>i. row_within (kafka t i) (coRows k t i))"

lemma rows_within_put:
  assumes "rows_within kafka k" and "row_within (kafka t i) r"
  shows "rows_within kafka (put_row t i r k)" and "rows_within kafka ((put_row t i r k)\<lparr>coDb := d\<rparr>)"
  using assms by (simp_all add: rows_within_def put_row_def)

lemma rows_within_step:
  assumes "consumer_step db_fails c kafka k k'" and "rows_within kafka k"
    and "\<And>t i n. t \<in> row_topics \<Longrightarrow> n < length (kafka t i) \<Longrightarrow> cmOffset (kafka t i ! n) = n"
  shows "rows_within kafka k'"
proof -
  have claim: "row_within (kafka t i) (coRows k t i)" if "t \<in> row_topics" for t i
    using assms(2) that by (simp add: rows_within_def)
  from assms(1) show ?thesis
  proof cases
    case (row t r i mk d)
    have "set mk \<subseteq> insert (rcNext r) (set (rcMarks r))"
      using row(5) assms(3) [OF row(2,4)] by (auto split: prod.splits option.splits)
    with claim [OF row(2), of i] row(3,4) have "row_within (kafka t i) (r\<lparr>rcNext := rcNext r + 1, rcMarks := mk\<rparr>)"
      by (auto simp: row_within_def)
    with rows_within_put(2) [OF assms(2)] row(1) show ?thesis by simp
  next
    case (row_commit t r i)
    have "resume_offset (rcMarks r) \<le> length (kafka t i)"
      using claim [OF row_commit(2), of i] row_commit(3) by (intro resume_offset_le) (simp add: row_within_def)
    with claim [OF row_commit(2), of i] row_commit(3)
    have "row_within (kafka t i) (r\<lparr>rcCommitted := commit_offset (rcCommitted r) (rcMarks r)\<rparr>)"
      by (cases "rcCommitted r") (simp_all add: row_within_def commit_offset_def)
    with rows_within_put(1) [OF assms(2)] row_commit(1) show ?thesis by simp
  next
    case (row_restart t r i n)
    with claim [OF row_restart(2), of i] have "row_within (kafka t i) (r\<lparr>rcNext := n, rcMarks := []\<rparr>)"
      by (simp add: row_within_def)
    with rows_within_put(1) [OF assms(2)] row_restart(1) show ?thesis by simp
  next
    case (row_fresh t r i newest)
    then have "row_within (kafka t i) (r\<lparr>rcNext := newest, rcMarks := [], rcFrom := newest\<rparr>)"
      by (simp add: row_within_def)
    with rows_within_put(1) [OF assms(2)] row_fresh(1) show ?thesis by simp
  qed (use assms(2) in \<open>simp_all add: rows_within_def\<close>)
qed

lemma read_rest:
  assumes "t \<in> row_topics" and "rows_within kafka k"
  shows "\<exists>k'. (consumer_step db_fails c kafka)\<^sup>*\<^sup>* k k' \<and> rcNext (coRows k' t i) = length (kafka t i) \<and>
    (\<forall>u j. (u, j) \<noteq> (t, i) \<longrightarrow> coRows k' u j = coRows k u j) \<and> coMacs k' = coMacs k \<and> coArps k' = coArps k"
proof -
  let ?n = "rcNext (coRows k t i)"
  obtain mk d where rows: "consume_rows db_fails (drop ?n (kafka t i)) (rcMarks (coRows k t i), coDb k) = (mk, d)" by fastforce
  have "next_are (drop ?n (kafka t i)) (kafka t i) ?n" by (simp add: next_are_def)
  from consume_rows_steps [where kafka = kafka and t = t and i = i and k = k and c = c, OF rows assms(1) this]
  obtain k' where "(consumer_step db_fails c kafka)\<^sup>*\<^sup>* k k'" "rcNext (coRows k' t i) = ?n + length (drop ?n (kafka t i))"
    "\<forall>u j. (u, j) \<noteq> (t, i) \<longrightarrow> coRows k' u j = coRows k u j" "coMacs k' = coMacs k" "coArps k' = coArps k" by blast
  moreover have "?n \<le> length (kafka t i)" using assms by (simp add: rows_within_def row_within_def)
  ultimately show ?thesis by (intro exI [of _ k']) simp
qed

lemma read_all:
  assumes "finite P" and "P \<subseteq> row_topics \<times> UNIV" and "rows_within kafka k"
    and "\<And>t i n. t \<in> row_topics \<Longrightarrow> n < length (kafka t i) \<Longrightarrow> cmOffset (kafka t i ! n) = n"
  shows "\<exists>k'. (consumer_step db_fails c kafka)\<^sup>*\<^sup>* k k' \<and> rows_within kafka k' \<and>
    (\<forall>(t, i) \<in> P. rcNext (coRows k' t i) = length (kafka t i)) \<and> coMacs k' = coMacs k \<and> coArps k' = coArps k"
  using assms(1,2)
proof (induction rule: finite_induct)
  case empty
  from assms(3) show ?case by blast
next
  case (insert p P)
  obtain t i where p: "p = (t, i)" "t \<in> row_topics" using insert.prems by auto
  from insert.IH insert.prems obtain k1 where k1: "(consumer_step db_fails c kafka)\<^sup>*\<^sup>* k k1" "rows_within kafka k1"
    "\<forall>(t, i) \<in> P. rcNext (coRows k1 t i) = length (kafka t i)" "coMacs k1 = coMacs k" "coArps k1 = coArps k" by blast
  from read_rest [OF p(2) k1(2), of db_fails c i] obtain k' where
    k': "(consumer_step db_fails c kafka)\<^sup>*\<^sup>* k1 k'" "rcNext (coRows k' t i) = length (kafka t i)"
      "\<forall>u j. (u, j) \<noteq> (t, i) \<longrightarrow> coRows k' u j = coRows k1 u j" "coMacs k' = coMacs k1" "coArps k' = coArps k1" by blast
  from k'(1) have "rows_within kafka k'"
    by (induction rule: rtranclp_induct) (use k1(2) rows_within_step assms(4) in blast)+
  moreover have "\<forall>(u, j) \<in> insert p P. rcNext (coRows k' u j) = length (kafka u j)"
    using k'(2,3) k1(3) p(1) by fastforce
  ultimately show ?case using k1(1,4,5) k'(1,4,5) by (intro exI [of _ k']) simp
qed

lemma drains_macs:
  assumes "groups_inv c kafka k" and "well_logged (unmarshal_slice unmarshal_mac) (kafka ''mac-table'')"
    and "finite {i. kafka ''mac-table'' i \<noteq> []}"
  shows "\<exists>k'. (consumer_step (\<lambda>_. False) c kafka)\<^sup>*\<^sup>* k k' \<and> grFrom (coMacs k') = grFrom (coMacs k) \<and>
    (\<forall>i. kafka ''mac-table'' i \<noteq> [] \<longrightarrow> mac_group.drained (kafka ''mac-table'') (coMacs k') i) \<and>
    coArps k' = coArps k \<and> coRows k' = coRows k"
proof -
  have inv: "mac_alone.group_inv c (unmarshal_slice unmarshal_mac) (kafka ''mac-table'') (macs_of k)"
    using assms(1) by (simp add: groups_inv_def)
  from mac_alone.group_drains_all [OF assms(3) inv assms(2), of "\<lambda>_. False" macBatchSize] obtain g where
    g: "(group_step (\<lambda>_. False) (unmarshal_slice unmarshal_mac) mac_entry_key mTimestamp macBatchSize mac_upsert
        (\<lambda>_ _. False) (kafka ''mac-table''))\<^sup>*\<^sup>* (macs_of k) g" "grFrom g = grFrom (macs_of k)"
      "\<forall>i \<in> {i. kafka ''mac-table'' i \<noteq> []}. mac_group.drained (kafka ''mac-table'') g i" by auto
  from lift_macs [where kafka = kafka and c = c, OF g(1)] obtain k' where
    k': "(consumer_step (\<lambda>_. False) c kafka)\<^sup>*\<^sup>* k k'" "macs_of k' = g" "coArps k' = coArps k" "coRows k' = coRows k" by blast
  from k'(2) g(2,3) have "grFrom (coMacs k') = grFrom (coMacs k)"
    "\<forall>i. kafka ''mac-table'' i \<noteq> [] \<longrightarrow> mac_group.drained (kafka ''mac-table'') (coMacs k') i"
    by (auto simp: macs_of_def mac_group.drained_def)
  with k'(1,3,4) show ?thesis by blast
qed

lemma drains_arps:
  assumes "groups_inv c kafka k" and "well_logged (unmarshal_slice unmarshal_arp) (kafka ''arp-table'')"
    and "finite {i. kafka ''arp-table'' i \<noteq> []}"
  shows "\<exists>k'. (consumer_step (\<lambda>_. False) c kafka)\<^sup>*\<^sup>* k k' \<and> grFrom (coArps k') = grFrom (coArps k) \<and>
    (\<forall>i. kafka ''arp-table'' i \<noteq> [] \<longrightarrow> arp_group.drained (kafka ''arp-table'') (coArps k') i) \<and>
    coMacs k' = coMacs k \<and> coRows k' = coRows k"
proof -
  have inv: "arp_alone.group_inv c (unmarshal_slice unmarshal_arp) (kafka ''arp-table'') (arps_of k)"
    using assms(1) by (simp add: groups_inv_def)
  from arp_alone.group_drains_all [OF assms(3) inv assms(2), of "\<lambda>_. False" arpBatchSize] obtain g where
    g: "(group_step (\<lambda>_. False) (unmarshal_slice unmarshal_arp) arp_entry_key aTimestamp arpBatchSize arp_upsert
        (\<lambda>_ _. False) (kafka ''arp-table''))\<^sup>*\<^sup>* (arps_of k) g" "grFrom g = grFrom (arps_of k)"
      "\<forall>i \<in> {i. kafka ''arp-table'' i \<noteq> []}. arp_group.drained (kafka ''arp-table'') g i" by auto
  from lift_arps [where kafka = kafka and c = c, OF g(1)] obtain k' where
    k': "(consumer_step (\<lambda>_. False) c kafka)\<^sup>*\<^sup>* k k'" "arps_of k' = g" "coMacs k' = coMacs k" "coRows k' = coRows k" by blast
  from k'(2) g(2,3) have "grFrom (coArps k') = grFrom (coArps k)"
    "\<forall>i. kafka ''arp-table'' i \<noteq> [] \<longrightarrow> arp_group.drained (kafka ''arp-table'') (coArps k') i"
    by (auto simp: arps_of_def arp_group.drained_def)
  with k'(1,3,4) show ?thesis by blast
qed

lemma rows_within_run:
  assumes "(consumer_step db_fails c kafka)\<^sup>*\<^sup>* (consumer_start d) k"
    and "\<And>t i n. t \<in> row_topics \<Longrightarrow> n < length (kafka t i) \<Longrightarrow> cmOffset (kafka t i ! n) = n"
  shows "rows_within kafka k"
  using assms(1)
proof (induction rule: rtranclp_induct)
  case base
  then show ?case by (simp add: rows_within_def row_within_def consumer_start_def)
next
  case (step k k')
  then show ?case using rows_within_step assms(2) by blast
qed

lemma consumer_drains:
  assumes "db_ok d" and macs: "well_logged (unmarshal_slice unmarshal_mac) (kafka ''mac-table'')"
    and arps: "well_logged (unmarshal_slice unmarshal_arp) (kafka ''arp-table'')"
    and offsets: "\<And>t i n. t \<in> row_topics \<Longrightarrow> n < length (kafka t i) \<Longrightarrow> cmOffset (kafka t i ! n) = n"
    and finite: "\<And>t. finite {i. kafka t i \<noteq> []}"
    and "(consumer_step db_fails c kafka)\<^sup>*\<^sup>* (consumer_start d) k"
  shows "\<exists>k'. (consumer_step (\<lambda>_. False) c kafka)\<^sup>*\<^sup>* k k' \<and> groups_inv c kafka k' \<and>
    grFrom (coMacs k') = grFrom (coMacs k) \<and> grFrom (coArps k') = grFrom (coArps k) \<and>
    (\<forall>i. kafka ''mac-table'' i \<noteq> [] \<longrightarrow> mac_group.drained (kafka ''mac-table'') (macs_of k') i) \<and>
    (\<forall>i. kafka ''arp-table'' i \<noteq> [] \<longrightarrow> arp_group.drained (kafka ''arp-table'') (arps_of k') i) \<and>
    (\<forall>t \<in> row_topics. \<forall>i. rcNext (coRows k' t i) = length (kafka t i))"
proof -
  let ?steps = "(consumer_step (\<lambda>_. False) c kafka)\<^sup>*\<^sup>*"
  have inv: "groups_inv c kafka k"
    by (rule groups_inv_steps [OF assms(6) groups_inv_start [OF assms(1)] macs arps])
  from drains_macs [OF inv macs finite] obtain k1 where k1: "?steps k k1" "grFrom (coMacs k1) = grFrom (coMacs k)"
    "\<forall>i. kafka ''mac-table'' i \<noteq> [] \<longrightarrow> mac_group.drained (kafka ''mac-table'') (coMacs k1) i"
    "coArps k1 = coArps k" "coRows k1 = coRows k" by blast
  from drains_arps [OF groups_inv_steps [OF k1(1) inv macs arps] arps finite] obtain k2 where
    k2: "?steps k1 k2" "grFrom (coArps k2) = grFrom (coArps k1)"
      "\<forall>i. kafka ''arp-table'' i \<noteq> [] \<longrightarrow> arp_group.drained (kafka ''arp-table'') (coArps k2) i"
      "coMacs k2 = coMacs k1" "coRows k2 = coRows k1" by blast
  have "rows_within kafka k2"
    using rows_within_run [OF assms(6) offsets] k1(5) k2(5) by (simp add: rows_within_def)
  moreover have "finite (Sigma row_topics (\<lambda>t. {i. kafka t i \<noteq> []}))"
    by (rule finite_SigmaI) (simp_all add: row_topics_def finite)
  ultimately obtain k' where k': "?steps k2 k'" "rows_within kafka k'"
    "\<forall>(t, i) \<in> Sigma row_topics (\<lambda>t. {i. kafka t i \<noteq> []}). rcNext (coRows k' t i) = length (kafka t i)"
    "coMacs k' = coMacs k2" "coArps k' = coArps k2"
    using read_all [where kafka = kafka and k = k2, OF _ _ _ offsets] by blast
  have "rcNext (coRows k' t i) = length (kafka t i)" if "t \<in> row_topics" for t i
  proof (cases "kafka t i = []")
    case True
    moreover from k'(2) that have "row_within (kafka t i) (coRows k' t i)" by (simp add: rows_within_def)
    ultimately show ?thesis by (simp add: row_within_def)
  next
    case False
    with k'(3) that show ?thesis by auto
  qed
  moreover have steps: "?steps k k'" using k1(1) k2(1) k'(1) by (meson rtranclp_trans)
  moreover have "groups_inv c kafka k'" by (rule groups_inv_steps [OF steps inv macs arps])
  moreover have "mac_group.drained (kafka ''mac-table'') (macs_of k') = mac_group.drained (kafka ''mac-table'') (coMacs k1)"
    "arp_group.drained (kafka ''arp-table'') (arps_of k') = arp_group.drained (kafka ''arp-table'') (coArps k2)"
    by (simp_all add: fun_eq_iff mac_group.drained_def arp_group.drained_def macs_of_def arps_of_def k'(4,5) k2(4))
  ultimately show ?thesis
    using k1(2-4) k2(2-4) k'(4,5) by (intro exI [of _ k']) simp
qed

text \<open>The offset of the next message of a claim, what it has marked, and a claim that has just begun.\<close>

definition claim_next :: "string \<Rightarrow> nat \<Rightarrow> consumer \<Rightarrow> nat" where
  "claim_next t i k =
     (if t = ''mac-table'' then grNext (coMacs k) i else if t = ''arp-table'' then grNext (coArps k) i
      else rcNext (coRows k t i))"

definition claim_marks :: "string \<Rightarrow> nat \<Rightarrow> consumer \<Rightarrow> nat list" where
  "claim_marks t i k =
     (if t = ''mac-table'' then marks (grClaims (coMacs k) i) else if t = ''arp-table'' then marks (grClaims (coArps k) i)
      else rcMarks (coRows k t i))"

definition claim_begins :: "string \<Rightarrow> nat \<Rightarrow> consumer \<Rightarrow> bool" where
  "claim_begins t i k \<longleftrightarrow>
     (if t = ''mac-table'' then claim_state (macs_of k) i = start_batch (coDb k)
      else if t = ''arp-table'' then claim_state (arps_of k) i = start_batch (coDb k)
      else rcMarks (coRows k t i) = [])"

lemma claim_state_fields: "marks (claim_state g i) = marks (grClaims g i)" "database (claim_state g i) = grDb g"
  by (simp_all add: claim_state_def)

subsection \<open>Properties\<close>

text \<open>C6. The loops of the code are runs of the consumer: \<open>ConsumeClaim\<close> on a claim of any of the four
  topics that has just begun, given the next messages of its partition, ticks and a close in any
  order, returns with the marks and the database of a state the consumer reaches, in which the claim
  stands behind the messages it took. And a tick of the retention loop is a run too.\<close>

theorem claims_run_in_the_consumer:
  assumes "t \<in> {''mac-table'', ''arp-table''} \<union> row_topics" and "claim_begins t i k"
    and "next_are (taken evs) (kafka t i) (claim_next t i k)"
    and "ConsumeClaim db_fails t evs (coDb k) = Some (mk, d)"
    and "\<forall>(tb, ttl, now) \<in> set plan. now - ttl \<le> c"
  shows "(\<exists>k'. (consumer_step db_fails c kafka)\<^sup>*\<^sup>* k k' \<and> coDb k' = d \<and> claim_marks t i k' = mk \<and>
      claim_next t i k' = claim_next t i k + length (taken evs)) \<and>
    (consumer_step db_fails c kafka)\<^sup>*\<^sup>* k (k\<lparr>coDb := cleanup_tick db_fails plan (coDb k)\<rparr>)"
proof
  show "\<exists>k'. (consumer_step db_fails c kafka)\<^sup>*\<^sup>* k k' \<and> coDb k' = d \<and> claim_marks t i k' = mk \<and>
      claim_next t i k' = claim_next t i k + length (taken evs)"
  proof -
    consider "t = ''mac-table''" | "t = ''arp-table''" | "t \<in> row_topics" "t \<noteq> ''mac-table''" "t \<noteq> ''arp-table''"
      using assms(1) by (auto simp: row_topics_def)
    then show ?thesis
    proof cases
      case 1
      with assms(2-4) obtain s where s: "consume_batch db_fails (unmarshal_slice unmarshal_mac) mac_entry_key mTimestamp
          macBatchSize mac_upsert evs (claim_state (macs_of k) i) = Some s" "marks s = mk" "database s = d"
        by (auto simp: ConsumeClaim_def consumeMACBatch_def claim_begins_def)
      have "next_are (taken evs) (kafka ''mac-table'' i) (grNext (macs_of k) i)"
        using assms(3) 1 by (simp add: claim_next_def macs_of_def)
      from consume_batch_steps [where log = "kafka ''mac-table''" and rest = "\<lambda>_ _. False", OF s(1) this] obtain g where
        g: "(group_step db_fails (unmarshal_slice unmarshal_mac) mac_entry_key mTimestamp macBatchSize mac_upsert
            (\<lambda>_ _. False) (kafka ''mac-table''))\<^sup>*\<^sup>* (macs_of k) g" "claim_state g i = s"
          "grNext g i = grNext (macs_of k) i + length (taken evs)" by blast
      from lift_macs [where kafka = kafka and c = c, OF g(1)] obtain k' where k': "(consumer_step db_fails c kafka)\<^sup>*\<^sup>* k k'" "macs_of k' = g"
        by blast
      from k'(2) g(2,3) s(2,3) have "coDb k' = d" "marks (grClaims (coMacs k') i) = mk"
        "grNext (coMacs k') i = grNext (coMacs k) i + length (taken evs)"
        by (auto simp: macs_of_def claim_state_def)
      with k'(1) 1 show ?thesis by (intro exI [of _ k']) (simp add: claim_marks_def claim_next_def)
    next
      case 2
      with assms(2-4) obtain s where s: "consume_batch db_fails (unmarshal_slice unmarshal_arp) arp_entry_key aTimestamp
          arpBatchSize arp_upsert evs (claim_state (arps_of k) i) = Some s" "marks s = mk" "database s = d"
        by (auto simp: ConsumeClaim_def consumeARPBatch_def claim_begins_def)
      have "next_are (taken evs) (kafka ''arp-table'' i) (grNext (arps_of k) i)"
        using assms(3) 2 by (simp add: claim_next_def arps_of_def)
      from consume_batch_steps [where log = "kafka ''arp-table''" and rest = "\<lambda>_ _. False", OF s(1) this] obtain g where
        g: "(group_step db_fails (unmarshal_slice unmarshal_arp) arp_entry_key aTimestamp arpBatchSize arp_upsert
            (\<lambda>_ _. False) (kafka ''arp-table''))\<^sup>*\<^sup>* (arps_of k) g" "claim_state g i = s"
          "grNext g i = grNext (arps_of k) i + length (taken evs)" by blast
      from lift_arps [where kafka = kafka and c = c, OF g(1)] obtain k' where k': "(consumer_step db_fails c kafka)\<^sup>*\<^sup>* k k'" "arps_of k' = g"
        by blast
      from k'(2) g(2,3) s(2,3) have "coDb k' = d" "marks (grClaims (coArps k') i) = mk"
        "grNext (coArps k') i = grNext (coArps k) i + length (taken evs)"
        by (auto simp: arps_of_def claim_state_def)
      with k'(1) 2 show ?thesis by (intro exI [of _ k']) (simp add: claim_marks_def claim_next_def)
    next
      case 3
      with assms(2-4) have "consume_rows db_fails (taken evs) (rcMarks (coRows k t i), coDb k) = (mk, d)"
        "next_are (taken evs) (kafka t i) (rcNext (coRows k t i))"
        by (simp_all add: ConsumeClaim_def claim_begins_def claim_next_def taken_filter)
      from consume_rows_steps [where kafka = kafka and t = t and i = i and k = k and c = c, OF this(1) 3(1) this(2)]
      obtain k' where "(consumer_step db_fails c kafka)\<^sup>*\<^sup>* k k'" "coDb k' = d" "rcMarks (coRows k' t i) = mk"
        "rcNext (coRows k' t i) = rcNext (coRows k t i) + length (taken evs)" by blast
      with 3(2,3) show ?thesis by (intro exI [of _ k']) (simp add: claim_marks_def claim_next_def)
    qed
  qed
  show "(consumer_step db_fails c kafka)\<^sup>*\<^sup>* k (k\<lparr>coDb := cleanup_tick db_fails plan (coDb k)\<rparr>)"
    using assms(5) by (rule cleanup_steps)
qed

text \<open>C5. The consumer as a whole never wedges. From every state it can reach, whatever failed on the
  way, as soon as the database works it can catch up in all four topics at once: it reaches a state in
  which every MAC and every ARP entry from where the group began is stored, or has been and expired,
  and every message of the row topics has been handled. The MAC and ARP topics hold no malformed
  message, and a topic has finitely many partitions with messages.\<close>

theorem consumer_catches_up:
  assumes "db_ok d" and "well_logged (unmarshal_slice unmarshal_mac) (kafka ''mac-table'')"
    and "well_logged (unmarshal_slice unmarshal_arp) (kafka ''arp-table'')"
    and "\<And>t i n. t \<in> row_topics \<Longrightarrow> n < length (kafka t i) \<Longrightarrow> cmOffset (kafka t i ! n) = n"
    and "\<And>t. finite {i. kafka t i \<noteq> []}"
    and "(consumer_step db_fails c kafka)\<^sup>*\<^sup>* (consumer_start d) k"
  shows "\<exists>k'. (consumer_step (\<lambda>_. False) c kafka)\<^sup>*\<^sup>* k k' \<and>
    (\<forall>i n. n < length (kafka ''mac-table'' i) \<longrightarrow> grFrom (coMacs k) i \<le> n \<longrightarrow>
       (\<forall>e \<in> set (entries_in (unmarshal_slice unmarshal_mac) (kafka ''mac-table'' i ! n)).
          \<exists>e' \<in> all_entries (unmarshal_slice unmarshal_mac) (kafka ''mac-table''). mac_entry_key e' = mac_entry_key e \<and>
            (get mac_key (macT (coDb k')) (mac_entry_key e) = Some (mac_row_of e') \<or>
             get mac_key (macT (coDb k')) (mac_entry_key e) = None \<and> mTimestamp e' < c))) \<and>
    (\<forall>i n. n < length (kafka ''arp-table'' i) \<longrightarrow> grFrom (coArps k) i \<le> n \<longrightarrow>
       (\<forall>e \<in> set (entries_in (unmarshal_slice unmarshal_arp) (kafka ''arp-table'' i ! n)).
          \<exists>e' \<in> all_entries (unmarshal_slice unmarshal_arp) (kafka ''arp-table''). arp_entry_key e' = arp_entry_key e \<and>
            (get arp_key (arpT (coDb k')) (arp_entry_key e) = Some (arp_row_of e') \<or>
             get arp_key (arpT (coDb k')) (arp_entry_key e) = None \<and> aTimestamp e' < c))) \<and>
    (\<forall>t \<in> row_topics. \<forall>i. rcNext (coRows k' t i) = length (kafka t i))"
proof -
  obtain k' where k': "(consumer_step (\<lambda>_. False) c kafka)\<^sup>*\<^sup>* k k'" "groups_inv c kafka k'"
    "grFrom (coMacs k') = grFrom (coMacs k)" "grFrom (coArps k') = grFrom (coArps k)"
    "\<forall>i. kafka ''mac-table'' i \<noteq> [] \<longrightarrow> mac_group.drained (kafka ''mac-table'') (macs_of k') i"
    "\<forall>i. kafka ''arp-table'' i \<noteq> [] \<longrightarrow> arp_group.drained (kafka ''arp-table'') (arps_of k') i"
    "\<forall>t \<in> row_topics. \<forall>i. rcNext (coRows k' t i) = length (kafka t i)"
    using consumer_drains [OF assms] by blast
  have macs: "mac_group.group_inv c (unmarshal_slice unmarshal_mac) (kafka ''mac-table'') (macs_of k')"
    and arps: "arp_group.group_inv c (unmarshal_slice unmarshal_arp) (kafka ''arp-table'') (arps_of k')"
    using k'(2) by (simp_all add: groups_inv_def)
  have "mac_group.stored c (all_entries (unmarshal_slice unmarshal_mac) (kafka ''mac-table'')) (coDb k') e"
    if "n < length (kafka ''mac-table'' i)" "grFrom (coMacs k) i \<le> n"
      "e \<in> set (entries_in (unmarshal_slice unmarshal_mac) (kafka ''mac-table'' i ! n))" for i n e
  proof -
    from that(1) have "kafka ''mac-table'' i \<noteq> []" by auto
    with k'(5) have "mac_group.drained (kafka ''mac-table'') (macs_of k') i" by blast
    from mac_group.drained_stored [OF macs this that(1) _ that(3)] that(2) k'(3) show ?thesis by (simp add: macs_of_def)
  qed
  moreover have "arp_group.stored c (all_entries (unmarshal_slice unmarshal_arp) (kafka ''arp-table'')) (coDb k') e"
    if "n < length (kafka ''arp-table'' i)" "grFrom (coArps k) i \<le> n"
      "e \<in> set (entries_in (unmarshal_slice unmarshal_arp) (kafka ''arp-table'' i ! n))" for i n e
  proof -
    from that(1) have "kafka ''arp-table'' i \<noteq> []" by auto
    with k'(6) have "arp_group.drained (kafka ''arp-table'') (arps_of k') i" by blast
    from arp_group.drained_stored [OF arps this that(1) _ that(3)] that(2) k'(4) show ?thesis by (simp add: arps_of_def)
  qed
  ultimately show ?thesis
    using k'(1,7) unfolding mac_group.stored_def arp_group.stored_def
    by (intro exI [of _ k']) (simp add: mac_row_of_def arp_row_of_def)
qed

text \<open>C7. Every run of the whole consumer is, for the MAC and for the ARP topic, a run of the topic's group
  from the same database: what the other claims and the retention do to the table is what a group
  allows for. The tables stay well formed.\<close>

theorem consumer_refines_groups:
  assumes "db_ok d" and "(consumer_step db_fails c kafka)\<^sup>*\<^sup>* (consumer_start d) k"
  shows "(mac_group_step db_fails c (kafka ''mac-table''))\<^sup>*\<^sup>* (group_start d) (macs_of k) \<and>
    (arp_group_step db_fails c (kafka ''arp-table''))\<^sup>*\<^sup>* (group_start d) (arps_of k) \<and>
    grDb (macs_of k) = coDb k \<and> grDb (arps_of k) = coDb k \<and> db_ok (coDb k)"
  using groups_project [OF assms(2)] consumer_ok_run [OF assms(2,1)] by simp

subsection \<open>Witnesses\<close>

text \<open>One MAC and one ARP message.\<close>

definition two_topics :: kafka where
  "two_topics t = (if t = ''mac-table'' then one_mac_log else if t = ''arp-table'' then one_arp_log else (\<lambda>_. []))"

lemma two_topics_at [simp]:
  "two_topics ''mac-table'' = one_mac_log" "two_topics ''arp-table'' = one_arp_log"
  "t \<in> row_topics \<Longrightarrow> two_topics t i = []"
  by (auto simp: two_topics_def row_topics_def)

lemma two_topics_finite: "finite {i. two_topics t i \<noteq> []}"
  by (rule finite_subset [of _ "{0}"]) (auto simp: two_topics_def one_mac_log_def one_arp_log_def)

theorem consumer_catches_up_witness:
  "\<exists>k. (consumer_step (\<lambda>_. False) 0 two_topics)\<^sup>*\<^sup>* (consumer_start empty_db) k \<and>
     get mac_key (macT (coDb k)) (''sw1'', ''a'') = Some (mac_row_of one_mac) \<and>
     get arp_key (arpT (coDb k)) (''sw1'', ''10.0.0.9'') = Some (arp_row_of one_arp)"
proof -
  have "mTimestamp one_mac = 1" "aTimestamp one_arp = 1" by (simp_all add: one_mac_def one_arp_def)
  with consumer_catches_up [where kafka = two_topics and db_fails = "\<lambda>_. False" and c = 0, OF db_ok_empty
      one_logs(1,2) [folded two_topics_at(1,2)] _ two_topics_finite rtranclp.rtrancl_refl]
  obtain k where k: "(consumer_step (\<lambda>_. False) 0 two_topics)\<^sup>*\<^sup>* (consumer_start empty_db) k"
    "\<forall>i n. n < length (one_mac_log i) \<longrightarrow> (\<forall>e \<in> set (entries_in (unmarshal_slice unmarshal_mac) (one_mac_log i ! n)).
       get mac_key (macT (coDb k)) (mac_entry_key e) = Some (mac_row_of one_mac))"
    "\<forall>i n. n < length (one_arp_log i) \<longrightarrow> (\<forall>e \<in> set (entries_in (unmarshal_slice unmarshal_arp) (one_arp_log i ! n)).
       get arp_key (arpT (coDb k)) (arp_entry_key e) = Some (arp_row_of one_arp))"
    by (auto simp: one_logs consumer_start_def group_start_def)
  have "length (one_mac_log 0) = 1" "length (one_arp_log 0) = 1" by (simp_all add: one_mac_log_def one_arp_log_def)
  with k(2) [rule_format, of 0 0 one_mac] k(3) [rule_format, of 0 0 one_arp] k(1) show ?thesis
    by (intro exI [of _ k]) (simp add: one_logs, simp add: one_mac_def one_arp_def)
qed

theorem claims_run_in_the_consumer_witness:
  "\<exists>k. (consumer_step (\<lambda>_. False) 0 two_topics)\<^sup>*\<^sup>* (consumer_start empty_db) k \<and>
     claim_marks ''mac-table'' 0 k = [0] \<and> claim_next ''mac-table'' 0 k = 1"
proof -
  let ?evs = "[Received (mac_msg_at 0), Tick]"
  have "coDb (consumer_start empty_db) = empty_db" by (simp add: consumer_start_def)
  then have begins: "claim_begins ''mac-table'' 0 (consumer_start empty_db)"
    by (simp add: claim_begins_def claim_state_def group_start_def start_batch_def)
  have "next_are (taken ?evs) (two_topics ''mac-table'' 0) (claim_next ''mac-table'' 0 (consumer_start empty_db))"
    by (simp add: next_are_def claim_next_def consumer_start_def group_start_def one_mac_log_def)
  moreover obtain s where "consumeMACBatch (\<lambda>_. False) ?evs empty_db = Some s" "marks s = [0]"
    using mac_msg_marks by blast
  then have "ConsumeClaim (\<lambda>_. False) ''mac-table'' ?evs (coDb (consumer_start empty_db)) = Some ([0], database s)"
    by (simp add: ConsumeClaim_def consumer_start_def)
  ultimately show ?thesis
    using claims_run_in_the_consumer [OF _ begins, of ?evs two_topics "\<lambda>_. False" "[0]" "database s" "[]" 0]
    by (auto simp: claim_next_def consumer_start_def group_start_def)
qed

theorem consumer_refines_groups_witness:
  "\<exists>k. (consumer_step (\<lambda>_. False) 0 two_topics)\<^sup>*\<^sup>* (consumer_start empty_db) k \<and> grCommitted (coMacs k) 0 = Some 1 \<and>
     (mac_group_step (\<lambda>_. False) 0 one_mac_log)\<^sup>*\<^sup>* (group_start empty_db) (macs_of k)"
proof -
  have "two_topics ''mac-table'' = (\<lambda>i. if i = 0 then [mac_msg_at 0] else [])" by (simp add: one_mac_log_def fun_eq_iff)
  from single_mac_steps [OF this, of one_mac "\<lambda>_ _. False"] obtain g where
    g: "(group_step (\<lambda>_. False) (unmarshal_slice unmarshal_mac) mac_entry_key mTimestamp macBatchSize mac_upsert
        (\<lambda>_ _. False) (two_topics ''mac-table''))\<^sup>*\<^sup>* (macs_of (consumer_start empty_db)) g" "grCommitted g 0 = Some 1"
    by (auto simp: mac_msg_at_def one_mac_batch)
  from lift_macs [where kafka = two_topics and c = 0, OF g(1)] obtain k where
    k: "(consumer_step (\<lambda>_. False) 0 two_topics)\<^sup>*\<^sup>* (consumer_start empty_db) k" "macs_of k = g" by blast
  from k(2) g(2) have "grCommitted (coMacs k) 0 = Some 1" by (auto simp: macs_of_def)
  with k(1) consumer_refines_groups [OF db_ok_empty k(1)] show ?thesis by auto
qed

end
