(* ===== verification/System.thy ===== *)
theory System imports Network Consumers begin

text \<open>
  The whole system: the collector under many devices (\<open>Server\<close>), Kafka, the consumer with all its
  claims, crashes, commits and retention (\<open>Consumers\<close>), and the pages of the web application. What
  the pages tell is compared with what the devices told the collector: they tell nothing else, whatever
  fails, and they tell it all once everything has been read.
\<close>

subsection \<open>What reaches Kafka\<close>

lemma send_all_subset: "set (sent (snd (send_all f ms p))) \<subseteq> set (sent p) \<union> set ms"
proof (induction ms arbitrary: p)
  case (Cons m ms)
  show ?case
    using Cons.IH [of "p\<lparr>attempts := attempts p + 1, sent := sent p @ [m]\<rparr>"]
    by (auto simp: SendMessage_def)
qed simp

lemma dispatch_all_subset: "set (sent (dispatch_all f ts p)) \<subseteq> set (sent p) \<union> (\<Union>t \<in> set ts. set (to_send t))"
proof (induction ts rule: rev_induct)
  case (snoc t ts)
  with send_all_subset [of f "to_send t" "dispatch_all f ts p"] show ?case by (auto simp: dispatch_all_snoc)
qed (simp add: dispatch_all_def)

lemma stream_log_subset:
  assumes "stream_inv decode out st"
  shows "set out \<subseteq> (\<Union>t \<in> set (stream_msgs decode (smGot st)). set (to_send t))"
proof -
  have at: "set out \<subseteq> (\<Union>t \<in> set ts. set (to_send t)) \<union> set pre" if "at_message decode out st ts pre" for ts pre
    using that dispatch_all_subset [of "faults (smFaults st)" ts "\<lparr>attempts = 0, sent = []\<rparr>"]
    by (auto simp: at_message_def Let_def)
  show ?thesis
  proof (cases "smTodo st = []")
    case True
    with assms at [of "stream_msgs decode (smGot st)" "[]"] show ?thesis by (simp add: stream_inv_def)
  next
    case False
    with assms obtain ts t pre where "stream_msgs decode (smGot st) = ts @ [t]" "to_send t = pre @ smTodo st"
      "at_message decode out st ts pre" by (auto simp: stream_inv_def)
    with at [of ts pre] show ?thesis by auto
  qed
qed

text \<open>All that the handlers are to send for what the devices told. Whatever fails and whatever is still
  under way, what was published is of these, and so is what a handler still has to send.\<close>

definition to_tell :: "(8 word list \<Rightarrow> telemetry option) \<Rightarrow> server \<Rightarrow> kmsg set" where
  "to_tell decode s = (\<Union>t \<in> heard decode s. set (to_send t))"

lemma published_subset:
  assumes "server_reachable decode fails s"
  shows "set (sent (svProducer s)) \<subseteq> to_tell decode s"
proof
  fix m assume m: "m \<in> set (sent (svProducer s))"
  note inv = server_reachable_inv [OF assms]
  from m inv obtain c where "(c, m) \<in> set (svLog s)" by (auto simp: server_inv_def)
  then have log: "m \<in> set (log_of c s)" by (force simp: log_of_def)
  with server_inv_entry [OF inv, of c] obtain st where st: "svStreams s c = Some st"
    by (cases "svStreams s c") (auto simp: entry_ok_def)
  with stream_log_subset [OF server_inv_stream [OF inv st, THEN conjunct1]] log obtain t where
    "t \<in> set (stream_msgs decode (smGot st))" "m \<in> set (to_send t)" by blast
  with st show "m \<in> to_tell decode s" by (auto simp: to_tell_def heard_def)
qed

lemma todo_subset:
  assumes "server_reachable decode fails s" and "svStreams s c = Some st"
  shows "set (smTodo st) \<subseteq> to_tell decode s"
proof (cases "smTodo st = []")
  case False
  with server_inv_stream [OF server_reachable_inv [OF assms(1)] assms(2)] obtain ts t pre where
    "stream_msgs decode (smGot st) = ts @ [t]" "to_send t = pre @ smTodo st" by (auto simp: stream_inv_def)
  moreover from this(1) have "t \<in> set (stream_msgs decode (smGot st))" by simp
  with assms(2) have "t \<in> heard decode s" unfolding heard_def by blast
  ultimately show ?thesis by (auto simp: to_tell_def)
qed simp

text \<open>Kafka counts the messages of a partition and keeps only what it was given; \<open>keeps_all\<close>: all of it.\<close>

definition keeps_only :: "kmsg set \<Rightarrow> kafka \<Rightarrow> bool" where
  "keeps_only ks kafka \<longleftrightarrow>
     (\<forall>t i n. n < length (kafka t i) \<longrightarrow> cmOffset (kafka t i ! n) = n \<and> cmTopic (kafka t i ! n) = t \<and>
        (\<exists>m \<in> ks. kTopic m = t \<and> cmValue (kafka t i ! n) = Some (kValue m)))"

definition keeps_all :: "kmsg set \<Rightarrow> kafka \<Rightarrow> bool" where
  "keeps_all ks kafka \<longleftrightarrow>
     (\<forall>m \<in> ks. \<exists>i n. n < length (kafka (kTopic m) i) \<and> cmValue (kafka (kTopic m) i ! n) = Some (kValue m))"

definition heard_arps :: "(8 word list \<Rightarrow> telemetry option) \<Rightarrow> server \<Rightarrow> arp_entry set" where
  "heard_arps decode s =
     {e. \<exists>t \<in> heard decode s. isARP (EncodingPath t) \<and> year_ok (msg_time t) \<and> e \<in> set (arp_entries t)}"

lemma keeps_onlyD:
  assumes "keeps_only ks kafka" and "n < length (kafka t i)"
  obtains m where "cmOffset (kafka t i ! n) = n" "cmTopic (kafka t i ! n) = t" "m \<in> ks" "kTopic m = t"
    "cmValue (kafka t i ! n) = Some (kValue m)"
  using assms unfolding keeps_only_def by blast

lemma keeps_only_more: "keeps_only ks kafka \<Longrightarrow> ks \<subseteq> ks' \<Longrightarrow> keeps_only ks' kafka"
  unfolding keeps_only_def by blast

lemma kept_partitions:
  assumes "server_reachable decode fails s" and "\<forall>k. \<not> fails k" and "all_idle s"
    and "keeps_only (to_tell decode s) kafka" and "keeps_all (set (sent (svProducer s))) kafka"
  shows "partitions t (sent (svProducer s)) (kafka t)"
  using assms(4,5) published_set [OF assms(1-3)]
  unfolding to_tell_def keeps_only_def keeps_all_def partitions_def by blast

lemma sent_arps:
  assumes "m \<in> set (to_send t)" and "kTopic m = ''arp-table''"
  shows "isARP (EncodingPath t) \<and> year_ok (msg_time t) \<and> kValue m = JArr (map arp_json (arp_entries t))"
  using assms by (auto simp: to_send_def published_def if_msg_def vlan_msg_def split: if_splits)

lemma carried:
  assumes "keeps_only (to_tell decode s) kafka" and "n < length (kafka t i)"
  obtains u m where "u \<in> heard decode s" "m \<in> set (to_send u)" "kTopic m = t" "cmTopic (kafka t i ! n) = t"
    "cmValue (kafka t i ! n) = Some (kValue m)"
proof -
  from keeps_onlyD [OF assms] obtain m where m: "cmTopic (kafka t i ! n) = t" "m \<in> to_tell decode s"
    "kTopic m = t" "cmValue (kafka t i ! n) = Some (kValue m)" by metis
  then show thesis using that by (auto simp: to_tell_def)
qed

text \<open>So the entries of the four topics are those the devices told.\<close>

lemma carried_macs:
  assumes "keeps_only (to_tell decode s) kafka"
  shows "all_entries (unmarshal_slice unmarshal_mac) (kafka ''mac-table'') \<subseteq> heard_macs decode s"
proof
  fix e assume "e \<in> all_entries (unmarshal_slice unmarshal_mac) (kafka ''mac-table'')"
  then obtain i n where n: "n < length (kafka ''mac-table'' i)"
    "e \<in> set (entries_in (unmarshal_slice unmarshal_mac) (kafka ''mac-table'' i ! n))" by (auto simp: all_entries_def)
  obtain u m where um: "u \<in> heard decode s" "m \<in> set (to_send u)" "kTopic m = ''mac-table''"
    "cmTopic (kafka ''mac-table'' i ! n) = ''mac-table''" "cmValue (kafka ''mac-table'' i ! n) = Some (kValue m)"
    by (rule carried [OF assms n(1)])
  with sent_macs [OF um(2,3)] n(2) show "e \<in> heard_macs decode s"
    by (auto simp: entries_in_def unmarshal_macs_json heard_macs_def)
qed

lemma carried_arps:
  assumes "keeps_only (to_tell decode s) kafka"
  shows "all_entries (unmarshal_slice unmarshal_arp) (kafka ''arp-table'') \<subseteq> heard_arps decode s"
proof
  fix e assume "e \<in> all_entries (unmarshal_slice unmarshal_arp) (kafka ''arp-table'')"
  then obtain i n where n: "n < length (kafka ''arp-table'' i)"
    "e \<in> set (entries_in (unmarshal_slice unmarshal_arp) (kafka ''arp-table'' i ! n))" by (auto simp: all_entries_def)
  obtain u m where um: "u \<in> heard decode s" "m \<in> set (to_send u)" "kTopic m = ''arp-table''"
    "cmTopic (kafka ''arp-table'' i ! n) = ''arp-table''" "cmValue (kafka ''arp-table'' i ! n) = Some (kValue m)"
    by (rule carried [OF assms n(1)])
  with sent_arps [OF um(2,3)] n(2) show "e \<in> heard_arps decode s"
    by (auto simp: entries_in_def unmarshal_arps_json heard_arps_def)
qed

lemma vlan_of_published:
  assumes "m \<in> set (to_send u)" and "kTopic m = cmTopic x" and "cmValue x = Some (kValue m)" and "vlan_of_msg x = Some e"
  shows "isVlan (EncodingPath u) \<and> year_ok (msg_time u) \<and> e \<in> set (vlan_entries u) \<and> fits_integer (uint (vVlanID e))"
proof -
  from assms(4) have topic: "cmTopic x = ''vlan-table''" by (auto simp: vlan_of_msg_def split: if_splits)
  with sent_vlans [OF assms(1)] assms(2) obtain e' where
    "isVlan (EncodingPath u)" "year_ok (msg_time u)" "e' \<in> set (vlan_entries u)" "m = vlan_msg e'" by auto
  with assms(3,4) topic show ?thesis
    by (auto simp: vlan_of_msg_def vlan_msg_def unmarshal_vlan_json split: if_splits)
qed

lemma if_of_published:
  assumes "m \<in> set (to_send u)" and "kTopic m = cmTopic x" and "cmValue x = Some (kValue m)" and "if_of_msg x = Some j"
  obtains e where "isInterface (EncodingPath u)" "year_ok (msg_time u)" "e \<in> set (if_entries u)" "columns_fit e"
    "j = if_entry_wire e"
proof -
  from assms(4) have topic: "cmTopic x = ''interface-table''" by (auto simp: if_of_msg_def split: if_splits)
  with sent_ifs [OF assms(1)] assms(2) obtain e where
    e: "isInterface (EncodingPath u)" "year_ok (msg_time u)" "e \<in> set (if_entries u)" "m = if_msg e" by auto
  then have "prefix_ok e" using if_entries_prefix by blast
  then have "unmarshal_if (if_json e) = Some (if_entry_wire e)" "if_args_ok (if_entry_wire e) \<longleftrightarrow> columns_fit e"
    by (fastforce simp: prefix_ok_def intro!: unmarshal_if_json, simp add: if_entry_wire_args)
  with assms(3,4) topic e that show ?thesis
    by (auto simp: if_of_msg_def if_msg_def split: if_splits)
qed

lemma carried_vlans:
  assumes "keeps_only (to_tell decode s) kafka"
  shows "vlan_topic.told kafka \<subseteq> heard_vlans decode s"
proof
  fix e assume "e \<in> vlan_topic.told kafka"
  then obtain t i n where n: "n < length (kafka t i)" "vlan_of_msg (kafka t i ! n) = Some e"
    by (auto simp: vlan_topic.told_def)
  obtain u m where um: "u \<in> heard decode s" "m \<in> set (to_send u)" "kTopic m = t" "cmTopic (kafka t i ! n) = t"
    "cmValue (kafka t i ! n) = Some (kValue m)"
    by (rule carried [OF assms n(1)])
  with vlan_of_published [OF um(2) _ um(5) n(2)] show "e \<in> heard_vlans decode s" by (auto simp: heard_vlans_def)
qed

lemma carried_ifs:
  assumes "keeps_only (to_tell decode s) kafka"
  shows "if_topic.told kafka \<subseteq> if_entry_wire ` heard_ifs decode s"
proof
  fix j assume "j \<in> if_topic.told kafka"
  then obtain t i n where n: "n < length (kafka t i)" "if_of_msg (kafka t i ! n) = Some j"
    by (auto simp: if_topic.told_def)
  obtain u m where um: "u \<in> heard decode s" "m \<in> set (to_send u)" "kTopic m = t" "cmTopic (kafka t i ! n) = t"
    "cmValue (kafka t i ! n) = Some (kValue m)"
    by (rule carried [OF assms n(1)])
  show "j \<in> if_entry_wire ` heard_ifs decode s"
    by (rule if_of_published [OF um(2) _ um(5) n(2)]) (use um in \<open>auto simp: heard_ifs_def\<close>)
qed

subsection \<open>What the tables and the pages tell\<close>

lemma traced_rows:
  assumes "table_ok key t" and "\<And>k r. get key t k = Some r \<Longrightarrow> P r" and "r \<in> snd ` set (rows t)"
  shows "P r"
proof -
  from assms(3) obtain i where "(i, r) \<in> set (rows t)" by auto
  then have "get key t (key r) = Some r" by (auto simp: get_Some_iff [OF assms(1)])
  then show ?thesis by (rule assms(2))
qed

lemma mac_rows_told:
  assumes "keeps_only (to_tell decode s) kafka"
    and "(consumer_step db_fails c kafka)\<^sup>*\<^sup>* (consumer_start empty_db) k"
    and "r \<in> snd ` set (rows (macT (coDb k)))"
  shows "\<exists>e \<in> heard_macs decode s. r = mac_row_of e"
proof -
  have run: "(mac_group_step db_fails c (kafka ''mac-table''))\<^sup>*\<^sup>* (group_start empty_db) (macs_of k)"
    using groups_project(1) [OF assms(2)] by simp
  have traced: "mac_group.group_traced (unmarshal_slice unmarshal_mac) (kafka ''mac-table'') (macs_of k)"
    by (rule mac_group.group_traced_run [OF run [unfolded mac_group_step_def] db_ok_empty]) (simp add: empty_db_def)
  have told: "\<exists>e \<in> heard_macs decode s. r = mac_row_of e" if "get mac_key (macT (coDb k)) j = Some r" for j r
    using mac_group.group_tracedD [OF traced, of j r] that carried_macs [OF assms(1)] by auto
  have "table_ok mac_key (macT (coDb k))" using consumer_ok_run [OF assms(2) db_ok_empty] by (simp add: db_ok_def)
  from traced_rows [OF this told assms(3)] show ?thesis .
qed

lemma arp_rows_told:
  assumes "keeps_only (to_tell decode s) kafka"
    and "(consumer_step db_fails c kafka)\<^sup>*\<^sup>* (consumer_start empty_db) k"
    and "r \<in> snd ` set (rows (arpT (coDb k)))"
  shows "\<exists>e \<in> heard_arps decode s. r = arp_row_of e"
proof -
  have run: "(arp_group_step db_fails c (kafka ''arp-table''))\<^sup>*\<^sup>* (group_start empty_db) (arps_of k)"
    using groups_project(2) [OF assms(2)] by simp
  have traced: "arp_group.group_traced (unmarshal_slice unmarshal_arp) (kafka ''arp-table'') (arps_of k)"
    by (rule arp_group.group_traced_run [OF run [unfolded arp_group_step_def] db_ok_empty]) (simp add: empty_db_def)
  have told: "\<exists>e \<in> heard_arps decode s. r = arp_row_of e" if "get arp_key (arpT (coDb k)) j = Some r" for j r
    using arp_group.group_tracedD [OF traced, of j r] that carried_arps [OF assms(1)] by auto
  have "table_ok arp_key (arpT (coDb k))" using consumer_ok_run [OF assms(2) db_ok_empty] by (simp add: db_ok_def)
  from traced_rows [OF this told assms(3)] show ?thesis .
qed

text \<open>The fields of a stored interface and of a stored VLAN are those of pushes.\<close>

lemma if_column_told:
  assumes "ifs.built (if_entry_wire ` E) (node, name) r"
    and "\<And>j. f (if_row_of j) = g j" and "\<And>j r. f (on_conflict (if_update j) r) = g j \<or> f (on_conflict (if_update j) r) = f r"
  shows "\<exists>e \<in> E. iNodeID e = node \<and> iName e = name \<and> f r = g (if_entry_wire e)"
proof -
  have "\<exists>j \<in> if_entry_wire ` E. if_entry_key j = (node, name) \<and> f r = g j"
    by (rule ifs.built_field [OF assms(1)]) (simp_all add: if_merge_def assms(2,3))
  then show ?thesis by (auto simp: if_entry_wire_def)
qed

lemma vlan_name_of_push:
  assumes "vlans.built V (node, n) r"
  shows "\<exists>v \<in> V. vNodeID v = node \<and> uint (vVlanID v) = n \<and> rvName r = vName v"
proof -
  have "\<exists>v \<in> V. vlan_entry_key v = (node, n) \<and> rvName r = vName v"
    by (rule vlans.built_field [OF assms])
      (auto simp: vlan_merge_def vlan_row_of_def vlan_update_def on_conflict_def coalesce_def split: option.split)
  then show ?thesis by auto
qed

lemmas if_columns = if_row_of_def on_conflict_def if_update_def coalesce_def

lemma if_columns_told:
  assumes "ifs.built (if_entry_wire ` E) (node, name) r"
  shows "\<exists>e \<in> E. iNodeID e = node \<and> iName e = name \<and> riDescription r = iDescription e"
    and "\<exists>e \<in> E. iNodeID e = node \<and> iName e = name \<and> riIp r = iIPAddress e"
    and "\<exists>e \<in> E. iNodeID e = node \<and> iName e = name \<and> riPrefixLen r = iPrefixLen e"
    and "\<exists>e \<in> E. iNodeID e = node \<and> iName e = name \<and> riVrf r = (if iVRF e = [] then None else Some (iVRF e))"
    and "\<exists>e \<in> E. iNodeID e = node \<and> iName e = name \<and> riMtu r = (if iMTU e = 0 then None else Some (uint (iMTU e)))"
    and "\<exists>e \<in> E. iNodeID e = node \<and> iName e = name \<and> riAccessVlan r = (case iAccessVlan e of None \<Rightarrow> 1 | Some w \<Rightarrow> uint w)"
    and "\<exists>e \<in> E. iNodeID e = node \<and> iName e = name \<and> riVoiceVlan r = map_option uint (iVoiceVlan e)"
proof -
  have "\<exists>e \<in> E. iNodeID e = node \<and> iName e = name \<and> riDescription r = jDescription (if_entry_wire e)"
    by (rule if_column_told [OF assms]) (simp_all add: if_columns split: option.split)
  then show "\<exists>e \<in> E. iNodeID e = node \<and> iName e = name \<and> riDescription r = iDescription e"
    by (simp add: if_entry_wire_def if_distrib [of "map_option _"] cong: if_cong)
  have "\<exists>e \<in> E. iNodeID e = node \<and> iName e = name \<and> riIp r = jIPAddress (if_entry_wire e)"
    by (rule if_column_told [OF assms]) (simp_all add: if_columns split: option.split)
  then show "\<exists>e \<in> E. iNodeID e = node \<and> iName e = name \<and> riIp r = iIPAddress e"
    by (simp add: if_entry_wire_def if_distrib [of "map_option _"] cong: if_cong)
  have "\<exists>e \<in> E. iNodeID e = node \<and> iName e = name \<and> riPrefixLen r = jPrefixLen (if_entry_wire e)"
    by (rule if_column_told [OF assms]) (simp_all add: if_columns split: option.split)
  then show "\<exists>e \<in> E. iNodeID e = node \<and> iName e = name \<and> riPrefixLen r = iPrefixLen e"
    by (simp add: if_entry_wire_def if_distrib [of "map_option _"] cong: if_cong)
  have "\<exists>e \<in> E. iNodeID e = node \<and> iName e = name \<and> riVrf r = jVRF (if_entry_wire e)"
    by (rule if_column_told [OF assms]) (simp_all add: if_columns split: option.split)
  then show "\<exists>e \<in> E. iNodeID e = node \<and> iName e = name \<and> riVrf r = (if iVRF e = [] then None else Some (iVRF e))"
    by (simp add: if_entry_wire_def if_distrib [of "map_option _"] cong: if_cong)
  have "\<exists>e \<in> E. iNodeID e = node \<and> iName e = name \<and> riMtu r = (\<lambda>j. map_option uint (jMTU j)) (if_entry_wire e)"
    by (rule if_column_told [OF assms]) (simp_all add: if_columns split: option.split)
  then show "\<exists>e \<in> E. iNodeID e = node \<and> iName e = name \<and> riMtu r = (if iMTU e = 0 then None else Some (uint (iMTU e)))"
    by (simp add: if_entry_wire_def if_distrib [of "map_option _"] cong: if_cong)
  have "\<exists>e \<in> E. iNodeID e = node \<and> iName e = name \<and> riAccessVlan r = (\<lambda>j. case jAccessVlan j of None \<Rightarrow> 1 | Some w \<Rightarrow> uint w) (if_entry_wire e)"
    by (rule if_column_told [OF assms]) (simp_all add: if_columns split: option.split)
  then show "\<exists>e \<in> E. iNodeID e = node \<and> iName e = name \<and> riAccessVlan r = (case iAccessVlan e of None \<Rightarrow> 1 | Some w \<Rightarrow> uint w)"
    by (simp add: if_entry_wire_def if_distrib [of "map_option _"] cong: if_cong)
  have "\<exists>e \<in> E. iNodeID e = node \<and> iName e = name \<and> riVoiceVlan r = (\<lambda>j. map_option uint (jVoiceVlan j)) (if_entry_wire e)"
    by (rule if_column_told [OF assms]) (simp_all add: if_columns split: option.split)
  then show "\<exists>e \<in> E. iNodeID e = node \<and> iName e = name \<and> riVoiceVlan r = map_option uint (iVoiceVlan e)"
    by (simp add: if_entry_wire_def if_distrib [of "map_option _"] cong: if_cong)
qed

lemma if_row_built:
  assumes "keeps_only (to_tell decode s) kafka"
    and "(consumer_step db_fails c kafka)\<^sup>*\<^sup>* (consumer_start empty_db) k"
    and "get if_key (ifT (coDb k)) (node, name) = Some r"
  shows "ifs.built (if_entry_wire ` heard_ifs decode s) (node, name) r"
proof -
  have "ifs.backed (if_topic.told kafka) (ifT (coDb k))"
    by (rule if_topic.backed_run [OF assms(2) db_ok_empty]) (simp add: empty_db_def)
  with assms(3) have "ifs.built (if_topic.told kafka) (node, name) r" by (simp add: ifs.backed_def)
  then show ?thesis by (rule ifs.built_mono [OF _ carried_ifs [OF assms(1)]])
qed

lemma if_row_told:
  assumes "keeps_only (to_tell decode s) kafka"
    and "(consumer_step db_fails c kafka)\<^sup>*\<^sup>* (consumer_start empty_db) k"
    and "get if_key (ifT (coDb k)) (node, name) = Some r"
  shows "\<exists>e \<in> heard_ifs decode s. iNodeID e = node \<and> iName e = name \<and> riDescription r = iDescription e"
    and "\<exists>e \<in> heard_ifs decode s. iNodeID e = node \<and> iName e = name \<and>
      riAccessVlan r = (case iAccessVlan e of None \<Rightarrow> 1 | Some w \<Rightarrow> uint w)"
    and "\<exists>e \<in> heard_ifs decode s. iNodeID e = node \<and> iName e = name \<and> riVoiceVlan r = map_option uint (iVoiceVlan e)"
proof -
  note told = if_columns_told [OF if_row_built [OF assms]]
  show "\<exists>e \<in> heard_ifs decode s. iNodeID e = node \<and> iName e = name \<and> riDescription r = iDescription e"
    by (rule told(1))
  show "\<exists>e \<in> heard_ifs decode s. iNodeID e = node \<and> iName e = name \<and>
      riAccessVlan r = (case iAccessVlan e of None \<Rightarrow> 1 | Some w \<Rightarrow> uint w)"
    by (rule told(6))
  show "\<exists>e \<in> heard_ifs decode s. iNodeID e = node \<and> iName e = name \<and> riVoiceVlan r = map_option uint (iVoiceVlan e)"
    by (rule told(7))
qed

lemma vlan_name_told:
  assumes "keeps_only (to_tell decode s) kafka"
    and "(consumer_step db_fails c kafka)\<^sup>*\<^sup>* (consumer_start empty_db) k"
    and "vlan_name (coDb k) node v = Some name"
  shows "\<exists>e \<in> heard_vlans decode s. vNodeID e = node \<and> v = Some (uint (vVlanID e)) \<and> vName e = Some name"
proof -
  from assms(3) obtain n r where n: "v = Some n" "get vlan_key (vlanT (coDb k)) (node, n) = Some r" "rvName r = Some name"
    by (auto simp: vlan_name_def bind_eq_Some_conv split: option.splits)
  have "vlans.backed (vlan_topic.told kafka) (vlanT (coDb k))"
    by (rule vlan_topic.backed_run [OF assms(2) db_ok_empty]) (simp add: empty_db_def)
  with n(2) have "vlans.built (vlan_topic.told kafka) (node, n) r" by (simp add: vlans.backed_def)
  from vlan_name_of_push [OF this] n(1,3) carried_vlans [OF assms(1)] show ?thesis by auto
qed

subsection \<open>Properties\<close>

lemma searchSQL_macs_result: "r \<in> set (searchSQL_macs d ms xs) \<Longrightarrow> \<exists>m \<in> snd ` set (rows (macT d)). r = mac_result d m"
  by (auto simp: searchSQL_macs_def dest: best_mac_mem)

lemma searchSQL_arps_result:
  assumes "r \<in> set (searchSQL_arps d xs)"
  shows "\<exists>a \<in> snd ` set (rows (arpT d)). srNode r = raNode a \<and> srMac r = (case raMac a of Some m \<Rightarrow> m | None \<Rightarrow> []) \<and>
    srIp r = Some (raIp a) \<and> srInterface r = None \<and> srDescription r = None \<and> srAccessVlan r = None \<and> srAccessName r = None \<and>
    srVoiceVlan r = None \<and> srVoiceName r = None"
  using assms by (auto simp: searchSQL_arps_def dest!: distinct_on_mem)

text \<open>A search result that is what devices reported: it is a MAC entry some device reported, on its
  interface, or an ARP entry some device reported; an IP it shows was reported with that MAC; a
  description and either VLAN with that interface, an access VLAN of 1 perhaps by a push without one; the
  name of either VLAN with that VLAN of that switch. These are all fields of a result.\<close>

definition result_heard :: "(8 word list \<Rightarrow> telemetry option) \<Rightarrow> server \<Rightarrow> search_result \<Rightarrow> bool" where
  "result_heard decode s r \<longleftrightarrow>
    ((\<exists>e \<in> heard_macs decode s. srNode r = mNodeID e \<and> srMac r = mMacAddress e \<and> srInterface r = Some (mInterface e)) \<or>
      (\<exists>a \<in> heard_arps decode s. srNode r = aNodeID a \<and> srMac r = aMacAddress a \<and> srIp r = Some (aIPAddress a) \<and>
         srInterface r = None)) \<and>
    (\<forall>ip. srIp r = Some ip \<longrightarrow> (\<exists>a \<in> heard_arps decode s. aIPAddress a = ip \<and> aMacAddress a = srMac r)) \<and>
    (\<forall>x. srDescription r = Some x \<longrightarrow>
       (\<exists>i \<in> heard_ifs decode s. iNodeID i = srNode r \<and> srInterface r = Some (iName i) \<and> iDescription i = Some x)) \<and>
    (\<forall>v. srAccessVlan r = Some v \<longrightarrow>
       (\<exists>i \<in> heard_ifs decode s. iNodeID i = srNode r \<and> srInterface r = Some (iName i) \<and>
          v = (case iAccessVlan i of None \<Rightarrow> 1 | Some w \<Rightarrow> uint w))) \<and>
    (\<forall>x. srAccessName r = Some x \<longrightarrow>
       (\<exists>v \<in> heard_vlans decode s. vNodeID v = srNode r \<and> srAccessVlan r = Some (uint (vVlanID v)) \<and> vName v = Some x)) \<and>
    (\<forall>v. srVoiceVlan r = Some v \<longrightarrow>
       (\<exists>i \<in> heard_ifs decode s. iNodeID i = srNode r \<and> srInterface r = Some (iName i) \<and>
          map_option uint (iVoiceVlan i) = Some v)) \<and>
    (\<forall>x. srVoiceName r = Some x \<longrightarrow>
       (\<exists>v \<in> heard_vlans decode s. vNodeID v = srNode r \<and> srVoiceVlan r = Some (uint (vVlanID v)) \<and> vName v = Some x))"

text \<open>The search tells nothing but what was told. Whatever of it Kafka keeps, whatever statements fail, and
  however claims, commits, crashes, rebalances and retention interleave: each result of a search is,
  field by field, what devices reported.\<close>

theorem search_tells_what_was_heard:
  assumes "keeps_only (to_tell decode s) kafka"
    and "(consumer_step db_fails c kafka)\<^sup>*\<^sup>* (consumer_start empty_db) k"
    and "SearchHandler lookup_host arrange q_fails (coDb k) meth body = Reply code rsp"
    and "\<And>rs. set (arrange rs) = set rs" and "r \<in> set (spResults rsp)"
  shows "result_heard decode s r"
proof -
  note mac_told = mac_rows_told [OF assms(1,2)] and arp_told = arp_rows_told [OF assms(1,2)]
  obtain ms xs where "r \<in> set (searchSQL (coDb k) ms xs)"
    using assms(3,4,5) by (auto simp: SearchHandler_def Let_def split: if_splits option.splits)
  then consider "r \<in> set (searchSQL_macs (coDb k) ms xs)" | "r \<in> set (searchSQL_arps (coDb k) xs)"
    by (auto simp: set_searchSQL)
  then show ?thesis
  proof cases
    case 1
    then obtain m where m: "m \<in> snd ` set (rows (macT (coDb k)))" and r: "r = mac_result (coDb k) m"
      using searchSQL_macs_result by blast
    from mac_told [OF m] obtain e where e: "e \<in> heard_macs decode s" "m = mac_row_of e" by blast
    have fields: "srNode r = mNodeID e" "srMac r = mMacAddress e" "srInterface r = Some (mInterface e)"
      by (simp_all add: r e(2) mac_result_def Let_def mac_row_of_def)
    define i where "i = get if_key (ifT (coDb k)) (mNodeID e, mInterface e)"
    have joined: "srIp r = map_option raIp (arp_of_mac (coDb k) (mMacAddress e))" "srDescription r = Option.bind i riDescription"
      "srAccessVlan r = map_option riAccessVlan i" "srAccessName r = vlan_name (coDb k) (mNodeID e) (srAccessVlan r)"
      "srVoiceVlan r = Option.bind i riVoiceVlan" "srVoiceName r = vlan_name (coDb k) (mNodeID e) (srVoiceVlan r)"
      by (simp_all add: r e(2) mac_result_def Let_def mac_row_of_def i_def)
    have ip: "\<exists>a \<in> heard_arps decode s. aIPAddress a = ip \<and> aMacAddress a = srMac r" if "srIp r = Some ip" for ip
    proof -
      from that joined(1) obtain b where b: "arp_of_mac (coDb k) (mMacAddress e) = Some b" "raIp b = ip" by auto
      with arp_of_mac_newest [OF b(1)] arp_told [of b] fields(2) show ?thesis by (fastforce simp: arp_row_of_def)
    qed
    have row: "i = Some x \<Longrightarrow> get if_key (ifT (coDb k)) (mNodeID e, mInterface e) = Some x" for x by (simp add: i_def)
    have description: "\<exists>i \<in> heard_ifs decode s. iNodeID i = srNode r \<and> srInterface r = Some (iName i) \<and> iDescription i = Some x"
      if "srDescription r = Some x" for x
      using that joined(2) if_row_told(1) [OF assms(1,2) row] fields by (fastforce simp: bind_eq_Some_conv)
    have access: "\<exists>i \<in> heard_ifs decode s. iNodeID i = srNode r \<and> srInterface r = Some (iName i) \<and>
        v = (case iAccessVlan i of None \<Rightarrow> 1 | Some w \<Rightarrow> uint w)" if "srAccessVlan r = Some v" for v
      using that joined(3) if_row_told(2) [OF assms(1,2) row] fields by fastforce
    have name: "\<exists>v \<in> heard_vlans decode s. vNodeID v = srNode r \<and> srAccessVlan r = Some (uint (vVlanID v)) \<and> vName v = Some x"
      if "srAccessName r = Some x" for x
      using vlan_name_told [OF assms(1,2), of "mNodeID e" "srAccessVlan r" x] that joined(4) fields by auto
    have voice: "\<exists>i \<in> heard_ifs decode s. iNodeID i = srNode r \<and> srInterface r = Some (iName i) \<and>
        map_option uint (iVoiceVlan i) = Some v" if "srVoiceVlan r = Some v" for v
      using that joined(5) if_row_told(3) [OF assms(1,2) row] fields by (fastforce simp: bind_eq_Some_conv)
    have voice_name: "\<exists>v \<in> heard_vlans decode s. vNodeID v = srNode r \<and> srVoiceVlan r = Some (uint (vVlanID v)) \<and> vName v = Some x"
      if "srVoiceName r = Some x" for x
      using vlan_name_told [OF assms(1,2), of "mNodeID e" "srVoiceVlan r" x] that joined(6) fields by auto
    show ?thesis
      unfolding result_heard_def using e(1) fields ip description access name voice voice_name by blast
  next
    case 2
    then obtain a where a: "a \<in> snd ` set (rows (arpT (coDb k)))" "srNode r = raNode a"
      "srMac r = (case raMac a of Some m \<Rightarrow> m | None \<Rightarrow> [])" "srIp r = Some (raIp a)" "srInterface r = None"
      "srDescription r = None" "srAccessVlan r = None" "srAccessName r = None" "srVoiceVlan r = None" "srVoiceName r = None"
      using searchSQL_arps_result by blast
    from arp_told [OF a(1)] obtain e where "e \<in> heard_arps decode s" "a = arp_row_of e" by blast
    with a(2-) show ?thesis by (auto simp: result_heard_def arp_row_of_def)
  qed
qed

text \<open>Conversely, once everything is sent and kept, the row topics tell all that was told.\<close>

lemma told_all:
  assumes "server_reachable decode fails s" and "\<forall>k. \<not> fails k" and "all_idle s"
    and "keeps_only (to_tell decode s) kafka" and "keeps_all (set (sent (svProducer s))) kafka"
  shows "vlan_topic.told kafka = heard_vlans decode s"
    and "if_topic.told kafka = if_entry_wire ` heard_ifs decode s"
proof -
  note sent = published_set [OF assms(1-3)]
  have kept: "\<exists>i n. n < length (kafka (kTopic m) i) \<and> cmTopic (kafka (kTopic m) i ! n) = kTopic m \<and>
      cmValue (kafka (kTopic m) i ! n) = Some (kValue m)" if "t \<in> heard decode s" "m \<in> set (to_send t)" for t m
  proof -
    have "m \<in> set (sent (svProducer s))" using that unfolding sent by blast
    with assms(5) obtain i n where "n < length (kafka (kTopic m) i)" "cmValue (kafka (kTopic m) i ! n) = Some (kValue m)"
      unfolding keeps_all_def by blast
    moreover from this(1) keeps_onlyD [OF assms(4)] have "cmTopic (kafka (kTopic m) i ! n) = kTopic m" by metis
    ultimately show ?thesis by blast
  qed
  have "e \<in> vlan_topic.told kafka" if "e \<in> heard_vlans decode s" for e
  proof -
    from that obtain t where t: "t \<in> heard decode s" "isVlan (EncodingPath t)" "year_ok (msg_time t)" "e \<in> set (vlan_entries t)"
      "fits_integer (uint (vVlanID e))" by (auto simp: heard_vlans_def)
    note m = sends_vlan [OF t(2-4)]
    from kept [OF t(1) m [THEN conjunct1]] m obtain i n where "n < length (kafka ''vlan-table'' i)"
      "cmTopic (kafka ''vlan-table'' i ! n) = ''vlan-table''" "cmValue (kafka ''vlan-table'' i ! n) = Some (kValue (vlan_msg e))"
      by auto
    then show ?thesis using t(5) unfolding vlan_topic.told_def row_topics_def
      by (intro CollectI bexI [of _ "''vlan-table''"] exI [of _ i] exI [of _ n])
        (simp_all add: vlan_of_msg_def vlan_msg_def unmarshal_vlan_json)
  qed
  with carried_vlans [OF assms(4)] show "vlan_topic.told kafka = heard_vlans decode s" by blast
  have "if_entry_wire e \<in> if_topic.told kafka" if "e \<in> heard_ifs decode s" for e
  proof -
    from that obtain t where t: "t \<in> heard decode s" "isInterface (EncodingPath t)" "year_ok (msg_time t)"
      "e \<in> set (if_entries t)" "columns_fit e" by (auto simp: heard_ifs_def)
    note m = sends_if [OF t(2-4)]
    from t(4) have "prefix_ok e" by (rule if_entries_prefix)
    then have wire: "unmarshal_if (if_json e) = Some (if_entry_wire e)" "if_args_ok (if_entry_wire e) \<longleftrightarrow> columns_fit e"
      by (fastforce simp: prefix_ok_def intro!: unmarshal_if_json, simp add: if_entry_wire_args)
    from kept [OF t(1) m [THEN conjunct1]] m obtain i n where "n < length (kafka ''interface-table'' i)"
      "cmTopic (kafka ''interface-table'' i ! n) = ''interface-table''"
      "cmValue (kafka ''interface-table'' i ! n) = Some (kValue (if_msg e))"
      by auto
    then show ?thesis using t(5) wire unfolding if_topic.told_def row_topics_def
      by (intro CollectI bexI [of _ "''interface-table''"] exI [of _ i] exI [of _ n])
        (simp_all add: if_of_msg_def if_msg_def)
  qed
  with carried_ifs [OF assms(4)] show "if_topic.told kafka = if_entry_wire ` heard_ifs decode s" by blast
qed

text \<open>The consumer has read the row topics, and the group has committed the MAC topic, from the beginning.\<close>

definition rows_read :: "kafka \<Rightarrow> consumer \<Rightarrow> bool" where
  "rows_read kafka k \<longleftrightarrow>
     (\<forall>t \<in> row_topics. \<forall>i. kafka t i \<noteq> [] \<longrightarrow> rcNext (coRows k t i) = length (kafka t i) \<and> rcFrom (coRows k t i) = 0)"

definition macs_committed :: "kafka \<Rightarrow> consumer \<Rightarrow> bool" where
  "macs_committed kafka k \<longleftrightarrow>
     (\<forall>i. kafka ''mac-table'' i \<noteq> [] \<longrightarrow>
        grCommitted (coMacs k) i = Some (length (kafka ''mac-table'' i)) \<and> grFrom (coMacs k) i = 0)"

lemma row_tables:
  assumes "server_reachable decode fails s" and "\<forall>k. \<not> fails k" and "all_idle s"
    and "keeps_only (to_tell decode s) kafka" and "keeps_all (set (sent (svProducer s))) kafka"
    and "\<forall>n. \<not> db_fails n" and "(consumer_step db_fails c kafka)\<^sup>*\<^sup>* (consumer_start empty_db) k" and "rows_read kafka k"
  shows "\<forall>e \<in> heard_vlans decode s. c \<le> vTimestamp e \<Longrightarrow>
      \<exists>es. vlanT (coDb k) = fold vlan_put es empty_table \<and> set es = heard_vlans decode s"
    and "\<forall>e \<in> heard_ifs decode s. c \<le> iTimestamp e \<Longrightarrow>
      \<exists>es. ifT (coDb k) = fold if_put es empty_table \<and> set es = if_entry_wire ` heard_ifs decode s"
proof -
  have offsets: "cmOffset (kafka t i ! n) = n" if "n < length (kafka t i)" for t i n
    using keeps_onlyD [OF assms(4) that] by metis
  have read: "rcNext (coRows k t i) = length (kafka t i) \<and> rcFrom (coRows k t i) = 0"
    if "t \<in> row_topics" "kafka t i \<noteq> []" for t i
    using assms(8) that by (simp add: rows_read_def)
  note told = told_all [OF assms(1-5)]
  have empty: "vlanT empty_db = empty_table" "ifT empty_db = empty_table" by (simp_all add: empty_db_def)
  show "\<exists>es. vlanT (coDb k) = fold vlan_put es empty_table \<and> set es = heard_vlans decode s"
    if "\<forall>e \<in> heard_vlans decode s. c \<le> vTimestamp e"
  proof -
    have "\<exists>es. vlan_topic.rows_inv es (vlanT empty_db) kafka k"
      by (rule vlan_topic.rows_inv_run [OF assms(7) db_ok_empty _ assms(6) offsets]) (simp_all add: empty told that)
    then obtain es where "vlan_topic.rows_inv es (vlanT empty_db) kafka k" ..
    from vlan_topic.rows_inv_all [OF this read] show ?thesis by (auto simp: empty told)
  qed
  show "\<exists>es. ifT (coDb k) = fold if_put es empty_table \<and> set es = if_entry_wire ` heard_ifs decode s"
    if "\<forall>e \<in> heard_ifs decode s. c \<le> iTimestamp e"
  proof -
    have "\<exists>es. if_topic.rows_inv es (ifT empty_db) kafka k"
      by (rule if_topic.rows_inv_run [OF assms(7) db_ok_empty _ assms(6) offsets])
        (simp_all add: empty told that if_entry_wire_def)
    then obtain es where "if_topic.rows_inv es (ifT empty_db) kafka k" ..
    from if_topic.rows_inv_all [OF this read] show ?thesis by (auto simp: empty told)
  qed
qed

text \<open>From any number of devices to the VLAN page, through the whole consumer: when the collector has
  handled what it received and the consumer has read the row topics, then however streams and claims
  interleaved, and whatever crashes and rebalances made the consumer read again, the page of a switch
  lists each VLAN id any device pushed for it, once, and no other; and where a strictly newest push of
  a VLAN has a name, the page shows that name. The database works, nothing pushed is older than the
  retention has reached, and no claim lost its place before its first commit.\<close>

theorem vlan_page_tells_all:
  assumes "server_reachable decode fails s" and "\<forall>k. \<not> fails k" and "all_idle s"
    and "keeps_only (to_tell decode s) kafka" and "keeps_all (set (sent (svProducer s))) kafka"
    and "\<forall>n. \<not> db_fails n" and "(consumer_step db_fails c kafka)\<^sup>*\<^sup>* (consumer_start empty_db) k" and "rows_read kafka k"
    and "\<forall>e \<in> heard_vlans decode s. c \<le> vTimestamp e" and "query ''node_id'' = node" and "node \<noteq> []"
  shows "\<exists>vs. VlansHandler False (coDb k) ''GET'' query = Reply 200 vs \<and> distinct (map vrVlanID vs) \<and>
    vrVlanID ` set vs = {uint (vVlanID e) | e. e \<in> heard_vlans decode s \<and> vNodeID e = node} \<and>
    (\<forall>e \<in> heard_vlans decode s. \<forall>name. vNodeID e = node \<longrightarrow> vName e = Some name \<longrightarrow>
       newest_vlan (heard_vlans decode s) e \<longrightarrow> \<lparr>vrVlanID = uint (vVlanID e), vrName = Some name\<rparr> \<in> set vs)"
proof -
  from row_tables(1) [OF assms(1-9)] obtain es where
    es: "vlanT (coDb k) = fold vlan_put es empty_table" "set es = heard_vlans decode s" by blast
  have ok: "db_ok (coDb k)" by (rule consumer_ok_run [OF assms(7) db_ok_empty])
  show ?thesis
    by (rule vlan_page_shows [where query = query, OF es(1) _ _ es(2) ok assms(10,11)]) simp_all
qed

text \<open>
  What a port page is to tell, if \<open>e\<close> is the strictly newest push of the interface: a column shows what
  \<open>e\<close> says of it, and where \<open>e\<close> says nothing, what some push of the interface says of it, or nothing as
  \<open>e\<close>. A name shown was pushed for that VLAN of the switch, and if the strictly newest push of the VLAN
  has a name, it is shown. The wire has no VRF when it is empty and no MTU when it is 0.
\<close>

definition column_told :: "if_entry set \<Rightarrow> if_entry \<Rightarrow> (if_entry \<Rightarrow> 'a option) \<Rightarrow> 'a option \<Rightarrow> bool" where
  "column_told E e f x \<longleftrightarrow>
     (case f e of Some y \<Rightarrow> x = Some y | None \<Rightarrow> \<exists>e' \<in> E. iNodeID e' = iNodeID e \<and> iName e' = iName e \<and> x = f e')"

definition access_told :: "if_entry set \<Rightarrow> if_entry \<Rightarrow> int \<Rightarrow> bool" where
  "access_told E e n \<longleftrightarrow>
     (case iAccessVlan e of Some w \<Rightarrow> n = uint w
      | None \<Rightarrow> \<exists>e' \<in> E. iNodeID e' = iNodeID e \<and> iName e' = iName e \<and>
          n = (case iAccessVlan e' of None \<Rightarrow> 1 | Some w \<Rightarrow> uint w))"

definition name_told :: "vlan_entry set \<Rightarrow> string \<Rightarrow> int option \<Rightarrow> string option \<Rightarrow> bool" where
  "name_told V node n x \<longleftrightarrow>
     (\<forall>nm. x = Some nm \<longrightarrow> (\<exists>v \<in> V. vNodeID v = node \<and> n = Some (uint (vVlanID v)) \<and> vName v = Some nm)) \<and>
     (\<forall>v nm. newest_vlan V v \<and> vNodeID v = node \<and> n = Some (uint (vVlanID v)) \<and> vName v = Some nm \<longrightarrow> x = Some nm)"

definition port_told :: "if_entry set \<Rightarrow> vlan_entry set \<Rightarrow> if_entry \<Rightarrow> port_result \<Rightarrow> bool" where
  "port_told E V e res \<longleftrightarrow>
     prNode res = iNodeID e \<and> prName res = iName e \<and> prShutdown res = iShutdown e \<and>
     column_told E e iDescription (prDescription res) \<and>
     column_told E e iIPAddress (prIp res) \<and> column_told E e iPrefixLen (prPrefixLen res) \<and>
     column_told E e (\<lambda>i. if iVRF i = [] then None else Some (iVRF i)) (prVrf res) \<and>
     column_told E e (\<lambda>i. if iMTU i = 0 then None else Some (uint (iMTU i))) (prMtu res) \<and>
     access_told E e (prAccessVlan res) \<and> column_told E e (\<lambda>i. map_option uint (iVoiceVlan i)) (prVoiceVlan res) \<and>
     name_told V (iNodeID e) (Some (prAccessVlan res)) (prAccessName res) \<and>
     name_told V (iNodeID e) (prVoiceVlan res) (prVoiceName res) \<and>
     prCollected res = to_second (iTimestamp e)"

lemma put_all_backed:
  "ifs.backed (set es) (fold if_put es empty_table)" "vlans.backed (set vs) (fold vlan_put vs empty_table)"
proof -
  show "ifs.backed (set es) (fold if_put es empty_table)"
    by (rule ifs.backed_puts) (simp_all add: ifs.backed_def)
  show "vlans.backed (set vs) (fold vlan_put vs empty_table)"
    by (rule vlans.backed_puts) (simp_all add: vlans.backed_def)
qed

lemma column_toldI:
  "(\<And>y. f e = Some y \<Longrightarrow> x = Some y) \<Longrightarrow> \<exists>e' \<in> E. iNodeID e' = iNodeID e \<and> iName e' = iName e \<and> x = f e' \<Longrightarrow>
    column_told E e f x"
  by (simp add: column_told_def split: option.split)

text \<open>The row of an interface: what the newest push says, and else what a push says.\<close>

lemma newest_if_row:
  assumes "set es = if_entry_wire ` E" and "newest_if E e"
  obtains r where "get if_key (fold if_put es empty_table) (iNodeID e, iName e) = Some r"
    "riShutdown r = iShutdown e" "riAt r = iTimestamp e"
    "column_told E e iDescription (riDescription r)" "column_told E e iIPAddress (riIp r)"
    "column_told E e iPrefixLen (riPrefixLen r)"
    "column_told E e (\<lambda>i. if iVRF i = [] then None else Some (iVRF i)) (riVrf r)"
    "column_told E e (\<lambda>i. if iMTU i = 0 then None else Some (uint (iMTU i))) (riMtu r)"
    "access_told E e (riAccessVlan r)" "column_told E e (\<lambda>i. map_option uint (iVoiceVlan i)) (riVoiceVlan r)"
proof -
  let ?t = "fold if_put es empty_table"
  let ?P = "\<lambda>r. riShutdown r = iShutdown e \<and> (\<forall>x. iDescription e = Some x \<longrightarrow> riDescription r = Some x) \<and>
    (\<forall>x. iIPAddress e = Some x \<longrightarrow> riIp r = Some x) \<and> (\<forall>x. iPrefixLen e = Some x \<longrightarrow> riPrefixLen r = Some x) \<and>
    (iVRF e \<noteq> [] \<longrightarrow> riVrf r = Some (iVRF e)) \<and> (iMTU e \<noteq> 0 \<longrightarrow> riMtu r = Some (uint (iMTU e))) \<and>
    (\<forall>w. iAccessVlan e = Some w \<longrightarrow> riAccessVlan r = uint w) \<and>
    (\<forall>w. iVoiceVlan e = Some w \<longrightarrow> riVoiceVlan r = Some (uint w))"
  have "?P (if_merge (if_entry_wire e) old)"
    if "\<forall>r. old = Some r \<longrightarrow> riAt r \<le> jTimestamp (if_entry_wire e)" for old
    using that by (cases old) (simp_all add: if_merge_def if_columns if_entry_wire_def)
  moreover have "if_entry_wire e \<in> set es" and "if_entry_key (if_entry_wire e) = (iNodeID e, iName e)"
    and "\<forall>b \<in> set es. if_entry_key b = (iNodeID e, iName e) \<longrightarrow>
      b = if_entry_wire e \<or> jTimestamp b < jTimestamp (if_entry_wire e)"
    using assms by (auto simp: newest_if_def if_entry_wire_def)
  ultimately obtain r where r: "get if_key ?t (iNodeID e, iName e) = Some r" "?P r" "riAt r = jTimestamp (if_entry_wire e)"
    using ifs.newest_wins [where P = ?P and a = "if_entry_wire e" and as = es and t = empty_table] by auto
  have "ifs.backed (if_entry_wire ` E) ?t" using put_all_backed(1) [of es] by (simp add: assms(1))
  with r(1) have "ifs.built (if_entry_wire ` E) (iNodeID e, iName e) r" by (simp add: ifs.backed_def)
  note built = if_columns_told [OF this]
  have "column_told E e iDescription (riDescription r)"
    by (rule column_toldI [OF _ built(1)]) (use r(2) in \<open>simp split: if_splits\<close>)
  moreover have "column_told E e iIPAddress (riIp r)"
    by (rule column_toldI [OF _ built(2)]) (use r(2) in \<open>simp split: if_splits\<close>)
  moreover have "column_told E e iPrefixLen (riPrefixLen r)"
    by (rule column_toldI [OF _ built(3)]) (use r(2) in \<open>simp split: if_splits\<close>)
  moreover have "column_told E e (\<lambda>i. if iVRF i = [] then None else Some (iVRF i)) (riVrf r)"
    by (rule column_toldI [OF _ built(4)]) (use r(2) in \<open>simp split: if_splits\<close>)
  moreover have "column_told E e (\<lambda>i. if iMTU i = 0 then None else Some (uint (iMTU i))) (riMtu r)"
    by (rule column_toldI [OF _ built(5)]) (use r(2) in \<open>simp split: if_splits\<close>)
  moreover have "access_told E e (riAccessVlan r)"
    using r(2) built(6) by (simp add: access_told_def split: option.split)
  moreover have "column_told E e (\<lambda>i. map_option uint (iVoiceVlan i)) (riVoiceVlan r)"
    by (rule column_toldI [OF _ built(7)]) (use r(2) in \<open>auto\<close>)
  ultimately show thesis using r by (intro that [of r]) (simp_all add: if_entry_wire_def)
qed

lemma stored_name_told:
  assumes "vlanT d = fold vlan_put vs empty_table" and "set vs = V"
  shows "name_told V node n (vlan_name d node n)"
proof -
  have "\<exists>v \<in> V. vNodeID v = node \<and> n = Some (uint (vVlanID v)) \<and> vName v = Some nm" if "vlan_name d node n = Some nm" for nm
  proof -
    from that obtain m r where m: "n = Some m" "get vlan_key (vlanT d) (node, m) = Some r" "rvName r = Some nm"
      by (auto simp: vlan_name_def bind_eq_Some_conv split: option.splits)
    with put_all_backed(2) [of vs] have "vlans.built V (node, m) r" by (simp add: vlans.backed_def assms)
    from vlan_name_of_push [OF this] m(1,3) show ?thesis by auto
  qed
  moreover have "vlan_name d node n = Some nm"
    if "newest_vlan V v" "vNodeID v = node" "n = Some (uint (vVlanID v))" "vName v = Some nm" for v nm
    using newest_vlan_stored [of vs v nm empty_table] that assms by (auto simp: vlan_name_def)
  ultimately show ?thesis unfolding name_told_def by blast
qed

text \<open>From any number of devices to the port page, through the whole consumer, under the same
  conditions: the page of a port tells of every column what the strictly newest push of the interface
  says of it, and names both VLANs as they were pushed.\<close>

theorem port_page_tells_newest:
  assumes "server_reachable decode fails s" and "\<forall>k. \<not> fails k" and "all_idle s"
    and "keeps_only (to_tell decode s) kafka" and "keeps_all (set (sent (svProducer s))) kafka"
    and "\<forall>n. \<not> db_fails n" and "(consumer_step db_fails c kafka)\<^sup>*\<^sup>* (consumer_start empty_db) k" and "rows_read kafka k"
    and "\<forall>e \<in> heard_vlans decode s. c \<le> vTimestamp e" and "\<forall>e \<in> heard_ifs decode s. c \<le> iTimestamp e"
    and "newest_if (heard_ifs decode s) e"
    and "query ''node_id'' = iNodeID e" and "query ''port'' = iName e" and "iNodeID e \<noteq> []" and "iName e \<noteq> []"
  shows "\<exists>res. PortHandler False (coDb k) ''GET'' query = Reply 200 res \<and>
    port_told (heard_ifs decode s) (heard_vlans decode s) e res"
proof -
  from row_tables(1) [OF assms(1-9)] obtain vs where
    vs: "vlanT (coDb k) = fold vlan_put vs empty_table" "set vs = heard_vlans decode s" by blast
  from row_tables(2) [OF assms(1-8,10)] obtain es where
    es: "ifT (coDb k) = fold if_put es empty_table" "set es = if_entry_wire ` heard_ifs decode s" by blast
  from newest_if_row [OF es(2) assms(11), folded es(1)] obtain r where
    r: "get if_key (ifT (coDb k)) (iNodeID e, iName e) = Some r"
    and told: "riShutdown r = iShutdown e" "riAt r = iTimestamp e"
      "column_told (heard_ifs decode s) e iDescription (riDescription r)"
      "column_told (heard_ifs decode s) e iIPAddress (riIp r)" "column_told (heard_ifs decode s) e iPrefixLen (riPrefixLen r)"
      "column_told (heard_ifs decode s) e (\<lambda>i. if iVRF i = [] then None else Some (iVRF i)) (riVrf r)"
      "column_told (heard_ifs decode s) e (\<lambda>i. if iMTU i = 0 then None else Some (uint (iMTU i))) (riMtu r)"
      "access_told (heard_ifs decode s) e (riAccessVlan r)"
      "column_told (heard_ifs decode s) e (\<lambda>i. map_option uint (iVoiceVlan i)) (riVoiceVlan r)" by blast
  from get_key [OF r] have "riNode r = iNodeID e" "riName r = iName e" by simp_all
  with told stored_name_told [OF vs] have "port_told (heard_ifs decode s) (heard_vlans decode s) e (port_of_row (coDb k) r)"
    by (simp add: port_told_def port_of_row_def)
  with r assms(12-15) show ?thesis by (simp add: PortHandler_def portSQL_def Let_def)
qed

text \<open>No MAC address gets lost on its way to the search, through the whole consumer: when the
  collector has handled what it received and the group has committed all of the MAC topic, whatever
  statements failed and however claims, commits, crashes, rebalances and retention interleaved, a
  search for any address a device reported, in any spelling that normalises to it, finds it. Nothing
  reported is older than the retention has reached, and no claim lost its place before its first
  commit.\<close>

theorem search_finds_every_mac:
  assumes "server_reachable decode fails s" and "\<forall>k. \<not> fails k" and "all_idle s"
    and "keeps_only (to_tell decode s) kafka" and "keeps_all (set (sent (svProducer s))) kafka"
    and "(consumer_step db_fails c kafka)\<^sup>*\<^sup>* (consumer_start empty_db) k" and "macs_committed kafka k"
    and "\<forall>e \<in> heard_macs decode s. c \<le> mTimestamp e" and "e \<in> heard_macs decode s"
    and "Option.bind body (unmarshal_struct store_terms []) = Some terms" and "term \<in> set terms"
    and "MacRe (TrimSpace term)" and "to_lower (mMacAddress e) \<in> set (normalizeMac (TrimSpace term))"
    and "\<And>rs. mset (arrange rs) = mset rs"
  shows "\<exists>rsp. SearchHandler lookup_host arrange False (coDb k) ''POST'' body = Reply 200 rsp \<and>
    (\<exists>r \<in> set (spResults rsp). srMac r = mMacAddress e) \<and> TrimSpace term \<notin> set (spNotFound rsp)"
proof -
  have run: "(mac_group_step db_fails c (kafka ''mac-table''))\<^sup>*\<^sup>* (group_start empty_db) (macs_of k)"
    using groups_project(1) [OF assms(6)] by simp
  have "\<forall>i. kafka ''mac-table'' i \<noteq> [] \<longrightarrow>
      grCommitted (macs_of k) i = Some (length (kafka ''mac-table'' i)) \<and> grFrom (macs_of k) i = 0"
    using assms(7) by (simp add: macs_committed_def macs_of_def)
  from heard_macs_are_found [OF assms(1-3) kept_partitions [OF assms(1-5)] db_ok_empty run this assms(8-14)]
  show ?thesis by simp
qed

subsection \<open>Witnesses\<close>

text \<open>A topic of one partition each, filled with the messages of a list.\<close>

definition kafka_of :: "cmsg list \<Rightarrow> kafka" where
  "kafka_of ms t i = (if i = 0 then filter (\<lambda>m. cmTopic m = t) ms else [])"

lemma read_one:
  assumes "t \<in> row_topics" and "kafka t 0 = [m]" and "rcNext (coRows k t 0) = 0" and "rcFrom (coRows k t 0) = 0"
  shows "\<exists>k'. consumer_step db_fails c kafka k k' \<and> rcNext (coRows k' t 0) = 1 \<and> rcFrom (coRows k' t 0) = 0 \<and>
    (\<forall>t'. t' \<noteq> t \<longrightarrow> coRows k' t' = coRows k t') \<and> coMacs k' = coMacs k"
proof -
  obtain mk d where "consume_rows db_fails [kafka t 0 ! rcNext (coRows k t 0)] (rcMarks (coRows k t 0), coDb k) = (mk, d)"
    by fastforce
  from consumer_step.row [where kafka = kafka and t = t and i = 0 and s = k, OF assms(1) refl _ this, of c] assms(2,3)
  have "consumer_step db_fails c kafka k
      ((put_row t 0 ((coRows k t 0)\<lparr>rcNext := rcNext (coRows k t 0) + 1, rcMarks := mk\<rparr>) k)\<lparr>coDb := d\<rparr>)" by simp
  with assms(3,4) show ?thesis
    by (intro exI [of _ "(put_row t 0 ((coRows k t 0)\<lparr>rcNext := rcNext (coRows k t 0) + 1, rcMarks := mk\<rparr>) k)\<lparr>coDb := d\<rparr>"])
      (simp add: put_row_def)
qed

lemma start_rows [simp]: "rcNext (coRows (consumer_start d) t i) = 0" "rcFrom (coRows (consumer_start d) t i) = 0"
  by (simp_all add: consumer_start_def)

text \<open>The VLANs and the MAC address of the two streams of \<open>demo_server\<close>, read to the end.\<close>

definition demo_kafka :: kafka where
  "demo_kafka = kafka_of [demo_mac_msg\<lparr>cmOffset := 0\<rparr>, (hd demo_vlan_claim)\<lparr>cmOffset := 0\<rparr>]"

lemma demo_kafka_topics:
  "demo_kafka ''mac-table'' = (\<lambda>i. if i = 0 then [demo_mac_msg\<lparr>cmOffset := 0\<rparr>] else [])"
  "demo_kafka ''vlan-table'' = (\<lambda>i. if i = 0 then [(hd demo_vlan_claim)\<lparr>cmOffset := 0\<rparr>] else [])"
  "demo_kafka ''interface-table'' = (\<lambda>i. [])"
  by (simp_all add: fun_eq_iff demo_kafka_def kafka_of_def demo_mac_msg_def demo_vlan_claim_def)

lemma demo_kafka_keeps:
  "keeps_only (to_tell demo_decode demo_server) demo_kafka" "keeps_all (set (sent (svProducer demo_server))) demo_kafka"
proof -
  have "keeps_only (set (sent (svProducer demo_server))) demo_kafka"
    by (auto simp: keeps_only_def demo_server_sent(2) demo_kafka_def kafka_of_def demo_mac_msg_def demo_vlan_claim_def
        demo_to_send vlan_msg_def split: if_splits)
  then show "keeps_only (to_tell demo_decode demo_server) demo_kafka"
    by (rule keeps_only_more [OF _ published_subset [OF demo_server_reachable]])
  have "kTopic (hd (to_send demo_macs)) = ''mac-table''" "kTopic (hd (to_send demo_vlans)) = ''vlan-table''"
    by (simp_all add: demo_to_send vlan_msg_def)
  then show "keeps_all (set (sent (svProducer demo_server))) demo_kafka"
    unfolding keeps_all_def demo_server_sent(2)
    by (auto simp: demo_kafka_topics demo_mac_msg_def demo_vlan_claim_def demo_to_send vlan_msg_def intro!: exI [of _ 0])
qed

lemma demo_consumer:
  "\<exists>k. (consumer_step (\<lambda>_. False) 0 demo_kafka)\<^sup>*\<^sup>* (consumer_start empty_db) k \<and> rows_read demo_kafka k \<and>
     macs_committed demo_kafka k"
proof -
  let ?step = "consumer_step (\<lambda>_. False) 0 demo_kafka"
  have "Option.bind (cmValue (demo_mac_msg\<lparr>cmOffset := 0\<rparr>)) (unmarshal_slice unmarshal_mac) = Some [hd (mac_entries demo_macs)]"
    using demo_mac_entries unmarshal_macs_json [of "mac_entries demo_macs"] by (simp add: demo_mac_msg_def)
  from single_mac_steps [OF demo_kafka_topics(1) _ this, of "\<lambda>_ _. False"] obtain g where
    g: "(group_step (\<lambda>_. False) (unmarshal_slice unmarshal_mac) mac_entry_key mTimestamp macBatchSize mac_upsert
        (\<lambda>_ _. False) (demo_kafka ''mac-table''))\<^sup>*\<^sup>* (group_start empty_db) g"
      "grCommitted g 0 = Some 1" "grFrom g 0 = 0" by auto
  from lift_macs [of "\<lambda>_. False" demo_kafka "consumer_start empty_db" g 0] g(1) obtain k1 where
    k1: "?step\<^sup>*\<^sup>* (consumer_start empty_db) k1" "macs_of k1 = g" "coRows k1 = coRows (consumer_start empty_db)" by auto
  have claim: "rcNext (coRows k1 ''vlan-table'' 0) = 0" "rcFrom (coRows k1 ''vlan-table'' 0) = 0" by (simp_all add: k1(3))
  have "''vlan-table'' \<in> row_topics" "demo_kafka ''vlan-table'' 0 = [(hd demo_vlan_claim)\<lparr>cmOffset := 0\<rparr>]"
    by (simp_all add: row_topics_def demo_kafka_topics)
  from read_one [where k = k1 and kafka = demo_kafka and t = "''vlan-table''", OF this claim, of "\<lambda>_. False" 0] obtain k where
    k: "?step k1 k" "rcNext (coRows k ''vlan-table'' 0) = 1" "rcFrom (coRows k ''vlan-table'' 0) = 0" "coMacs k = coMacs k1"
    by blast
  have "grCommitted (coMacs k) = grCommitted g" "grFrom (coMacs k) = grFrom g"
    using k(4) k1(2) by (auto simp: macs_of_def)
  with g(2,3) k(2,3) have "rows_read demo_kafka k" "macs_committed demo_kafka k"
    by (auto simp: rows_read_def macs_committed_def demo_kafka_topics row_topics_def)
  with k1(1) k(1) show ?thesis by (meson rtranclp.rtrancl_into_rtrancl)
qed

lemma demo_idle: "all_idle demo_server"
  unfolding demo_server_def by (rule two_streams_idle)

lemma demo_no_arps: "heard_arps demo_decode demo_server = {}"
proof -
  have "\<not> isARP (EncodingPath demo_macs)" "\<not> isARP (EncodingPath demo_vlans)" by code_simp+
  then show ?thesis by (auto simp: heard_arps_def demo_heard)
qed

theorem vlan_page_tells_all_witness:
  "\<exists>k vs. (consumer_step (\<lambda>_. False) 0 demo_kafka)\<^sup>*\<^sup>* (consumer_start empty_db) k \<and>
     VlansHandler False (coDb k) ''GET'' (\<lambda>_. ''sw1'') = Reply 200 vs \<and> vrVlanID ` set vs = {10} \<and>
     \<lparr>vrVlanID = 10, vrName = Some ''users''\<rparr> \<in> set vs"
proof -
  obtain k where k: "(consumer_step (\<lambda>_. False) 0 demo_kafka)\<^sup>*\<^sup>* (consumer_start empty_db) k" "rows_read demo_kafka k"
    using demo_consumer by blast
  from vlan_page_tells_all [OF demo_server_reachable never demo_idle demo_kafka_keeps never k, of "\<lambda>_. ''sw1''" "''sw1''"] k(1)
  show ?thesis by (auto simp: demo_heard_entries(1) newest_vlan_def)
qed

theorem search_finds_every_mac_witness:
  "\<exists>k rsp. (consumer_step (\<lambda>_. False) 0 demo_kafka)\<^sup>*\<^sup>* (consumer_start empty_db) k \<and>
    SearchHandler (\<lambda>_. None) id False (coDb k) ''POST''
      (Some (JObj [(''terms'', JArr [JStr ''0011.2233.4455''])])) = Reply 200 rsp \<and>
    (\<exists>r \<in> set (spResults rsp). srMac r = ''0011.2233.4455'')"
proof -
  obtain k where k: "(consumer_step (\<lambda>_. False) 0 demo_kafka)\<^sup>*\<^sup>* (consumer_start empty_db) k" "macs_committed demo_kafka k"
    using demo_consumer by blast
  from search_finds_every_mac [OF demo_server_reachable never demo_idle demo_kafka_keeps k _ _ demo_term(1),
      of "hd (mac_entries demo_macs)" "''0011.2233.4455''" id "\<lambda>_. None"] demo_term(2-4) k(1)
  show ?thesis by (auto simp: demo_heard_entries(2) demo_mac_entries)
qed

theorem search_tells_what_was_heard_witness:
  "\<exists>k rsp. (consumer_step (\<lambda>_. False) 0 demo_kafka)\<^sup>*\<^sup>* (consumer_start empty_db) k \<and>
    SearchHandler (\<lambda>_. None) id False (coDb k) ''POST''
      (Some (JObj [(''terms'', JArr [JStr ''0011.2233.4455''])])) = Reply 200 rsp \<and>
    spResults rsp \<noteq> [] \<and> (\<forall>r \<in> set (spResults rsp). srNode r = ''sw1'' \<and> srInterface r = Some ''GigabitEthernet1/0/1'' \<and>
       srIp r = None)"
proof -
  let ?body = "Some (JObj [(''terms'', JArr [JStr ''0011.2233.4455''])])"
  obtain k where k: "(consumer_step (\<lambda>_. False) 0 demo_kafka)\<^sup>*\<^sup>* (consumer_start empty_db) k" "macs_committed demo_kafka k"
    using demo_consumer by blast
  have run: "(mac_group_step (\<lambda>_. False) 0 (demo_kafka ''mac-table''))\<^sup>*\<^sup>* (group_start empty_db) (macs_of k)"
    using groups_project(1) [OF k(1)] by simp
  have "\<forall>i. demo_kafka ''mac-table'' i \<noteq> [] \<longrightarrow>
      grCommitted (macs_of k) i = Some (length (demo_kafka ''mac-table'' i)) \<and> grFrom (macs_of k) i = 0"
    using k(2) by (simp add: macs_committed_def macs_of_def)
  from heard_macs_are_found [OF demo_server_reachable never demo_idle kept_partitions [OF demo_server_reachable never demo_idle demo_kafka_keeps] db_ok_empty
      run this _ _ demo_term(1), of "hd (mac_entries demo_macs)" "''0011.2233.4455''" id "\<lambda>_. None"] demo_term(2-4)
  obtain rsp r where rsp: "SearchHandler (\<lambda>_. None) id False (coDb k) ''POST'' ?body = Reply 200 rsp" "r \<in> set (spResults rsp)"
    by (auto simp: demo_heard_entries(2) demo_mac_entries)
  from rsp(2) have some: "spResults rsp \<noteq> []" by auto
  from search_tells_what_was_heard [OF demo_kafka_keeps(1) k(1) rsp(1)]
  have "srNode r = ''sw1'' \<and> srInterface r = Some ''GigabitEthernet1/0/1'' \<and> srIp r = None" if "r \<in> set (spResults rsp)" for r
    using that by (cases "srIp r") (simp_all add: result_heard_def demo_no_arps demo_heard_entries(2) demo_mac_entries)
  with k(1) rsp(1) some show ?thesis by blast
qed

text \<open>The switch of \<open>access_decode\<close>, its VLANs and its port read to the end.\<close>

definition access_kafka :: kafka where
  "access_kafka = kafka_of [(hd demo_vlan_claim)\<lparr>cmOffset := 0\<rparr>, (hd demo_access_claim)\<lparr>cmOffset := 0\<rparr>]"

abbreviation access_server :: server where
  "access_server \<equiv> two_streams (hd (to_send demo_vlans)) (if_msg demo_port)"

lemma access_reachable: "server_reachable access_decode (\<lambda>_. False) access_server"
  by (rule two_streams_reachable [of _ demo_vlans _ demo_access])
    (simp_all add: access_decode_def demo_to_send access_to_send)

lemma access_kafka_topics:
  "access_kafka ''interface-table'' = (\<lambda>i. if i = 0 then [(hd demo_access_claim)\<lparr>cmOffset := 0\<rparr>] else [])"
  "access_kafka ''vlan-table'' = (\<lambda>i. if i = 0 then [(hd demo_vlan_claim)\<lparr>cmOffset := 0\<rparr>] else [])"
  by (simp_all add: fun_eq_iff access_kafka_def kafka_of_def demo_access_claim_def demo_vlan_claim_def)

lemma access_kafka_keeps:
  "keeps_only (to_tell access_decode access_server) access_kafka" "keeps_all (set (sent (svProducer access_server))) access_kafka"
proof -
  have sent: "set (sent (svProducer access_server)) = {if_msg demo_port, hd (to_send demo_vlans)}"
    by (simp add: two_streams_def)
  have "keeps_only (set (sent (svProducer access_server))) access_kafka" unfolding sent
    by (auto simp: keeps_only_def access_kafka_def kafka_of_def demo_access_claim_def demo_vlan_claim_def
        demo_to_send vlan_msg_def if_msg_def split: if_splits)
  then show "keeps_only (to_tell access_decode access_server) access_kafka"
    by (rule keeps_only_more [OF _ published_subset [OF access_reachable]])
  have "kTopic (if_msg demo_port) = ''interface-table''" "kTopic (hd (to_send demo_vlans)) = ''vlan-table''"
    by (simp_all add: demo_to_send vlan_msg_def if_msg_def)
  then show "keeps_all (set (sent (svProducer access_server))) access_kafka"
    unfolding keeps_all_def sent
    by (auto simp: access_kafka_topics demo_access_claim_def demo_vlan_claim_def demo_to_send vlan_msg_def if_msg_def
        intro!: exI [of _ 0])
qed

lemma access_consumer:
  "\<exists>k. (consumer_step (\<lambda>_. False) 0 access_kafka)\<^sup>*\<^sup>* (consumer_start empty_db) k \<and> rows_read access_kafka k"
proof -
  let ?step = "consumer_step (\<lambda>_. False) 0 access_kafka"
  have vlans: "''vlan-table'' \<in> row_topics" "access_kafka ''vlan-table'' 0 = [(hd demo_vlan_claim)\<lparr>cmOffset := 0\<rparr>]"
    and ports: "''interface-table'' \<in> row_topics" "access_kafka ''interface-table'' 0 = [(hd demo_access_claim)\<lparr>cmOffset := 0\<rparr>]"
    by (simp_all add: row_topics_def access_kafka_topics)
  from read_one [where kafka = access_kafka and k = "consumer_start empty_db" and t = "''vlan-table''",
      OF vlans start_rows, of "\<lambda>_. False" 0]
  obtain k1 where k1: "?step (consumer_start empty_db) k1" "rcNext (coRows k1 ''vlan-table'' 0) = 1"
    "rcFrom (coRows k1 ''vlan-table'' 0) = 0" "\<forall>t. t \<noteq> ''vlan-table'' \<longrightarrow> coRows k1 t = coRows (consumer_start empty_db) t"
    by blast
  have claim: "rcNext (coRows k1 ''interface-table'' 0) = 0" "rcFrom (coRows k1 ''interface-table'' 0) = 0"
    by (simp_all add: k1(4))
  from read_one [where kafka = access_kafka and k = k1 and t = "''interface-table''", OF ports claim, of "\<lambda>_. False" 0]
  obtain k where k: "?step k1 k" "rcNext (coRows k ''interface-table'' 0) = 1" "rcFrom (coRows k ''interface-table'' 0) = 0"
    "\<forall>t. t \<noteq> ''interface-table'' \<longrightarrow> coRows k t = coRows k1 t"
    by blast
  have "coRows k ''vlan-table'' = coRows k1 ''vlan-table''" by (simp add: k(4))
  with k(2,3) k1(2,3) have "rows_read access_kafka k" by (auto simp: rows_read_def access_kafka_topics row_topics_def)
  with k1(1) k(1) show ?thesis by (meson r_into_rtranclp rtranclp.rtrancl_into_rtrancl)
qed

lemma port_told_demo:
  assumes "port_told {demo_port} {demo_vlan_entry} demo_port res"
  shows "prDescription res = Some ''lab'' \<and> prAccessVlan res = 10 \<and> prAccessName res = Some ''users'' \<and>
    prVoiceVlan res = None"
proof -
  have e: "iNodeID demo_port = ''sw1''" "iDescription demo_port = Some ''lab''" "iAccessVlan demo_port = Some 10"
    "iVoiceVlan demo_port = None" by (simp_all add: demo_port_def)
  from assms have "column_told {demo_port} demo_port iDescription (prDescription res)"
    and "access_told {demo_port} demo_port (prAccessVlan res)"
    and "column_told {demo_port} demo_port (\<lambda>i. map_option uint (iVoiceVlan i)) (prVoiceVlan res)"
    and name: "name_told {demo_vlan_entry} (iNodeID demo_port) (Some (prAccessVlan res)) (prAccessName res)"
    unfolding port_told_def by blast+
  then have columns: "prDescription res = Some ''lab''" "prAccessVlan res = 10" "prVoiceVlan res = None"
    by (simp_all add: column_told_def access_told_def e)
  have "newest_vlan {demo_vlan_entry} demo_vlan_entry" by (simp add: newest_vlan_def)
  moreover have "vNodeID demo_vlan_entry = ''sw1''" "uint (vVlanID demo_vlan_entry) = 10" "vName demo_vlan_entry = Some ''users''"
    by (simp_all add: demo_vlan_entry_def)
  ultimately have "prAccessName res = Some ''users''" using name columns(2) unfolding name_told_def e by metis
  with columns show ?thesis by simp
qed

theorem port_page_tells_newest_witness:
  "\<exists>k res. (consumer_step (\<lambda>_. False) 0 access_kafka)\<^sup>*\<^sup>* (consumer_start empty_db) k \<and>
    PortHandler False (coDb k) ''GET''
      (\<lambda>q. if q = ''node_id'' then ''sw1'' else ''GigabitEthernet1/0/4'') = Reply 200 res \<and>
    prDescription res = Some ''lab'' \<and> prAccessVlan res = 10 \<and> prAccessName res = Some ''users''"
proof -
  let ?q = "\<lambda>q. if q = ''node_id'' then ''sw1'' else ''GigabitEthernet1/0/4''"
  obtain k where k: "(consumer_step (\<lambda>_. False) 0 access_kafka)\<^sup>*\<^sup>* (consumer_start empty_db) k" "rows_read access_kafka k"
    using access_consumer by blast
  have "newest_if (heard_ifs access_decode access_server) demo_port"
    "?q ''node_id'' = iNodeID demo_port" "?q ''port'' = iName demo_port" "iNodeID demo_port \<noteq> []" "iName demo_port \<noteq> []"
    by (simp add: access_heard newest_if_def) (simp_all add: demo_port_def)
  moreover have "\<forall>v \<in> heard_vlans access_decode access_server. 0 \<le> vTimestamp v"
    "\<forall>i \<in> heard_ifs access_decode access_server. 0 \<le> iTimestamp i"
    unfolding access_heard by (simp_all add: demo_vlan_entry_def demo_port_def)
  ultimately obtain res where res: "PortHandler False (coDb k) ''GET'' ?q = Reply 200 res"
    and told: "port_told (heard_ifs access_decode access_server) (heard_vlans access_decode access_server) demo_port res"
    using port_page_tells_newest [where query = ?q, OF access_reachable never two_streams_idle access_kafka_keeps never k] by blast
  from port_told_demo [OF told [unfolded access_heard]] res k(1) show ?thesis by blast
qed

end
