(* ===== verification/OpenApi.thy ===== *)
theory OpenApi imports Modules "HOL-Library.AList" begin

text \<open>
  The OpenAPI document of the web application: the fragments the modules contribute
  (\<open>OpenAPIFragment\<close> in each \<open>module.go\<close>) and \<open>buildOpenAPISpec\<close> of \<open>spec.go\<close>, which merges them. The
  document is a JSON value; the order of members, which Go sorts when it writes them, is not kept. A
  Go map is an association list without repeated keys.
\<close>

subsection \<open>Fragments\<close>

record fragment =
  fgPaths :: "(string \<times> json) list"
  fgSchemas :: "(string \<times> json) list"

definition no_fragment :: fragment where
  "no_fragment = \<lparr>fgPaths = [], fgSchemas = []\<rparr>"

definition search_paths :: "(string \<times> json) list" where
  "search_paths =
   [(''/api/search'',
      JObj [
         (''post'',
           JObj [
              (''summary'', JStr ''Search by MAC or IP address''),
              (''description'', JStr (''Returns all matching rows from the telemetry database. Each term is classified as a '' @
                                        ''MAC address or IP address and looked up accordingly. A single request may mix MACs '' @
                                        ''and IPs.'' @
                                        bytes [10, 10] @
                                        ''**Accepted MAC formats** (all case-insensitive):'' @
                                        bytes [10] @
                                        ''- Colon-separated: `aa:bb:cc:dd:ee:ff`'' @
                                        bytes [10] @
                                        ''- Hyphen-separated: `aa-bb-cc-dd-ee-ff`'' @
                                        bytes [10] @
                                        ''- Cisco dot notation: `aabb.ccdd.eeff`'' @
                                        bytes [10] @
                                        ''- Bare hex: `aabbccddeeff`'')),
              (''operationId'', JStr ''search''),
              (''security'', JArr [JObj [(''bearerAuth'', JArr [])], JObj []]),
              (''requestBody'',
                JObj [
                   (''required'', JBool True),
                   (''content'',
                     JObj [
                        (''application/json'',
                          JObj [
                             (''schema'', JObj [(''$ref'', JStr ''#/components/schemas/SearchRequest'')]),
                             (''examples'',
                               JObj [
                                  (''single-mac'',
                                    JObj [
                                       (''summary'', JStr ''Single MAC address''),
                                       (''value'', JObj [(''terms'', JArr [JStr ''aa:bb:cc:dd:ee:ff''])])]),
                                  (''single-ip'',
                                    JObj [
                                       (''summary'', JStr ''Single IP address''),
                                       (''value'', JObj [(''terms'', JArr [JStr ''10.0.0.203''])])]),
                                  (''mixed'',
                                    JObj [
                                       (''summary'', JStr ''Mixed MACs and IPs''),
                                       (''value'',
                                         JObj [
                                            (''terms'',
                                              JArr [
                                                 JStr ''aa:bb:cc:dd:ee:ff'',
                                                 JStr ''10.0.0.203'',
                                                 JStr ''4cab4f8b9902''])])]),
                                  (''cisco-dot'',
                                    JObj [
                                       (''summary'', JStr ''Cisco dot-notation MAC''),
                                       (''value'', JObj [(''terms'', JArr [JStr ''aabb.ccdd.eeff''])])])])])])]),
              (''responses'',
                JObj [
                   (''200'',
                     JObj [
                        (''description'', JStr ''Matching telemetry records. Returns an empty array when no matches are found.''),
                        (''content'',
                          JObj [
                             (''application/json'',
                               JObj [
                                  (''schema'',
                                    JObj [
                                       (''type'', JStr ''array''),
                                       (''items'',
                                         JObj [(''$ref'', JStr ''#/components/schemas/TelemetryRecord'')])])])])]),
                   (''400'',
                     JObj [
                        (''description'', JStr ''Request body is not valid JSON.''),
                        (''content'',
                          JObj [(''text/plain'', JObj [(''schema'', JObj [(''type'', JStr ''string'')])])])]),
                   (''401'',
                     JObj [
                        (''description'', JStr ''Bearer token is invalid, expired, or revoked.''),
                        (''content'',
                          JObj [(''text/plain'', JObj [(''schema'', JObj [(''type'', JStr ''string'')])])])]),
                   (''500'',
                     JObj [
                        (''description'', JStr ''Database error.''),
                        (''content'',
                          JObj [(''text/plain'', JObj [(''schema'', JObj [(''type'', JStr ''string'')])])])])])])])]"

definition SearchRequest_schema :: json where
  "SearchRequest_schema =
    JObj [
       (''type'', JStr ''object''),
       (''required'', JArr [JStr ''terms'']),
       (''properties'',
         JObj [
            (''terms'',
              JObj [
                 (''type'', JStr ''array''),
                 (''minItems'', JNum 1),
                 (''items'', JObj [(''type'', JStr ''string'')]),
                 (''description'', JStr ''MAC addresses and/or IP addresses to look up.''),
                 (''example'', JArr [JStr ''aa:bb:cc:dd:ee:ff'', JStr ''10.0.0.203''])])])]"

definition TelemetryRecord_schema :: json where
  "TelemetryRecord_schema =
    JObj [
       (''type'', JStr ''object''),
       (''required'', JArr [JStr ''node_id'', JStr ''mac_address'']),
       (''properties'',
         JObj [
            (''node_id'',
              JObj [
                 (''type'', JStr ''string''),
                 (''description'', JStr ''Device hostname or ID reported by the telemetry stream.''),
                 (''example'', JStr ''switch1.example.com'')]),
            (''mac_address'',
              JObj [
                 (''type'', JStr ''string''),
                 (''description'', JStr ''MAC address as stored by the device.''),
                 (''example'', JStr ''aa:bb:cc:dd:ee:ff'')]),
            (''ip_address'',
              JObj [
                 (''type'', JStr ''string''),
                 (''nullable'', JBool True),
                 (''description'', JStr ''IP address from the ARP table.''),
                 (''example'', JStr ''10.0.0.203'')]),
            (''interface'',
              JObj [
                 (''type'', JStr ''string''),
                 (''nullable'', JBool True),
                 (''description'', JStr ''Full interface name.''),
                 (''example'', JStr ''GigabitEthernet1/0/4'')]),
            (''interface_description'',
              JObj [
                 (''type'', JStr ''string''),
                 (''nullable'', JBool True),
                 (''description'', JStr ''Configured interface description.''),
                 (''example'', JStr ''User access port'')]),
            (''access_vlan'',
              JObj [
                 (''type'', JStr ''integer''),
                 (''nullable'', JBool True),
                 (''description'', JStr ''Access (data) VLAN configured on the interface.''),
                 (''example'', JNum 100)]),
            (''access_vlan_name'',
              JObj [
                 (''type'', JStr ''string''),
                 (''nullable'', JBool True),
                 (''description'', JStr ''Name of the access (data) VLAN.''),
                 (''example'', JStr ''USERS'')]),
            (''voice_vlan'',
              JObj [
                 (''type'', JStr ''integer''),
                 (''nullable'', JBool True),
                 (''description'', JStr ''Voice VLAN configured on the interface.''),
                 (''example'', JNum 200)]),
            (''voice_vlan_name'',
              JObj [
                 (''type'', JStr ''string''),
                 (''nullable'', JBool True),
                 (''description'', JStr ''Name of the voice VLAN.''),
                 (''example'', JStr ''VOICE'')])])]"

definition search_schemas :: "(string \<times> json) list" where
  "search_schemas =
    [(''SearchRequest'', SearchRequest_schema),
     (''TelemetryRecord'', TelemetryRecord_schema)]"

definition search_OpenAPIFragment :: fragment where
  "search_OpenAPIFragment = \<lparr>fgPaths = search_paths, fgSchemas = search_schemas\<rparr>"

definition portinfo_paths :: "(string \<times> json) list" where
  "portinfo_paths =
   [(''/api/port'',
      JObj [
         (''get'',
           JObj [
              (''summary'', JStr ''Get port details by switch and port name''),
              (''description'', JStr (''Returns all stored information for a single interface: description, shutdown state, '' @
                                        ''IP address, VRF, MTU, access VLAN (with name), and voice VLAN (with name).'')),
              (''operationId'', JStr ''getPort''),
              (''security'', JArr [JObj [(''bearerAuth'', JArr [])], JObj []]),
              (''parameters'',
                JArr [
                   JObj [
                      (''name'', JStr ''node_id''),
                      (''in'', JStr ''query''),
                      (''required'', JBool True),
                      (''description'', JStr ''Switch hostname or node ID.''),
                      (''schema'', JObj [(''type'', JStr ''string'')]),
                      (''example'', JStr ''switch1.example.com'')],
                   JObj [
                      (''name'', JStr ''port''),
                      (''in'', JStr ''query''),
                      (''required'', JBool True),
                      (''description'', JStr ''Full interface name as stored by the device.''),
                      (''schema'', JObj [(''type'', JStr ''string'')]),
                      (''example'', JStr ''GigabitEthernet1/0/4'')]]),
              (''responses'',
                JObj [
                   (''200'',
                     JObj [
                        (''description'', JStr ''Port details.''),
                        (''content'',
                          JObj [
                             (''application/json'',
                               JObj [(''schema'', JObj [(''$ref'', JStr ''#/components/schemas/PortRecord'')])])])]),
                   (''400'',
                     JObj [
                        (''description'', JStr ''Missing node_id or port parameter.''),
                        (''content'',
                          JObj [(''text/plain'', JObj [(''schema'', JObj [(''type'', JStr ''string'')])])])]),
                   (''401'',
                     JObj [
                        (''description'', JStr ''Bearer token is invalid, expired, or revoked.''),
                        (''content'',
                          JObj [(''text/plain'', JObj [(''schema'', JObj [(''type'', JStr ''string'')])])])]),
                   (''404'',
                     JObj [
                        (''description'', JStr ''No matching interface found.''),
                        (''content'',
                          JObj [(''text/plain'', JObj [(''schema'', JObj [(''type'', JStr ''string'')])])])]),
                   (''500'',
                     JObj [
                        (''description'', JStr ''Database error.''),
                        (''content'',
                          JObj [(''text/plain'', JObj [(''schema'', JObj [(''type'', JStr ''string'')])])])])])])])]"

definition PortRecord_schema :: json where
  "PortRecord_schema =
    JObj [
       (''type'', JStr ''object''),
       (''required'',
         JArr [JStr ''node_id'', JStr ''name'', JStr ''shutdown'', JStr ''access_vlan'', JStr ''collected_at'']),
       (''properties'',
         JObj [
            (''node_id'',
              JObj [
                 (''type'', JStr ''string''),
                 (''description'', JStr ''Switch hostname or node ID.''),
                 (''example'', JStr ''switch1.example.com'')]),
            (''name'',
              JObj [
                 (''type'', JStr ''string''),
                 (''description'', JStr ''Full interface name.''),
                 (''example'', JStr ''GigabitEthernet1/0/4'')]),
            (''description'',
              JObj [
                 (''type'', JStr ''string''),
                 (''nullable'', JBool True),
                 (''description'', JStr ''Configured interface description.''),
                 (''example'', JStr ''User access port'')]),
            (''shutdown'',
              JObj [
                 (''type'', JStr ''boolean''),
                 (''description'', JStr ''True if the interface is administratively shut down.''),
                 (''example'', JBool False)]),
            (''ip_address'',
              JObj [
                 (''type'', JStr ''string''),
                 (''nullable'', JBool True),
                 (''description'', JStr ''IP address configured on the interface (routed ports).''),
                 (''example'', JStr ''10.0.0.1'')]),
            (''prefix_len'',
              JObj [
                 (''type'', JStr ''integer''),
                 (''nullable'', JBool True),
                 (''description'', JStr ''Prefix length of the interface IP address.''),
                 (''example'', JNum 24)]),
            (''vrf'',
              JObj [
                 (''type'', JStr ''string''),
                 (''nullable'', JBool True),
                 (''description'', JStr ''VRF the interface is assigned to.''),
                 (''example'', JStr ''MGMT'')]),
            (''mtu'',
              JObj [
                 (''type'', JStr ''integer''),
                 (''nullable'', JBool True),
                 (''description'', JStr ''Interface MTU.''),
                 (''example'', JNum 1500)]),
            (''access_vlan'',
              JObj [
                 (''type'', JStr ''integer''),
                 (''description'', JStr ''Access (data) VLAN configured on the interface.''),
                 (''example'', JNum 100)]),
            (''access_vlan_name'',
              JObj [
                 (''type'', JStr ''string''),
                 (''nullable'', JBool True),
                 (''description'', JStr ''Name of the access VLAN.''),
                 (''example'', JStr ''USERS'')]),
            (''voice_vlan'',
              JObj [
                 (''type'', JStr ''integer''),
                 (''nullable'', JBool True),
                 (''description'', JStr ''Voice VLAN configured on the interface.''),
                 (''example'', JNum 200)]),
            (''voice_vlan_name'',
              JObj [
                 (''type'', JStr ''string''),
                 (''nullable'', JBool True),
                 (''description'', JStr ''Name of the voice VLAN.''),
                 (''example'', JStr ''VOICE'')]),
            (''collected_at'',
              JObj [
                 (''type'', JStr ''string''),
                 (''format'', JStr ''date-time''),
                 (''description'', JStr ''Timestamp of the last telemetry collection for this interface.''),
                 (''example'', JStr ''2024-01-15T10:30:00Z'')])])]"

definition portinfo_schemas :: "(string \<times> json) list" where
  "portinfo_schemas =
    [(''PortRecord'', PortRecord_schema)]"

definition portinfo_OpenAPIFragment :: fragment where
  "portinfo_OpenAPIFragment = \<lparr>fgPaths = portinfo_paths, fgSchemas = portinfo_schemas\<rparr>"

definition portlookup_paths :: "(string \<times> json) list" where
  "portlookup_paths =
   [(''/api/portlookup'',
      JObj [
         (''post'',
           JObj [
              (''summary'', JStr ''Bulk port lookup by partial switch name and port descriptions''),
              (''description'', JStr (''Returns all ports on matching switches whose description contains any of the '' @
                                        ''provided strings. Both the switch name and each description are matched '' @
                                        ''case-insensitively as substrings. Designed for bulk lookups '' @
                                        bytes [226, 128, 148] @
                                        '' up to 1000 descriptions per request.'')),
              (''operationId'', JStr ''portLookup''),
              (''security'', JArr [JObj [(''bearerAuth'', JArr [])], JObj []]),
              (''requestBody'',
                JObj [
                   (''required'', JBool True),
                   (''content'',
                     JObj [
                        (''application/json'',
                          JObj [
                             (''schema'', JObj [(''$ref'', JStr ''#/components/schemas/PortLookupRequest'')]),
                             (''examples'',
                               JObj [
                                  (''bulk'',
                                    JObj [
                                       (''summary'', JStr ''Lookup by partial switch name and descriptions''),
                                       (''value'',
                                         JObj [
                                            (''switch'', JStr ''core-sw''),
                                            (''descriptions'',
                                              JArr [
                                                 JStr ''room 101'',
                                                 JStr ''lab printer'',
                                                 JStr ''conf room b''])])])])])])]),
              (''responses'',
                JObj [
                   (''200'',
                     JObj [
                        (''description'', JStr ''Matched ports. Returns an empty array when nothing matches.''),
                        (''content'',
                          JObj [
                             (''application/json'',
                               JObj [
                                  (''schema'',
                                    JObj [(''$ref'', JStr ''#/components/schemas/PortLookupResponse'')])])])]),
                   (''400'',
                     JObj [
                        (''description'', JStr ''Missing or invalid request body.''),
                        (''content'',
                          JObj [(''text/plain'', JObj [(''schema'', JObj [(''type'', JStr ''string'')])])])]),
                   (''401'',
                     JObj [
                        (''description'', JStr ''Bearer token is invalid, expired, or revoked.''),
                        (''content'',
                          JObj [(''text/plain'', JObj [(''schema'', JObj [(''type'', JStr ''string'')])])])]),
                   (''500'',
                     JObj [
                        (''description'', JStr ''Database error.''),
                        (''content'',
                          JObj [(''text/plain'', JObj [(''schema'', JObj [(''type'', JStr ''string'')])])])])])])])]"

definition PortLookupRequest_schema :: json where
  "PortLookupRequest_schema =
    JObj [
       (''type'', JStr ''object''),
       (''required'', JArr [JStr ''switch'', JStr ''descriptions'']),
       (''properties'',
         JObj [
            (''switch'',
              JObj [
                 (''type'', JStr ''string''),
                 (''description'', JStr ''Partial switch name to filter by (case-insensitive substring match).''),
                 (''example'', JStr ''core-sw'')]),
            (''descriptions'',
              JObj [
                 (''type'', JStr ''array''),
                 (''minItems'', JNum 1),
                 (''items'', JObj [(''type'', JStr ''string'')]),
                 (''description'', JStr ''Port descriptions to match (each is a case-insensitive substring match).''),
                 (''example'', JArr [JStr ''room 101'', JStr ''lab printer''])])])]"

definition PortLookupResponse_schema :: json where
  "PortLookupResponse_schema =
    JObj [
       (''type'', JStr ''object''),
       (''properties'',
         JObj [
            (''results'',
              JObj [
                 (''type'', JStr ''array''),
                 (''items'', JObj [(''$ref'', JStr ''#/components/schemas/PortLookupMatch'')])])])]"

definition PortLookupMatch_schema :: json where
  "PortLookupMatch_schema =
    JObj [
       (''type'', JStr ''object''),
       (''required'', JArr [JStr ''node_id'', JStr ''interface'']),
       (''properties'',
         JObj [
            (''node_id'',
              JObj [
                 (''type'', JStr ''string''),
                 (''description'', JStr ''Switch hostname.''),
                 (''example'', JStr ''core-sw-01.example.com'')]),
            (''interface'',
              JObj [
                 (''type'', JStr ''string''),
                 (''description'', JStr ''Full interface name.''),
                 (''example'', JStr ''GigabitEthernet1/0/4'')]),
            (''description'',
              JObj [
                 (''type'', JStr ''string''),
                 (''nullable'', JBool True),
                 (''description'', JStr ''Configured interface description.''),
                 (''example'', JStr ''room 101 - printer'')]),
            (''access_vlan'',
              JObj [
                 (''type'', JStr ''integer''),
                 (''nullable'', JBool True),
                 (''description'', JStr ''Access VLAN ID.''),
                 (''example'', JNum 100)]),
            (''access_vlan_name'',
              JObj [
                 (''type'', JStr ''string''),
                 (''nullable'', JBool True),
                 (''description'', JStr ''Access VLAN name.''),
                 (''example'', JStr ''USERS'')]),
            (''voice_vlan'',
              JObj [
                 (''type'', JStr ''integer''),
                 (''nullable'', JBool True),
                 (''description'', JStr ''Voice VLAN ID.''),
                 (''example'', JNum 200)]),
            (''voice_vlan_name'',
              JObj [
                 (''type'', JStr ''string''),
                 (''nullable'', JBool True),
                 (''description'', JStr ''Voice VLAN name.''),
                 (''example'', JStr ''VOICE'')])])]"

definition portlookup_schemas :: "(string \<times> json) list" where
  "portlookup_schemas =
    [(''PortLookupRequest'', PortLookupRequest_schema),
     (''PortLookupResponse'', PortLookupResponse_schema),
     (''PortLookupMatch'', PortLookupMatch_schema)]"

definition portlookup_OpenAPIFragment :: fragment where
  "portlookup_OpenAPIFragment = \<lparr>fgPaths = portlookup_paths, fgSchemas = portlookup_schemas\<rparr>"

definition vlans_paths :: "(string \<times> json) list" where
  "vlans_paths =
   [(''/api/vlans'',
      JObj [
         (''get'',
           JObj [
              (''summary'', JStr ''List VLANs on a switch''),
              (''description'', JStr ''Returns all VLANs known for a given switch node, ordered by VLAN ID.''),
              (''operationId'', JStr ''listVlans''),
              (''security'', JArr [JObj [(''bearerAuth'', JArr [])], JObj []]),
              (''parameters'',
                JArr [
                   JObj [
                      (''name'', JStr ''node_id''),
                      (''in'', JStr ''query''),
                      (''required'', JBool True),
                      (''description'', JStr ''Switch hostname or node ID.''),
                      (''schema'', JObj [(''type'', JStr ''string'')]),
                      (''example'', JStr ''switch1.example.com'')]]),
              (''responses'',
                JObj [
                   (''200'',
                     JObj [
                        (''description'', JStr ''VLAN list (empty array when the switch has no recorded VLANs).''),
                        (''content'',
                          JObj [
                             (''application/json'',
                               JObj [
                                  (''schema'', JObj [(''$ref'', JStr ''#/components/schemas/VlansResponse'')])])])]),
                   (''400'',
                     JObj [
                        (''description'', JStr ''Missing node_id parameter.''),
                        (''content'',
                          JObj [(''text/plain'', JObj [(''schema'', JObj [(''type'', JStr ''string'')])])])]),
                   (''401'',
                     JObj [
                        (''description'', JStr ''Bearer token is invalid, expired, or revoked.''),
                        (''content'',
                          JObj [(''text/plain'', JObj [(''schema'', JObj [(''type'', JStr ''string'')])])])]),
                   (''500'',
                     JObj [
                        (''description'', JStr ''Database error.''),
                        (''content'',
                          JObj [(''text/plain'', JObj [(''schema'', JObj [(''type'', JStr ''string'')])])])])])])])]"

definition VlansResponse_schema :: json where
  "VlansResponse_schema =
    JObj [
       (''type'', JStr ''object''),
       (''required'', JArr [JStr ''vlans'']),
       (''properties'',
         JObj [
            (''vlans'',
              JObj [
                 (''type'', JStr ''array''),
                 (''items'', JObj [(''$ref'', JStr ''#/components/schemas/VlanRecord'')])])])]"

definition VlanRecord_schema :: json where
  "VlanRecord_schema =
    JObj [
       (''type'', JStr ''object''),
       (''required'', JArr [JStr ''vlan_id'']),
       (''properties'',
         JObj [
            (''vlan_id'',
              JObj [
                 (''type'', JStr ''integer''),
                 (''description'', JStr ''VLAN number.''),
                 (''example'', JNum 100)]),
            (''name'',
              JObj [
                 (''type'', JStr ''string''),
                 (''nullable'', JBool True),
                 (''description'', JStr ''VLAN name as configured on the switch.''),
                 (''example'', JStr ''USERS'')])])]"

definition vlans_schemas :: "(string \<times> json) list" where
  "vlans_schemas =
    [(''VlansResponse'', VlansResponse_schema),
     (''VlanRecord'', VlanRecord_schema)]"

definition vlans_OpenAPIFragment :: fragment where
  "vlans_OpenAPIFragment = \<lparr>fgPaths = vlans_paths, fgSchemas = vlans_schemas\<rparr>"

definition rdns_paths :: "(string \<times> json) list" where
  "rdns_paths =
   [(''/api/rdns'',
      JObj [
         (''get'',
           JObj [
              (''summary'', JStr ''Reverse DNS lookup for an IP address''),
              (''description'', JStr (''Resolves an IPv4 address to a hostname via a reverse DNS (PTR) lookup. Returns the '' @
                                        ''first hostname found with the trailing dot removed. The lookup times out after 3 '' @
                                        ''seconds; on timeout or failure the response is still `200` with `hostname` set to '' @
                                        ''`null`.'')),
              (''operationId'', JStr ''rdns''),
              (''security'', JArr [JObj [(''bearerAuth'', JArr [])], JObj []]),
              (''parameters'',
                JArr [
                   JObj [
                      (''name'', JStr ''ip''),
                      (''in'', JStr ''query''),
                      (''required'', JBool True),
                      (''schema'', JObj [(''type'', JStr ''string''), (''format'', JStr ''ipv4'')]),
                      (''description'', JStr ''IPv4 address in dotted-quad notation.''),
                      (''example'', JStr ''10.0.0.203'')]]),
              (''responses'',
                JObj [
                   (''200'',
                     JObj [
                        (''description'', JStr (''Lookup completed. `hostname` is null when the address has no PTR record or the '' @
                                                  ''lookup failed.'')),
                        (''content'',
                          JObj [
                             (''application/json'',
                               JObj [
                                  (''schema'', JObj [(''$ref'', JStr ''#/components/schemas/RDNSResponse'')])])])]),
                   (''400'',
                     JObj [
                        (''description'', JStr ''The `ip` parameter is missing or not a valid IPv4 address.''),
                        (''content'',
                          JObj [(''text/plain'', JObj [(''schema'', JObj [(''type'', JStr ''string'')])])])]),
                   (''401'',
                     JObj [
                        (''description'', JStr ''Bearer token is invalid, expired, or revoked.''),
                        (''content'',
                          JObj [(''text/plain'', JObj [(''schema'', JObj [(''type'', JStr ''string'')])])])])])])])]"

definition RDNSResponse_schema :: json where
  "RDNSResponse_schema =
    JObj [
       (''type'', JStr ''object''),
       (''required'', JArr [JStr ''hostname'']),
       (''properties'',
         JObj [
            (''hostname'',
              JObj [
                 (''type'', JStr ''string''),
                 (''nullable'', JBool True),
                 (''description'', JStr (''Hostname from the PTR record (trailing dot removed), or null when the lookup found '' @
                                           ''nothing.'')),
                 (''example'', JStr ''workstation-42.example.com'')])])]"

definition rdns_schemas :: "(string \<times> json) list" where
  "rdns_schemas =
    [(''RDNSResponse'', RDNSResponse_schema)]"

definition rdns_OpenAPIFragment :: fragment where
  "rdns_OpenAPIFragment = \<lparr>fgPaths = rdns_paths, fgSchemas = rdns_schemas\<rparr>"

subsection \<open>The modules and the document\<close>

text \<open>The modules of \<open>webapp/main.go\<close>; each constructor is a package of \<open>internal\<close>.\<close>

datatype module = Search | PortInfo | PortLookup | Vlans | Rdns | Dbview | Tokens | Swagger

fun OpenAPIFragment :: "module \<Rightarrow> fragment" where
  "OpenAPIFragment Search = search_OpenAPIFragment"
| "OpenAPIFragment PortInfo = portinfo_OpenAPIFragment"
| "OpenAPIFragment PortLookup = portlookup_OpenAPIFragment"
| "OpenAPIFragment Vlans = vlans_OpenAPIFragment"
| "OpenAPIFragment Rdns = rdns_OpenAPIFragment"
| "OpenAPIFragment Dbview = no_fragment"
| "OpenAPIFragment Tokens = no_fragment"
| "OpenAPIFragment Swagger = no_fragment"

text \<open>The loop over the fragments: a later module replaces a path or schema of an earlier one.\<close>

definition put_all :: "(string \<times> json) list \<Rightarrow> (string \<times> json) list \<Rightarrow> (string \<times> json) list" where
  "put_all new old = fold (\<lambda>kv m. AList.update (fst kv) (snd kv) m) new old"

definition merge_fragments :: "fragment list \<Rightarrow> (string \<times> json) list \<times> (string \<times> json) list" where
  "merge_fragments fs =
     fold (\<lambda>frag (paths, schemas). (put_all (fgPaths frag) paths, put_all (fgSchemas frag) schemas))
       fs ([], [])"

definition buildOpenAPISpec :: "fragment list \<Rightarrow> json" where
  "buildOpenAPISpec fs =
     (case merge_fragments fs of (paths, schemas) \<Rightarrow>
        JObj [
          (''openapi'', JStr ''3.0.3''),
          (''info'', JObj [
             (''title'', JStr ''PortFinder API''),
             (''description'', JStr (''Look up where a device is connected on the network. Query Cisco IOS-XE telemetry '' @
                ''data by MAC address or IP address to find the switch port, VLAN, and interface '' @
                ''details.'' @
                bytes [10, 10] @
                ''**Authentication:** API requests are authenticated either by your browser SAML '' @
                ''session (when calling from this docs page) or by a personal access token sent as '' @
                ''`Authorization: Bearer pfk_...`. Generate and manage tokens on the [API '' @
                ''Tokens](/tokens) page.'')),
             (''version'', JStr ''1.0.1'')]),
          (''servers'', JArr [JObj [(''url'', JStr ''/''), (''description'', JStr ''This server'')]]),
          (''paths'', JObj paths),
          (''components'', JObj [
             (''securitySchemes'', JObj [
                (''bearerAuth'', JObj [
                   (''type'', JStr ''http''),
                   (''scheme'', JStr ''bearer''),
                   (''description'', JStr (''Personal access token generated on the /tokens page (format: pfk_...). Alternative '' @
                ''to the SAML browser session.''))])]),
             (''schemas'', JObj schemas)])])"

text \<open>\<open>dataModules\<close> of \<open>main\<close>: the viewer is there when \<open>DBVIEW_ENABLED\<close> is \<open>true\<close>.\<close>

definition dataModules :: "bool \<Rightarrow> module list" where
  "dataModules dbview_enabled =
     [Search, PortInfo, PortLookup, Vlans, Rdns] @ (if dbview_enabled then [Dbview] else [])"

definition specJSON :: "bool \<Rightarrow> json" where
  "specJSON dbview_enabled = buildOpenAPISpec (map OpenAPIFragment (dataModules dbview_enabled))"

end
