(* ===== verification/ApiDoc.thy ===== *)
theory ApiDoc imports OpenApi begin

text \<open>
  The replies of the data modules as JSON, by the struct tags of their \<open>types.go\<close>, against the
  published document: \<open>conforms\<close> is the meaning of the OpenAPI schemas the document uses, \<open>$ref\<close>
  included, and \<open>response_schema\<close> finds the schema documented for an answer.
\<close>

subsection \<open>Replies as JSON\<close>

definition search_result_json :: "search_result \<Rightarrow> json" where
  "search_result_json r =
     JObj [(''node_id'', JStr (srNode r)), (''mac_address'', JStr (srMac r)),
           (''ip_address'', j_opt JStr (srIp r)), (''interface'', j_opt JStr (srInterface r)),
           (''interface_description'', j_opt JStr (srDescription r)),
           (''access_vlan'', j_opt JNum (srAccessVlan r)),
           (''access_vlan_name'', j_opt JStr (srAccessName r)),
           (''voice_vlan'', j_opt JNum (srVoiceVlan r)),
           (''voice_vlan_name'', j_opt JStr (srVoiceName r))]"

definition search_response_json :: "search_response \<Rightarrow> json" where
  "search_response_json r =
     JObj [(''results'', JArr (map search_result_json (spResults r))),
           (''not_found'', JArr (map JStr (spNotFound r)))]"

definition port_result_json :: "port_result \<Rightarrow> json" where
  "port_result_json r =
     JObj [(''node_id'', JStr (prNode r)), (''name'', JStr (prName r)),
           (''description'', j_opt JStr (prDescription r)), (''shutdown'', JBool (prShutdown r)),
           (''ip_address'', j_opt JStr (prIp r)), (''prefix_len'', j_opt JNum (prPrefixLen r)),
           (''vrf'', j_opt JStr (prVrf r)), (''mtu'', j_opt JNum (prMtu r)),
           (''access_vlan'', JNum (prAccessVlan r)), (''access_vlan_name'', j_opt JStr (prAccessName r)),
           (''voice_vlan'', j_opt JNum (prVoiceVlan r)), (''voice_vlan_name'', j_opt JStr (prVoiceName r)),
           (''collected_at'', JTime (prCollected r))]"

definition port_match_json :: "port_match \<Rightarrow> json" where
  "port_match_json m =
     JObj [(''node_id'', JStr (pmNode m)), (''interface'', JStr (pmInterface m)),
           (''description'', j_opt JStr (pmDescription m)), (''access_vlan'', j_opt JNum (pmAccessVlan m)),
           (''access_vlan_name'', j_opt JStr (pmAccessName m)),
           (''voice_vlan'', j_opt JNum (pmVoiceVlan m)),
           (''voice_vlan_name'', j_opt JStr (pmVoiceName m))]"

definition lookup_response_json :: "port_match list \<Rightarrow> json" where
  "lookup_response_json ms = JObj [(''results'', JArr (map port_match_json ms))]"

definition vlan_record_json :: "vlan_record \<Rightarrow> json" where
  "vlan_record_json v = JObj [(''vlan_id'', JNum (vrVlanID v)), (''name'', j_opt JStr (vrName v))]"

definition vlans_response_json :: "vlan_record list \<Rightarrow> json" where
  "vlans_response_json vs = JObj [(''vlans'', JArr (map vlan_record_json vs))]"

definition rdns_json :: "string option \<Rightarrow> json" where
  "rdns_json h = JObj [(''hostname'', j_opt JStr h)]"

subsection \<open>Schemas\<close>

fun field :: "string \<Rightarrow> json \<Rightarrow> json option" where
  "field k (JObj ms) = map_of ms k"
| "field k _ = None"

text \<open>A reference \<open>#/components/schemas/N\<close> is resolved in the table of schemas.\<close>

definition schema_prefix :: string where "schema_prefix = ''#/components/schemas/''"

definition resolve :: "(string \<Rightarrow> json option) \<Rightarrow> json \<Rightarrow> json" where
  "resolve sch s =
     (case field ''$ref'' s of
        Some (JStr r) \<Rightarrow> (case sch (drop (length schema_prefix) r) of Some s' \<Rightarrow> s' | None \<Rightarrow> s)
      | _ \<Rightarrow> s)"

definition has_type :: "string \<Rightarrow> json \<Rightarrow> bool" where
  "has_type t s \<longleftrightarrow> field ''type'' s = Some (JStr t)"

fun str_of :: "json \<Rightarrow> string option" where
  "str_of (JStr s) = Some s"
| "str_of _ = None"

definition required_names :: "json \<Rightarrow> string list" where
  "required_names s =
     (case field ''required'' s of Some (JArr xs) \<Rightarrow> List.map_filter str_of xs | _ \<Rightarrow> [])"

definition property_schema :: "json \<Rightarrow> string \<Rightarrow> json option" where
  "property_schema s k = Option.bind (field ''properties'' s) (field k)"

text \<open>A value conforms to a schema; every member of an object must be a documented property.\<close>

fun conforms :: "(string \<Rightarrow> json option) \<Rightarrow> json \<Rightarrow> json \<Rightarrow> bool" where
  "conforms sch JNull s \<longleftrightarrow> field ''nullable'' (resolve sch s) = Some (JBool True)"
| "conforms sch (JBool b) s \<longleftrightarrow> has_type ''boolean'' (resolve sch s)"
| "conforms sch (JNum n) s \<longleftrightarrow> has_type ''integer'' (resolve sch s)"
| "conforms sch (JFrac n) s \<longleftrightarrow> False"
| "conforms sch (JStr x) s \<longleftrightarrow> has_type ''string'' (resolve sch s) \<and> field ''format'' (resolve sch s) = None"
| "conforms sch (JTime t) s \<longleftrightarrow>
     has_type ''string'' (resolve sch s) \<and> field ''format'' (resolve sch s) = Some (JStr ''date-time'')"
| "conforms sch (JArr vs) s \<longleftrightarrow>
     has_type ''array'' (resolve sch s) \<and>
     (case field ''items'' (resolve sch s) of
        None \<Rightarrow> False
      | Some it \<Rightarrow> list_all (\<lambda>v. conforms sch v it) vs)"
| "conforms sch (JObj ms) s \<longleftrightarrow>
     has_type ''object'' (resolve sch s) \<and>
     list_all (\<lambda>k. k \<in> fst ` set ms) (required_names (resolve sch s)) \<and>
     list_all (\<lambda>kv. case property_schema (resolve sch s) (fst kv) of
                      None \<Rightarrow> False
                    | Some p \<Rightarrow> conforms sch (snd kv) p) ms"

subsection \<open>Looking into a document\<close>

definition at :: "string list \<Rightarrow> json \<Rightarrow> json option" where
  "at ks j = fold (\<lambda>k acc. Option.bind acc (field k)) ks (Some j)"

definition doc_schemas :: "json \<Rightarrow> string \<Rightarrow> json option" where
  "doc_schemas doc n = Option.bind (at [''components'', ''schemas''] doc) (field n)"

definition response_schema :: "json \<Rightarrow> string \<Rightarrow> string \<Rightarrow> string \<Rightarrow> json option" where
  "response_schema doc path meth status =
     at [''paths'', path, meth, ''responses'', status, ''content'', ''application/json'', ''schema''] doc"

definition documented :: "json \<Rightarrow> string \<Rightarrow> string \<Rightarrow> nat \<Rightarrow> bool" where
  "documented doc path meth status \<longleftrightarrow>
     at [''paths'', path, meth, ''responses'', dec_text status] doc \<noteq> None"

text \<open>What the document says a status means.\<close>

definition described :: "json \<Rightarrow> string \<Rightarrow> string \<Rightarrow> nat \<Rightarrow> json option" where
  "described doc path meth status =
     at [''paths'', path, meth, ''responses'', dec_text status, ''description''] doc"

definition status_of :: "'a reply \<Rightarrow> nat" where
  "status_of rep = (case rep of HttpError c \<Rightarrow> c | Reply st x \<Rightarrow> st)"

text \<open>The answer \<open>body\<close> with this status is what the document says of the operation.\<close>

definition as_documented :: "json \<Rightarrow> string \<Rightarrow> string \<Rightarrow> ('a \<Rightarrow> json) \<Rightarrow> 'a reply \<Rightarrow> bool" where
  "as_documented doc path meth enc rep \<longleftrightarrow>
     (case rep of
        HttpError c \<Rightarrow> documented doc path meth c
      | Reply st x \<Rightarrow>
          (case response_schema doc path meth (dec_text st) of
             None \<Rightarrow> False
           | Some s \<Rightarrow> conforms (doc_schemas doc) (enc x) s))"

text \<open>All references of a document.\<close>

fun refs :: "json \<Rightarrow> string list" where
  "refs (JObj ms) =
     concat (map (\<lambda>kv. (if fst kv = ''$ref'' then (case snd kv of JStr r \<Rightarrow> [r] | _ \<Rightarrow> []) else []) @ refs (snd kv)) ms)"
| "refs (JArr vs) = concat (map refs vs)"
| "refs _ = []"

definition schemas_closed :: "json \<Rightarrow> bool" where
  "schemas_closed doc \<longleftrightarrow>
     (\<forall>r \<in> set (refs doc). has_prefix r schema_prefix \<and> doc_schemas doc (drop (length schema_prefix) r) \<noteq> None)"

text \<open>Every name a schema requires is one of its properties.\<close>

definition schema_ok :: "json \<Rightarrow> bool" where
  "schema_ok s \<longleftrightarrow> list_all (\<lambda>k. property_schema s k \<noteq> None) (required_names s)"


subsection \<open>The published document\<close>

lemma update_new: "k \<notin> fst ` set m \<Longrightarrow> AList.update k v m = m @ [(k, v)]"
  by (induction m) auto

lemma put_all_new:
  "distinct (map fst new) \<Longrightarrow> set (map fst new) \<inter> set (map fst old) = {} \<Longrightarrow> put_all new old = old @ new"
proof (induction new arbitrary: old)
  case (Cons kv new)
  then have "fst kv \<notin> fst ` set old" by auto
  then have "AList.update (fst kv) (snd kv) old = old @ [kv]" by (simp add: update_new)
  moreover have "put_all new (old @ [kv]) = (old @ [kv]) @ new"
    using Cons.prems by (intro Cons.IH) auto
  ultimately show ?case by (simp add: put_all_def)
qed (simp add: put_all_def)

lemma merge_from:
  assumes "distinct (map fst (ps @ concat (map fgPaths fs)))" and "distinct (map fst (ss @ concat (map fgSchemas fs)))"
  shows "fold (\<lambda>frag (paths, schemas). (put_all (fgPaths frag) paths, put_all (fgSchemas frag) schemas)) fs (ps, ss) =
    (ps @ concat (map fgPaths fs), ss @ concat (map fgSchemas fs))"
  using assms
proof (induction fs arbitrary: ps ss)
  case (Cons f fs)
  have "put_all (fgPaths f) ps = ps @ fgPaths f" "put_all (fgSchemas f) ss = ss @ fgSchemas f"
    using Cons.prems by (auto intro!: put_all_new)
  with Cons.IH [of "ps @ fgPaths f" "ss @ fgSchemas f"] Cons.prems show ?case by simp
qed simp

text \<open>When no two modules name the same path or schema, the document has everything they contribute.\<close>

lemma merge_all:
  assumes "distinct (map fst (concat (map fgPaths fs)))" and "distinct (map fst (concat (map fgSchemas fs)))"
  shows "merge_fragments fs = (concat (map fgPaths fs), concat (map fgSchemas fs))"
  using merge_from [of "[]" fs "[]"] assms by (simp add: merge_fragments_def)

definition all_paths :: "(string \<times> json) list" where
  "all_paths = search_paths @ portinfo_paths @ portlookup_paths @ vlans_paths @ rdns_paths"

definition all_schemas :: "(string \<times> json) list" where
  "all_schemas = search_schemas @ portinfo_schemas @ portlookup_schemas @ vlans_schemas @ rdns_schemas"

lemma path_keys:
  "map fst all_paths = [''/api/search'', ''/api/port'', ''/api/portlookup'', ''/api/vlans'', ''/api/rdns'']"
  by (simp add: all_paths_def search_paths_def portinfo_paths_def portlookup_paths_def vlans_paths_def
      rdns_paths_def)

lemma schema_keys:
  "map fst all_schemas = [''SearchRequest'', ''TelemetryRecord'', ''PortRecord'', ''PortLookupRequest'',
     ''PortLookupResponse'', ''PortLookupMatch'', ''VlansResponse'', ''VlanRecord'', ''RDNSResponse'']"
  by (simp add: all_schemas_def search_schemas_def portinfo_schemas_def portlookup_schemas_def
      vlans_schemas_def rdns_schemas_def)

lemma spec_fragments:
  "merge_fragments (map OpenAPIFragment (dataModules b)) = (all_paths, all_schemas)"
proof -
  let ?fs = "map OpenAPIFragment (dataModules b)"
  have c: "concat (map fgPaths ?fs) = all_paths" "concat (map fgSchemas ?fs) = all_schemas"
    by (simp_all add: dataModules_def all_paths_def all_schemas_def search_OpenAPIFragment_def
        portinfo_OpenAPIFragment_def portlookup_OpenAPIFragment_def vlans_OpenAPIFragment_def
        rdns_OpenAPIFragment_def no_fragment_def)
  have "distinct (map fst all_paths)" "distinct (map fst all_schemas)"
    unfolding path_keys schema_keys by simp_all
  with merge_all [of ?fs] c show ?thesis by simp
qed

lemma at_Cons: "at (k # ks) j = (case field k j of None \<Rightarrow> None | Some x \<Rightarrow> at ks x)"
proof -
  have none: "fold (\<lambda>k acc. Option.bind acc (field k)) ks None = None" for ks by (induction ks) simp_all
  show ?thesis by (simp add: at_def none split: option.split)
qed

lemma at_Nil: "at [] j = Some j" by (simp add: at_def)

lemma spec_paths: "at (''paths'' # ks) (specJSON b) = at ks (JObj all_paths)"
  by (simp add: specJSON_def buildOpenAPISpec_def spec_fragments at_Cons)

lemma spec_schemas: "doc_schemas (specJSON b) = map_of all_schemas"
  by (rule ext) (simp add: doc_schemas_def specJSON_def buildOpenAPISpec_def spec_fragments at_Cons at_Nil)

lemmas path_defs = all_paths_def search_paths_def portinfo_paths_def portlookup_paths_def vlans_paths_def
  rdns_paths_def
lemmas schema_tables = all_schemas_def search_schemas_def portinfo_schemas_def portlookup_schemas_def
  vlans_schemas_def rdns_schemas_def
lemmas schema_defs = schema_tables SearchRequest_schema_def TelemetryRecord_schema_def PortRecord_schema_def
  PortLookupRequest_schema_def PortLookupResponse_schema_def PortLookupMatch_schema_def
  VlansResponse_schema_def VlanRecord_schema_def RDNSResponse_schema_def

lemma all_refs: "set (refs (JObj all_paths)) \<union> set (refs (JObj all_schemas)) =
   {''#/components/schemas/SearchRequest'', ''#/components/schemas/TelemetryRecord'',
    ''#/components/schemas/PortRecord'', ''#/components/schemas/PortLookupRequest'',
    ''#/components/schemas/PortLookupResponse'', ''#/components/schemas/PortLookupMatch'',
    ''#/components/schemas/VlansResponse'', ''#/components/schemas/VlanRecord'',
    ''#/components/schemas/RDNSResponse''}"
  by (auto simp: path_defs schema_defs)

text \<open>The published OpenAPI document is closed: whether the viewer is enabled or not, it has every path
  and schema the data modules contribute, every reference in it names a schema it has, and every name
  a schema requires is one of its properties.\<close>

theorem spec_well_formed:
  "schemas_closed (specJSON b) \<and>
   (\<forall>m \<in> set (dataModules b).
      (\<forall>p \<in> set (fgPaths (OpenAPIFragment m)). at [''paths'', fst p] (specJSON b) = Some (snd p)) \<and>
      (\<forall>s \<in> set (fgSchemas (OpenAPIFragment m)).
         doc_schemas (specJSON b) (fst s) = Some (snd s) \<and> schema_ok (snd s)))"
proof (intro conjI ballI)
  have "refs (specJSON b) = refs (JObj all_paths) @ refs (JObj all_schemas)"
    by (simp add: specJSON_def buildOpenAPISpec_def spec_fragments)
  then have "set (refs (specJSON b)) = set (refs (JObj all_paths)) \<union> set (refs (JObj all_schemas))"
    by (simp only: set_append)
  note rs = this [unfolded all_refs]
  have "\<forall>n \<in> set (map fst all_schemas). \<exists>s. map_of all_schemas n = Some s"
    by (auto simp: weak_map_of_SomeI)
  note known = this [unfolded schema_keys]
  show "schemas_closed (specJSON b)"
    unfolding schemas_closed_def spec_schemas rs using known
    by (simp add: schema_prefix_def has_prefix_def)
next
  fix m p assume "m \<in> set (dataModules b)" "p \<in> set (fgPaths (OpenAPIFragment m))"
  then have "p \<in> set all_paths"
    by (auto simp: dataModules_def all_paths_def search_OpenAPIFragment_def
        portinfo_OpenAPIFragment_def portlookup_OpenAPIFragment_def vlans_OpenAPIFragment_def
        rdns_OpenAPIFragment_def no_fragment_def split: if_splits)
  moreover have "distinct (map fst all_paths)" by (simp add: path_keys)
  ultimately have "map_of all_paths (fst p) = Some (snd p)" by (simp add: map_of_eq_Some_iff)
  then show "at [''paths'', fst p] (specJSON b) = Some (snd p)"
    unfolding spec_paths by (simp add: at_Cons at_Nil)
next
  fix m s assume "m \<in> set (dataModules b)" "s \<in> set (fgSchemas (OpenAPIFragment m))"
  then have s: "s \<in> set all_schemas"
    by (auto simp: dataModules_def all_schemas_def search_OpenAPIFragment_def
        portinfo_OpenAPIFragment_def portlookup_OpenAPIFragment_def vlans_OpenAPIFragment_def
        rdns_OpenAPIFragment_def no_fragment_def split: if_splits)
  moreover have "distinct (map fst all_schemas)" by (simp add: schema_keys)
  ultimately show "doc_schemas (specJSON b) (fst s) = Some (snd s)"
    by (simp add: spec_schemas map_of_eq_Some_iff)
  have "list_all (\<lambda>s. schema_ok (snd s)) all_schemas"
    by (simp add: schema_defs schema_ok_def required_names_def property_schema_def List.map_filter_simps)
  with s show "schema_ok (snd s)" by (simp add: list_all_iff)
qed

theorem spec_well_formed_witness:
  "doc_schemas (specJSON True) ''PortRecord'' = Some PortRecord_schema"
proof -
  have m: "PortInfo \<in> set (dataModules True)" by (simp add: dataModules_def)
  have s: "(''PortRecord'', PortRecord_schema) \<in> set (fgSchemas (OpenAPIFragment PortInfo))"
    by (simp add: portinfo_OpenAPIFragment_def portinfo_schemas_def)
  from bspec [OF conjunct2 [OF spec_well_formed [of True]] m] s show ?thesis by fastforce
qed

subsection \<open>Replies against the document\<close>

lemma j_opt_conforms:
  assumes "\<And>x. conforms sch (f x) s" and "field ''nullable'' (resolve sch s) = Some (JBool True)"
  shows "conforms sch (j_opt f v) s"
  using assms by (cases v) (simp_all add: j_opt_def)

lemma dec_texts: "dec_text 200 = ''200''" "dec_text 400 = ''400''" "dec_text 404 = ''404''" "dec_text 405 = ''405''" "dec_text 500 = ''500''"
  by code_simp+

text \<open>The answers the document has for an operation.\<close>

lemma response_schemas:
  "response_schema (specJSON b) ''/api/port'' ''get'' ''200'' =
     Some (JObj [(''$ref'', JStr ''#/components/schemas/PortRecord'')])"
  "response_schema (specJSON b) ''/api/vlans'' ''get'' ''200'' =
     Some (JObj [(''$ref'', JStr ''#/components/schemas/VlansResponse'')])"
  "response_schema (specJSON b) ''/api/portlookup'' ''post'' ''200'' =
     Some (JObj [(''$ref'', JStr ''#/components/schemas/PortLookupResponse'')])"
  "response_schema (specJSON b) ''/api/rdns'' ''get'' ''200'' =
     Some (JObj [(''$ref'', JStr ''#/components/schemas/RDNSResponse'')])"
  "response_schema (specJSON b) ''/api/search'' ''post'' ''200'' =
     Some (JObj [(''type'', JStr ''array''),
                 (''items'', JObj [(''$ref'', JStr ''#/components/schemas/TelemetryRecord'')])])"
  unfolding response_schema_def spec_paths by (simp_all add: path_defs at_Cons at_Nil)

lemma documented_codes:
  "c \<in> {400, 404, 500} \<Longrightarrow> documented (specJSON b) ''/api/port'' ''get'' c"
  "c \<in> {400, 500} \<Longrightarrow> documented (specJSON b) ''/api/vlans'' ''get'' c"
  "c \<in> {400, 500} \<Longrightarrow> documented (specJSON b) ''/api/portlookup'' ''post'' c"
  "c = 400 \<Longrightarrow> documented (specJSON b) ''/api/rdns'' ''get'' c"
  unfolding documented_def spec_paths by (auto simp: path_defs at_Cons at_Nil dec_texts)

lemma described_codes:
  "described (specJSON b) ''/api/port'' ''get'' 200 = Some (JStr ''Port details.'')"
  "described (specJSON b) ''/api/port'' ''get'' 400 = Some (JStr ''Missing node_id or port parameter.'')"
  "described (specJSON b) ''/api/port'' ''get'' 404 = Some (JStr ''No matching interface found.'')"
  "described (specJSON b) ''/api/port'' ''get'' 500 = Some (JStr ''Database error.'')"
  "described (specJSON b) ''/api/port'' ''get'' 405 = None"
  "described (specJSON b) ''/api/vlans'' ''get'' 200 =
     Some (JStr ''VLAN list (empty array when the switch has no recorded VLANs).'')"
  "described (specJSON b) ''/api/vlans'' ''get'' 400 = Some (JStr ''Missing node_id parameter.'')"
  "described (specJSON b) ''/api/vlans'' ''get'' 500 = Some (JStr ''Database error.'')"
  "described (specJSON b) ''/api/vlans'' ''get'' 405 = None"
  "described (specJSON b) ''/api/portlookup'' ''post'' 200 =
     Some (JStr ''Matched ports. Returns an empty array when nothing matches.'')"
  "described (specJSON b) ''/api/portlookup'' ''post'' 400 = Some (JStr ''Missing or invalid request body.'')"
  "described (specJSON b) ''/api/portlookup'' ''post'' 500 = Some (JStr ''Database error.'')"
  "described (specJSON b) ''/api/portlookup'' ''post'' 405 = None"
  "described (specJSON b) ''/api/rdns'' ''get'' 200 =
     Some (JStr (''Lookup completed. `hostname` is null when the address has no PTR record or the '' @ ''lookup failed.''))"
  "described (specJSON b) ''/api/rdns'' ''get'' 400 =
     Some (JStr ''The `ip` parameter is missing or not a valid IPv4 address.'')"
  "described (specJSON b) ''/api/rdns'' ''get'' 405 = None"
  unfolding described_def spec_paths dec_texts by (simp_all add: path_defs at_Cons at_Nil)

lemma resolve_ref:
  "resolve (map_of all_schemas) (JObj [(''$ref'', JStr ''#/components/schemas/PortRecord'')]) = PortRecord_schema"
  "resolve (map_of all_schemas) (JObj [(''$ref'', JStr ''#/components/schemas/VlansResponse'')]) = VlansResponse_schema"
  "resolve (map_of all_schemas) (JObj [(''$ref'', JStr ''#/components/schemas/VlanRecord'')]) = VlanRecord_schema"
  "resolve (map_of all_schemas) (JObj [(''$ref'', JStr ''#/components/schemas/PortLookupResponse'')]) =
     PortLookupResponse_schema"
  "resolve (map_of all_schemas) (JObj [(''$ref'', JStr ''#/components/schemas/PortLookupMatch'')]) =
     PortLookupMatch_schema"
  "resolve (map_of all_schemas) (JObj [(''$ref'', JStr ''#/components/schemas/TelemetryRecord'')]) =
     TelemetryRecord_schema"
  "resolve (map_of all_schemas) (JObj [(''$ref'', JStr ''#/components/schemas/RDNSResponse'')]) = RDNSResponse_schema"
  by (simp_all add: resolve_def schema_prefix_def schema_tables)

lemma resolve_plain: "field ''$ref'' s = None \<Longrightarrow> resolve sch s = s"
  by (simp add: resolve_def)

lemmas conform_defs = has_type_def required_names_def property_schema_def List.map_filter_simps
  resolve_plain j_opt_conforms

lemma port_result_conforms:
  "conforms (map_of all_schemas) (port_result_json r) (JObj [(''$ref'', JStr ''#/components/schemas/PortRecord'')])"
  unfolding port_result_json_def conforms.simps(8) resolve_ref
  by (simp add: PortRecord_schema_def conform_defs)

lemma vlans_response_conforms:
  "conforms (map_of all_schemas) (vlans_response_json vs) (JObj [(''$ref'', JStr ''#/components/schemas/VlansResponse'')])"
proof -
  have "conforms (map_of all_schemas) (vlan_record_json v) (JObj [(''$ref'', JStr ''#/components/schemas/VlanRecord'')])"
    for v
    unfolding vlan_record_json_def conforms.simps(8) resolve_ref
    by (simp add: VlanRecord_schema_def conform_defs)
  then show ?thesis
    unfolding vlans_response_json_def conforms.simps(8) resolve_ref
    by (simp add: VlansResponse_schema_def conform_defs list_all_iff del: conforms.simps(8))
qed

lemma lookup_response_conforms:
  "conforms (map_of all_schemas) (lookup_response_json ms)
     (JObj [(''$ref'', JStr ''#/components/schemas/PortLookupResponse'')])"
proof -
  have "conforms (map_of all_schemas) (port_match_json m)
      (JObj [(''$ref'', JStr ''#/components/schemas/PortLookupMatch'')])" for m
    unfolding port_match_json_def conforms.simps(8) resolve_ref
    by (simp add: PortLookupMatch_schema_def conform_defs)
  then show ?thesis
    unfolding lookup_response_json_def conforms.simps(8) resolve_ref
    by (simp add: PortLookupResponse_schema_def conform_defs list_all_iff del: conforms.simps(8))
qed

lemma rdns_conforms:
  "conforms (map_of all_schemas) (rdns_json h) (JObj [(''$ref'', JStr ''#/components/schemas/RDNSResponse'')])"
  unfolding rdns_json_def conforms.simps(8) resolve_ref
  by (simp add: RDNSResponse_schema_def conform_defs)

lemma port_found: "portSQL d node port = None \<longleftrightarrow> \<not> (\<exists>i \<in> snd ` set (rows (ifT d)). riNode i = node \<and> riName i = port)"
  by (auto simp: portSQL_def get_None_iff)

lemma IPRe_empty [simp]: "\<not> IPRe []"
  by (simp add: IPRe_def)

lemma bodies_as_documented:
  "as_documented (specJSON b) ''/api/port'' ''get'' port_result_json (PortHandler q_fails d ''GET'' query)"
  "as_documented (specJSON b) ''/api/vlans'' ''get'' vlans_response_json (VlansHandler q_fails d ''GET'' query)"
  "as_documented (specJSON b) ''/api/portlookup'' ''post'' lookup_response_json
     (LookupHandler ilike arrange q_fails d ''POST'' body)"
  "as_documented (specJSON b) ''/api/rdns'' ''get'' rdns_json (rdnsHandler lookup_addr ''GET'' query)"
proof -
  note doc = as_documented_def dec_texts response_schemas spec_schemas
  show "as_documented (specJSON b) ''/api/port'' ''get'' port_result_json (PortHandler q_fails d ''GET'' query)"
    by (simp add: PortHandler_def Let_def doc documented_codes port_result_conforms split: option.split)
  show "as_documented (specJSON b) ''/api/vlans'' ''get'' vlans_response_json (VlansHandler q_fails d ''GET'' query)"
    by (simp add: VlansHandler_def Let_def doc documented_codes vlans_response_conforms)
  show "as_documented (specJSON b) ''/api/portlookup'' ''post'' lookup_response_json
     (LookupHandler ilike arrange q_fails d ''POST'' body)"
    by (simp add: LookupHandler_def Let_def doc documented_codes lookup_response_conforms split: option.split)
  show "as_documented (specJSON b) ''/api/rdns'' ''get'' rdns_json (rdnsHandler lookup_addr ''GET'' query)"
    by (simp add: rdnsHandler_def Let_def doc documented_codes rdns_conforms split: option.split list.split)
qed

lemma other_methods:
  "status_of (PortHandler q_fails d meth query) = 405 \<longleftrightarrow> meth \<noteq> ''GET''"
  "status_of (VlansHandler q_fails d meth query) = 405 \<longleftrightarrow> meth \<noteq> ''GET''"
  "status_of (LookupHandler ilike arrange q_fails d meth body) = 405 \<longleftrightarrow> meth \<noteq> ''POST''"
  "status_of (rdnsHandler lookup_addr meth query) = 405 \<longleftrightarrow> meth \<noteq> ''GET''"
  by (auto simp: status_of_def PortHandler_def VlansHandler_def LookupHandler_def rdnsHandler_def Let_def
      split: option.split list.split)

text \<open>C28. What the data modules answer, against their document: for the documented method the status of an
  answer is exactly the one whose documented description tells what happened - parameters missing, body
  invalid, database error, no such interface, or success - and the body of every success conforms to the
  schema published for it, with the required members, their types and no undocumented member. Of the
  descriptions one promises more than is done: the 400 of reverse DNS, said to be for what is no valid
  IPv4 address, is given for what is not four groups of one to three digits, so 999.1.1.1 gets a 200.
  Any other method gets a 405, of which the document says nothing. (Search is different, see below.)\<close>

theorem replies_as_documented:
  "as_documented (specJSON b) ''/api/port'' ''get'' port_result_json (PortHandler q_fails d ''GET'' query) \<and>
   as_documented (specJSON b) ''/api/vlans'' ''get'' vlans_response_json (VlansHandler q_fails d ''GET'' query) \<and>
   as_documented (specJSON b) ''/api/portlookup'' ''post'' lookup_response_json
     (LookupHandler ilike arrange q_fails d ''POST'' body) \<and>
   as_documented (specJSON b) ''/api/rdns'' ''get'' rdns_json (rdnsHandler lookup_addr ''GET'' query) \<and>
   described (specJSON b) ''/api/port'' ''get'' (status_of (PortHandler q_fails d ''GET'' query)) =
     Some (JStr (if query ''node_id'' = [] \<or> query ''port'' = [] then ''Missing node_id or port parameter.''
       else if q_fails then ''Database error.''
       else if \<exists>i \<in> snd ` set (rows (ifT d)). riNode i = query ''node_id'' \<and> riName i = query ''port'' then ''Port details.''
       else ''No matching interface found.'')) \<and>
   described (specJSON b) ''/api/vlans'' ''get'' (status_of (VlansHandler q_fails d ''GET'' query)) =
     Some (JStr (if query ''node_id'' = [] then ''Missing node_id parameter.''
       else if q_fails then ''Database error.''
       else ''VLAN list (empty array when the switch has no recorded VLANs).'')) \<and>
   described (specJSON b) ''/api/portlookup'' ''post'' (status_of (LookupHandler ilike arrange q_fails d ''POST'' body)) =
     Some (JStr (case decode_lookup body of
         None \<Rightarrow> ''Missing or invalid request body.''
       | Some req \<Rightarrow>
           if lqSwitch req = [] \<or> lqDescriptions req = [] then ''Missing or invalid request body.''
           else if q_fails then ''Database error.''
           else ''Matched ports. Returns an empty array when nothing matches.'')) \<and>
   described (specJSON b) ''/api/rdns'' ''get'' (status_of (rdnsHandler lookup_addr ''GET'' query)) =
     Some (JStr (if IPRe (query ''ip'')
       then ''Lookup completed. `hostname` is null when the address has no PTR record or the '' @ ''lookup failed.''
       else ''The `ip` parameter is missing or not a valid IPv4 address.'')) \<and>
   (status_of (PortHandler q_fails d meth query) = 405 \<longleftrightarrow> meth \<noteq> ''GET'') \<and>
   (status_of (VlansHandler q_fails d meth query) = 405 \<longleftrightarrow> meth \<noteq> ''GET'') \<and>
   (status_of (LookupHandler ilike arrange q_fails d meth body) = 405 \<longleftrightarrow> meth \<noteq> ''POST'') \<and>
   (status_of (rdnsHandler lookup_addr meth query) = 405 \<longleftrightarrow> meth \<noteq> ''GET'') \<and>
   described (specJSON b) ''/api/port'' ''get'' 405 = None \<and> described (specJSON b) ''/api/vlans'' ''get'' 405 = None \<and>
   described (specJSON b) ''/api/portlookup'' ''post'' 405 = None \<and> described (specJSON b) ''/api/rdns'' ''get'' 405 = None"
proof (intro conjI)
  show "described (specJSON b) ''/api/port'' ''get'' (status_of (PortHandler q_fails d ''GET'' query)) =
     Some (JStr (if query ''node_id'' = [] \<or> query ''port'' = [] then ''Missing node_id or port parameter.''
       else if q_fails then ''Database error.''
       else if \<exists>i \<in> snd ` set (rows (ifT d)). riNode i = query ''node_id'' \<and> riName i = query ''port'' then ''Port details.''
       else ''No matching interface found.''))"
    using port_found [of d "query ''node_id''" "query ''port''"]
    by (cases "portSQL d (query ''node_id'') (query ''port'')")
      (auto simp: PortHandler_def Let_def status_of_def described_codes)
  show "described (specJSON b) ''/api/vlans'' ''get'' (status_of (VlansHandler q_fails d ''GET'' query)) =
     Some (JStr (if query ''node_id'' = [] then ''Missing node_id parameter.''
       else if q_fails then ''Database error.''
       else ''VLAN list (empty array when the switch has no recorded VLANs).''))"
    by (simp add: VlansHandler_def Let_def status_of_def described_codes)
  show "described (specJSON b) ''/api/portlookup'' ''post'' (status_of (LookupHandler ilike arrange q_fails d ''POST'' body)) =
     Some (JStr (case decode_lookup body of
         None \<Rightarrow> ''Missing or invalid request body.''
       | Some req \<Rightarrow>
           if lqSwitch req = [] \<or> lqDescriptions req = [] then ''Missing or invalid request body.''
           else if q_fails then ''Database error.''
           else ''Matched ports. Returns an empty array when nothing matches.''))"
    by (cases "decode_lookup body") (simp_all add: LookupHandler_def Let_def status_of_def described_codes)
  show "described (specJSON b) ''/api/rdns'' ''get'' (status_of (rdnsHandler lookup_addr ''GET'' query)) =
     Some (JStr (if IPRe (query ''ip'')
       then ''Lookup completed. `hostname` is null when the address has no PTR record or the '' @ ''lookup failed.''
       else ''The `ip` parameter is missing or not a valid IPv4 address.''))"
    by (auto simp: rdnsHandler_def Let_def status_of_def described_codes split: option.split list.split)
qed (rule bodies_as_documented other_methods described_codes)+

theorem replies_as_documented_witness:
  "described (specJSON True) ''/api/port'' ''get'' (status_of (PortHandler False empty_db ''GET'' (\<lambda>_. ''x''))) =
     Some (JStr ''No matching interface found.'') \<and>
   described (specJSON True) ''/api/rdns'' ''get'' (status_of (rdnsHandler (\<lambda>_. None) ''GET'' (\<lambda>_. ''10.0.0''))) =
     Some (JStr ''The `ip` parameter is missing or not a valid IPv4 address.'')"
proof -
  have "\<not> IPRe ''10.0.0''" by code_simp
  with replies_as_documented [of True False empty_db "\<lambda>_. ''x''"]
    replies_as_documented [where b = True and lookup_addr = "\<lambda>_. None" and query = "\<lambda>_. ''10.0.0''"]
  show ?thesis by (simp add: empty_db_def empty_table_def)
qed

text \<open>The search document is wrong: it promises an array of records for a 200, the handler answers an
  object with results and terms not found, so no successful answer conforms.\<close>

theorem search_reply_undocumented:
  "\<not> conforms (doc_schemas (specJSON b)) (search_response_json r)
     (the (response_schema (specJSON b) ''/api/search'' ''post'' ''200''))"
  unfolding response_schemas spec_schemas search_response_json_def
  by (simp add: conform_defs)

text \<open>Its records are documented as they are.\<close>

lemma search_result_conforms:
  "conforms (doc_schemas (specJSON b)) (search_result_json r)
     (JObj [(''$ref'', JStr ''#/components/schemas/TelemetryRecord'')])"
  unfolding spec_schemas search_result_json_def conforms.simps(8) resolve_ref
  by (simp add: TelemetryRecord_schema_def conform_defs)

end
