(* ===== verification/Tokens.thy ===== *)
theory Tokens imports Http Store Payload begin

text \<open>
  \<open>webapp/internal/tokens\<close>: personal access tokens. The table \<open>api_tokens\<close> is a table with the
  unique key \<open>token_hash\<close>; SHA-256 with its hex form is the parameter \<open>digest\<close>, and what a SAML
  session provides are the parameters \<open>attr\<close> and \<open>subject\<close>. Clocks are read explicitly: Go's
  \<open>time.Now\<close> and PostgreSQL's \<open>now()\<close> are separate arguments. A statement fails when its fault flag
  is set.
\<close>

subsection \<open>Constants and rows\<close>

definition apiTokenPrefix :: string where "apiTokenPrefix = ''pfk_''"
definition maxActiveTokens :: nat where "maxActiveTokens = 10"
definition maxTokenNameLen :: nat where "maxTokenNameLen = 100"
definition defaultExpiryDays :: int where "defaultExpiryDays = 90"
definition maxExpiryDays :: int where "maxExpiryDays = 730"

record token_row =
  tkUser :: string
  tkName :: string
  tkHash :: string
  tkHint :: string
  tkCreated :: instant
  tkExpires :: "instant option"
  tkLastUsed :: "instant option"
  tkRevoked :: "instant option"

record token_info =
  tiID :: int
  tiName :: string
  tiHint :: string
  tiCreated :: instant
  tiExpires :: "instant option"
  tiLastUsed :: "instant option"
  tiRevoked :: bool

text \<open>\<open>revoked_at IS NULL AND (expires_at IS NULL OR expires_at > now())\<close>\<close>

definition live :: "instant \<Rightarrow> token_row \<Rightarrow> bool" where
  "live now r \<longleftrightarrow>
     tkRevoked r = None \<and> (case tkExpires r of None \<Rightarrow> True | Some x \<Rightarrow> x > now)"

subsection \<open>Identity and token text\<close>

definition user_attributes :: "string list" where
  "user_attributes =
     [''http://schemas.xmlsoap.org/ws/2005/05/identity/claims/upn'',
      ''http://schemas.xmlsoap.org/ws/2005/05/identity/claims/name'',
      ''http://schemas.xmlsoap.org/ws/2005/05/identity/claims/emailaddress'',
      ''eduPersonPrincipalName'',
      ''urn:oid:1.3.6.1.4.1.5923.1.1.1.6'',
      ''mail'',
      ''urn:oid:0.9.2342.19200300.100.1.3'',
      ''email'',
      ''uid'']"

text \<open>\<open>attr a\<close> is the first value of the session attribute, \<open>subject\<close> that of its JWT claims.\<close>

definition SAMLUser :: "(string \<Rightarrow> string) \<Rightarrow> string option \<Rightarrow> string" where
  "SAMLUser attr subject =
     (case find (\<lambda>a. attr a \<noteq> []) user_attributes of
        Some a \<Rightarrow> attr a
      | None \<Rightarrow>
          (case subject of
             Some s \<Rightarrow> (if s \<noteq> [] then s else ''local'')
           | None \<Rightarrow> ''local''))"

text \<open>\<open>base64.RawURLEncoding\<close>\<close>

definition b64_char :: "nat \<Rightarrow> char" where
  "b64_char n = (''ABCDEFGHIJKLMNOPQRSTUVWXYZabcdefghijklmnopqrstuvwxyz0123456789-_'' ! (n mod 64))"

fun b64_encode :: "8 word list \<Rightarrow> string" where
  "b64_encode (a # b # c # bs) =
     (let n = unat a * 65536 + unat b * 256 + unat c in
      b64_char (n div 262144) # b64_char (n div 4096) # b64_char (n div 64) # b64_char n #
        b64_encode bs)"
| "b64_encode [a, b] =
     (let n = unat a * 65536 + unat b * 256 in
      [b64_char (n div 262144), b64_char (n div 4096), b64_char (n div 64)])"
| "b64_encode [a] =
     (let n = unat a * 65536 in [b64_char (n div 262144), b64_char (n div 4096)])"
| "b64_encode [] = []"

text \<open>The horizontal ellipsis at the end of a hint, in UTF-8.\<close>

definition ellipsis :: string where
  "ellipsis = bytes [226, 128, 166]"

record token_text =
  ttPlain :: string
  ttHash :: string
  ttHint :: string

text \<open>\<open>raw\<close> is what \<open>rand.Read\<close> filled in, \<open>None\<close> when it failed.\<close>

definition generateToken :: "(string \<Rightarrow> string) \<Rightarrow> 8 word list option \<Rightarrow> token_text option" where
  "generateToken digest raw =
     (case raw of
        None \<Rightarrow> None
      | Some bs \<Rightarrow>
          let plaintext = apiTokenPrefix @ b64_encode bs in
          Some \<lparr>ttPlain = plaintext, ttHash = digest plaintext,
            ttHint = take (length apiTokenPrefix + 4) plaintext @ ellipsis\<rparr>)"

subsection \<open>Authentication\<close>

definition LookupToken ::
    "(string \<Rightarrow> string) \<Rightarrow> bool \<Rightarrow> instant \<Rightarrow> token_row table \<Rightarrow> string \<Rightarrow>
     go_error + int \<times> string" where
  "LookupToken digest fails now t plaintext =
     (let hash = digest plaintext in
      if fails then Inl DbError
      else case find (\<lambda>ir. tkHash (snd ir) = hash \<and> live now (snd ir)) (rows t) of
             None \<Rightarrow> Inl NoRows
           | Some (i, r) \<Rightarrow> Inr (i, tkUser r))"

text \<open>The statement \<open>LookupToken\<close> runs in the background for the id it found.\<close>

definition touch_last_used :: "instant \<Rightarrow> int \<Rightarrow> token_row table \<Rightarrow> token_row table" where
  "touch_last_used now i t =
     t\<lparr>rows := map (\<lambda>ir. if fst ir = i then (fst ir, (snd ir)\<lparr>tkLastUsed := Some now\<rparr>) else ir) (rows t)\<rparr>"

text \<open>What the middleware does with a request: serve it, hand it to the SAML session check, or refuse.\<close>

datatype gate = Serve | RequireAccount | Refuse nat

definition BearerOrSAML ::
    "(string \<Rightarrow> string) \<Rightarrow> bool \<Rightarrow> instant \<Rightarrow> token_row table \<Rightarrow> bool \<Rightarrow> string \<Rightarrow> gate" where
  "BearerOrSAML digest fails now t saml auth =
     (let saml_check = (if saml then RequireAccount else Serve) in
      if has_prefix auth ''Bearer '' then
        (let tok = TrimSpace (trim_prefix auth ''Bearer '') in
         if has_prefix tok apiTokenPrefix then
           (case LookupToken digest fails now t tok of
              Inr _ \<Rightarrow> Serve
            | Inl err \<Rightarrow> (if err \<noteq> NoRows then Refuse 500 else Refuse 401))
         else saml_check)
      else saml_check)"

subsection \<open>Handlers\<close>

text \<open>
  \<open>ListHandler\<close> of a user; rows with the same \<open>created_at\<close> come in no promised order, here that of
  the table.
\<close>

definition ListHandler :: "bool \<Rightarrow> token_row table \<Rightarrow> string \<Rightarrow> token_info list reply" where
  "ListHandler fails t user =
     (if fails then HttpError 500
      else Reply 200
        (map (\<lambda>(i, r). \<lparr>tiID = i, tiName = tkName r, tiHint = tkHint r, tiCreated = tkCreated r,
                 tiExpires = tkExpires r, tiLastUsed = tkLastUsed r, tiRevoked = (tkRevoked r \<noteq> None)\<rparr>)
          (sort_key (\<lambda>ir. - tkCreated (snd ir)) (filter (\<lambda>ir. tkUser (snd ir) = user) (rows t)))))"

record create_req =
  crName :: string
  crExpiresDays :: "int option"

definition store_create :: "create_req \<Rightarrow> string \<times> json \<Rightarrow> create_req option" where
  "store_create e m =
     (let k = fst m; v = snd m in
      if key_is k ''name'' then map_option (\<lambda>x. e\<lparr>crName := x\<rparr>) (string_value (crName e) v)
      else if key_is k ''expires_days'' then map_option (\<lambda>x. e\<lparr>crExpiresDays := x\<rparr>) (int_ptr v)
      else Some e)"

definition decode_create :: "json option \<Rightarrow> create_req option" where
  "decode_create body =
     Option.bind body (unmarshal_struct store_create \<lparr>crName = [], crExpiresDays = None\<rparr>)"

definition active_count :: "string \<Rightarrow> instant \<Rightarrow> token_row table \<Rightarrow> nat" where
  "active_count user now t =
     length (filter (\<lambda>ir. tkUser (snd ir) = user \<and> live now (snd ir)) (rows t))"

text \<open>
  The first half of \<open>CreateHandler\<close>, up to the generated token: the checks of the request and the
  count of active tokens at the database time \<open>now\<close>. \<open>clock\<close> is the time the expiry is counted
  from. On success: the name, the expiry and the token.
\<close>

definition create_check ::
    "(string \<Rightarrow> string) \<Rightarrow> bool \<Rightarrow> instant \<Rightarrow> instant \<Rightarrow> token_row table \<Rightarrow> string \<Rightarrow> json option \<Rightarrow>
     8 word list option \<Rightarrow> nat + string \<times> instant option \<times> token_text" where
  "create_check digest fails clock now t user body raw =
     (case decode_create body of
        None \<Rightarrow> Inl 400
      | Some req \<Rightarrow>
          let nm = TrimSpace (crName req) in
          if nm = [] \<or> length nm > maxTokenNameLen then Inl 400
          else
            let days = (case crExpiresDays req of None \<Rightarrow> defaultExpiryDays | Some n \<Rightarrow> n) in
            if days < 0 \<or> days > maxExpiryDays then Inl 400
            else
              let expiresAt = (if days > 0 then Some (clock + days * 86400000) else None) in
              if fails then Inl 500
              else if active_count user now t \<ge> maxActiveTokens then Inl 409
              else case generateToken digest raw of
                     None \<Rightarrow> Inl 500
                   | Some tok \<Rightarrow> Inr (nm, expiresAt, tok))"

text \<open>The INSERT: refused when the hash exists; \<open>created_at\<close> is the database time.\<close>

definition create_insert ::
    "bool \<Rightarrow> instant \<Rightarrow> string \<Rightarrow> string \<times> instant option \<times> token_text \<Rightarrow> token_row table \<Rightarrow>
     int option \<times> token_row table" where
  "create_insert fails now user p t =
     (case p of (nm, expiresAt, tok) \<Rightarrow>
        if fails then (None, t)
        else if list_ex (\<lambda>ir. tkHash (snd ir) = ttHash tok) (rows t) then
          (None, t\<lparr>next_id := next_id t + 1\<rparr>)
        else
          (Some (next_id t),
           t\<lparr>rows := rows t @ [(next_id t,
               \<lparr>tkUser = user, tkName = nm, tkHash = ttHash tok, tkHint = ttHint tok, tkCreated = now,
                tkExpires = expiresAt, tkLastUsed = None, tkRevoked = None\<rparr>)],
             next_id := next_id t + 1\<rparr>))"

record create_resp =
  cpID :: int
  cpName :: string
  cpToken :: string
  cpHint :: string
  cpCreated :: instant
  cpExpires :: "instant option"

definition CreateHandler ::
    "(string \<Rightarrow> string) \<Rightarrow> (nat \<Rightarrow> bool) \<Rightarrow> instant \<Rightarrow> instant \<Rightarrow> instant \<Rightarrow> string \<Rightarrow> json option \<Rightarrow>
     8 word list option \<Rightarrow> token_row table \<Rightarrow> create_resp reply \<times> token_row table" where
  "CreateHandler digest q_fails clock now1 now2 user body raw t =
     (case create_check digest (q_fails 0) clock now1 t user body raw of
        Inl c \<Rightarrow> (HttpError c, t)
      | Inr (nm, expiresAt, tok) \<Rightarrow>
          (case create_insert (q_fails 1) now2 user (nm, expiresAt, tok) t of
             (None, t') \<Rightarrow> (HttpError 500, t')
           | (Some i, t') \<Rightarrow>
               (Reply 201 \<lparr>cpID = i, cpName = nm, cpToken = ttPlain tok, cpHint = ttHint tok,
                  cpCreated = now2, cpExpires = expiresAt\<rparr>, t')))"

definition RevokeHandler ::
    "bool \<Rightarrow> instant \<Rightarrow> string \<Rightarrow> string \<Rightarrow> token_row table \<Rightarrow> unit reply \<times> token_row table" where
  "RevokeHandler fails now user idtext t =
     (case ParseInt idtext of
        (err, i) \<Rightarrow>
          if err \<noteq> NumOk then (HttpError 400, t)
          else if fails then (HttpError 500, t)
          else
            let hit = (\<lambda>ir. fst ir = i \<and> tkUser (snd ir) = user \<and> tkRevoked (snd ir) = None) in
            if \<not> list_ex hit (rows t) then (HttpError 404, t)
            else (Reply 204 (),
                  t\<lparr>rows := map (\<lambda>ir. if hit ir then (fst ir, (snd ir)\<lparr>tkRevoked := Some now\<rparr>) else ir)
                             (rows t)\<rparr>))"

subsection \<open>Token text\<close>

lemma b64_char_inj: "m < 64 \<Longrightarrow> n < 64 \<Longrightarrow> b64_char m = b64_char n \<Longrightarrow> m = n"
proof -
  have "distinct ''ABCDEFGHIJKLMNOPQRSTUVWXYZabcdefghijklmnopqrstuvwxyz0123456789-_''" by code_simp
  then show "m < 64 \<Longrightarrow> n < 64 \<Longrightarrow> b64_char m = b64_char n \<Longrightarrow> m = n"
    by (simp add: b64_char_def nth_eq_iff_index_eq)
qed

lemma b64_char_mod: "b64_char m = b64_char n \<Longrightarrow> m mod 64 = n mod 64"
  using b64_char_inj [of "m mod 64" "n mod 64"] by (simp add: b64_char_def)

lemma digits64:
  assumes "(m :: nat) < 16777216" and "n < 16777216"
    and "m div 262144 mod 64 = n div 262144 mod 64" and "m div 4096 mod 64 = n div 4096 mod 64"
    and "m div 64 mod 64 = n div 64 mod 64" and "m mod 64 = n mod 64"
  shows "m = n"
proof -
  have split: "x = 64 * (64 * (64 * (x div 262144) + x div 4096 mod 64) + x div 64 mod 64) + x mod 64"
    for x :: nat
  proof -
    have "x div 262144 = x div 4096 div 64" "x div 4096 = x div 64 div 64"
      by (simp_all add: div_mult2_eq [symmetric])
    then show ?thesis by (simp only: mult_div_mod_eq)
  qed
  have "m div 262144 < 64" "n div 262144 < 64" using assms(1,2) by simp_all
  with assms(3) have "m div 262144 = n div 262144" by simp
  with split [of m] split [of n] assms(4-6) show ?thesis by simp
qed

lemma byte_step:
  assumes "c < 256" and "c' < 256" and eq: "256 * x + c = 256 * x' + (c' :: nat)"
  shows "c = c' \<and> x = x'"
proof -
  from arg_cong [OF eq, of "\<lambda>n. n mod 256"] assms(1,2) have "c = c'" by simp
  with eq show ?thesis by simp
qed

lemma bytes3:
  assumes "b < 256" and "c < 256" and "b' < 256" and "c' < (256 :: nat)"
    and "a * 65536 + b * 256 + c = a' * 65536 + b' * 256 + c'"
  shows "a = a' \<and> b = b' \<and> c = c'"
proof -
  have "256 * (256 * a + b) + c = 256 * (256 * a' + b') + c'" using assms(5) by simp
  from byte_step [OF assms(2,4) this] have "c = c'" and "256 * a + b = 256 * a' + b'" by blast+
  with byte_step [OF assms(1,3) this(2)] show ?thesis by blast
qed

lemma low_zero:
  "(u * 65536 + v * 256 + 0) mod 64 = (0 :: nat)" "(u * 65536 + 0 * 256 + 0) div 64 mod 64 = (0 :: nat)"
proof -
  have "u * 65536 + v * 256 + 0 = 64 * (u * 1024 + v * 4)" by simp
  then show "(u * 65536 + v * 256 + 0) mod 64 = 0" by (simp only: mod_mult_self1_is_0)
  have "u * 65536 + 0 * 256 + 0 = 64 * (64 * (u * 16))" by simp
  then have "(u * 65536 + 0 * 256 + 0) div 64 = 64 * (u * 16)" by (simp only: nonzero_mult_div_cancel_left)
  then show "(u * 65536 + 0 * 256 + 0) div 64 mod 64 = 0" by (simp only: mod_mult_self1_is_0)
qed

lemma unat_byte: "unat (a :: 8 word) < 256"
  using unsigned_less [of a] by simp

lemma b64_length: "length (b64_encode bs) = (length bs * 4 + 2) div 3"
  by (induction bs rule: b64_encode.induct) (simp_all add: Let_def)

definition b64_alphabet :: "char set" where
  "b64_alphabet = set ''ABCDEFGHIJKLMNOPQRSTUVWXYZabcdefghijklmnopqrstuvwxyz0123456789-_''"

lemma b64_chars: "set (b64_encode bs) \<subseteq> b64_alphabet"
proof -
  have ch: "b64_char n \<in> b64_alphabet" for n
    unfolding b64_char_def b64_alphabet_def by (rule nth_mem) simp
  show ?thesis
    by (induction bs rule: b64_encode.induct) (simp_all add: Let_def ch)
qed

lemma b64_inj: "length as = length bs \<Longrightarrow> b64_encode as = b64_encode bs \<Longrightarrow> as = bs"
proof (induction as arbitrary: bs rule: b64_encode.induct)
  case (1 a b c as)
  from "1.prems"(1) obtain a' b' c' bs' where bs: "bs = a' # b' # c' # bs'" "length as = length bs'"
    by (auto simp: length_Suc_conv Suc_length_conv)
  let ?n = "unat a * 65536 + unat b * 256 + unat c"
  let ?m = "unat a' * 65536 + unat b' * 256 + unat c'"
  have eqs: "b64_char (?n div 262144) = b64_char (?m div 262144)" "b64_char (?n div 4096) = b64_char (?m div 4096)"
    "b64_char (?n div 64) = b64_char (?m div 64)" "b64_char ?n = b64_char ?m" "b64_encode as = b64_encode bs'"
    using 1(3) by (simp_all add: bs Let_def)
  have "?n < 16777216" "?m < 16777216"
    using unat_byte [of a] unat_byte [of b] unat_byte [of c] unat_byte [of a'] unat_byte [of b'] unat_byte [of c']
    by linarith+
  then have "?n = ?m"
    using eqs(1-4) [THEN b64_char_mod] by (rule digits64)
  then have "unat a = unat a' \<and> unat b = unat b' \<and> unat c = unat c'"
    by (intro bytes3 unat_byte)
  with 1(1) [OF _ bs(2) eqs(5)] bs(1) show ?case by (simp add: word_unat_eq_iff)
next
  case (2 a b)
  from "2.prems"(1) obtain a' b' where bs: "bs = [a', b']" by (auto simp: length_Suc_conv Suc_length_conv)
  let ?n = "unat a * 65536 + unat b * 256 + 0"
  let ?m = "unat a' * 65536 + unat b' * 256 + 0"
  have eqs: "b64_char (?n div 262144) = b64_char (?m div 262144)" "b64_char (?n div 4096) = b64_char (?m div 4096)"
    "b64_char (?n div 64) = b64_char (?m div 64)"
    using 2(2) unfolding bs b64_encode.simps Let_def by (simp_all only: list.inject add_0_right)
  have low: "?n mod 64 = ?m mod 64" by (simp only: low_zero)
  have "?n < 16777216" "?m < 16777216"
    using unat_byte [of a] unat_byte [of b] unat_byte [of a'] unat_byte [of b'] by linarith+
  then have "?n = ?m"
    using eqs [THEN b64_char_mod] low by (rule digits64)
  then have "unat a = unat a' \<and> unat b = unat b' \<and> (0 :: nat) = 0"
    by (intro bytes3 unat_byte) simp_all
  with bs show ?case by (simp add: word_unat_eq_iff)
next
  case (3 a)
  from "3.prems"(1) obtain a' where bs: "bs = [a']" by (auto simp: length_Suc_conv Suc_length_conv)
  let ?n = "unat a * 65536 + 0 * 256 + 0"
  let ?m = "unat a' * 65536 + 0 * 256 + 0"
  have eqs: "b64_char (?n div 262144) = b64_char (?m div 262144)" "b64_char (?n div 4096) = b64_char (?m div 4096)"
    using 3(2) unfolding bs b64_encode.simps Let_def
    by (simp_all only: list.inject add_0_right mult_zero_left)
  have low: "?n div 64 mod 64 = ?m div 64 mod 64" "?n mod 64 = ?m mod 64" by (simp_all only: low_zero)
  have "?n < 16777216" "?m < 16777216"
    using unat_byte [of a] unat_byte [of a'] by linarith+
  then have "?n = ?m"
    using eqs [THEN b64_char_mod] low by (rule digits64)
  with bs show ?case by (simp add: word_unat_eq_iff)
qed simp

subsection \<open>The table of tokens\<close>

lemma LookupToken_Inr:
  "table_ok tkHash t \<Longrightarrow> LookupToken digest False now t p = Inr (i, u) \<longleftrightarrow>
     (\<exists>r. (i, r) \<in> set (rows t) \<and> tkHash r = digest p \<and> live now r \<and> tkUser r = u)"
proof
  assume "LookupToken digest False now t p = Inr (i, u)"
  then show "\<exists>r. (i, r) \<in> set (rows t) \<and> tkHash r = digest p \<and> live now r \<and> tkUser r = u"
    by (auto simp: LookupToken_def Let_def split: option.splits dest!: find_Some_mem)
next
  assume ok: "table_ok tkHash t"
    and "\<exists>r. (i, r) \<in> set (rows t) \<and> tkHash r = digest p \<and> live now r \<and> tkUser r = u"
  then obtain r where r: "(i, r) \<in> set (rows t)" "tkHash r = digest p" "live now r" "tkUser r = u" by blast
  have "find (\<lambda>ir. tkHash (snd ir) = digest p \<and> live now (snd ir)) (rows t) = Some (i, r)"
  proof (cases "find (\<lambda>ir. tkHash (snd ir) = digest p \<and> live now (snd ir)) (rows t)")
    case None
    with r show ?thesis by (auto simp: find_None_iff)
  next
    case (Some jr)
    from find_Some_mem [OF Some] r(1,2) ok have "jr = (i, r)"
      by (auto simp: table_ok_def distinct_map inj_on_def)
    with Some show ?thesis by simp
  qed
  with r(4) show "LookupToken digest False now t p = Inr (i, u)" by (simp add: LookupToken_def)
qed

lemma LookupToken_Inl: "LookupToken digest False now t p = Inl err \<Longrightarrow> err = NoRows"
  by (auto simp: LookupToken_def Let_def split: option.splits)

lemma create_insert_ok: "table_ok tkHash t \<Longrightarrow> table_ok tkHash (snd (create_insert fails now user p t))"
  by (force simp: create_insert_def table_ok_def list_ex_iff split: prod.split)

lemma table_ok_map:
  assumes "table_ok tkHash t" and "\<And>ir. fst (f ir) = fst ir" and "\<And>ir. tkHash (snd (f ir)) = tkHash (snd ir)"
  shows "table_ok tkHash (t\<lparr>rows := map f (rows t)\<rparr>)"
  using assms by (simp add: table_ok_def comp_def)

lemma RevokeHandler_ok: "table_ok tkHash t \<Longrightarrow> table_ok tkHash (snd (RevokeHandler fails now user idt t))"
  by (auto simp: RevokeHandler_def Let_def intro!: table_ok_map split: prod.split)

lemma touch_ok: "table_ok tkHash t \<Longrightarrow> table_ok tkHash (touch_last_used now i t)"
  unfolding touch_last_used_def by (rule table_ok_map) simp_all

subsection \<open>Counting active tokens\<close>

lemma live_mono: "now \<le> now' \<Longrightarrow> live now' r \<Longrightarrow> live now r"
  by (auto simp: live_def split: option.splits)

lemma active_count_mono: "now \<le> now' \<Longrightarrow> active_count user now' t \<le> active_count user now t"
  unfolding active_count_def using live_mono by (blast intro: length_filter_mono)

lemma active_count_map:
  assumes "\<And>ir. tkUser (snd (f ir)) = tkUser (snd ir)" and "\<And>ir. live now (snd (f ir)) \<Longrightarrow> live now (snd ir)"
  shows "active_count user now (t\<lparr>rows := map f (rows t)\<rparr>) \<le> active_count user now t"
  using assms by (auto simp: active_count_def filter_map intro!: length_filter_mono)

lemma active_count_insert:
  "active_count u now (snd (create_insert fails now2 user (nm, ex, tok) t)) =
     active_count u now t +
       (if fst (create_insert fails now2 user (nm, ex, tok) t) \<noteq> None \<and> u = user \<and>
           (case ex of None \<Rightarrow> True | Some x \<Rightarrow> x > now) then 1 else 0)"
  by (auto simp: create_insert_def active_count_def live_def split: option.split)

lemma create_check_Inr:
  "create_check digest fails clock now t user body raw = Inr (nm, ex, tok) \<Longrightarrow>
     active_count user now t < maxActiveTokens \<and> nm \<noteq> [] \<and> length nm \<le> 100 \<and>
     (case ex of None \<Rightarrow> True | Some x \<Rightarrow> clock < x \<and> x \<le> clock + 730 * 86400000) \<and>
     generateToken digest raw = Some tok"
  by (auto simp: create_check_def Let_def maxTokenNameLen_def maxExpiryDays_def
      split: option.splits if_splits)

lemma CreateHandler_count:
  assumes "now1 \<le> now"
  shows "active_count u now (snd (CreateHandler digest q_fails clock now1 now2 user body raw t))
    \<le> max (active_count u now t) maxActiveTokens"
proof (cases "create_check digest (q_fails 0) clock now1 t user body raw")
  case (Inl c)
  then show ?thesis by (simp add: CreateHandler_def)
next
  case (Inr p)
  obtain nm ex tok where p: "p = (nm, ex, tok)" by (cases p)
  have "active_count user now t < maxActiveTokens"
    using create_check_Inr [OF Inr [unfolded p]] active_count_mono [OF assms, of user t] by simp
  then show ?thesis
    using Inr p active_count_insert [of u now "q_fails 1" now2 user nm ex tok t]
    by (auto simp: CreateHandler_def split: prod.split option.split if_splits)
qed

lemma RevokeHandler_count:
  "active_count u now (snd (RevokeHandler fails now' user idt t)) \<le> active_count u now t"
proof (cases "ParseInt idt")
  case (Pair err i)
  show ?thesis
    unfolding RevokeHandler_def Pair Let_def
    by (auto intro!: active_count_map simp: live_def split: if_splits)
qed

lemma touch_count: "active_count u now (touch_last_used now' i t) \<le> active_count u now t"
  unfolding touch_last_used_def by (rule active_count_map) (auto simp: live_def split: if_splits)

text \<open>The requests that change the table, each with the database time of its first statement.\<close>

datatype token_op =
    CreateOp instant instant instant string "json option" "8 word list option" "nat \<Rightarrow> bool"
  | RevokeOp bool instant string string
  | TouchOp instant int

fun op_time :: "token_op \<Rightarrow> instant" where
  "op_time (CreateOp clock now1 now2 user body raw q_fails) = now1"
| "op_time (RevokeOp fails now user idt) = now"
| "op_time (TouchOp now i) = now"

fun run_op :: "(string \<Rightarrow> string) \<Rightarrow> token_op \<Rightarrow> token_row table \<Rightarrow> token_row table" where
  "run_op digest (CreateOp clock now1 now2 user body raw q_fails) t =
     snd (CreateHandler digest q_fails clock now1 now2 user body raw t)"
| "run_op digest (RevokeOp fails now user idt) t = snd (RevokeHandler fails now user idt t)"
| "run_op digest (TouchOp now i) t = touch_last_used now i t"

lemma run_op_ok: "table_ok tkHash t \<Longrightarrow> table_ok tkHash (run_op digest op t)"
  using create_insert_ok RevokeHandler_ok touch_ok
  by (cases op) (auto simp: CreateHandler_def split: sum.split prod.split option.split dest: create_insert_ok,
      metis create_insert_ok snd_conv, metis create_insert_ok snd_conv)

lemma run_op_count:
  "op_time op \<le> now \<Longrightarrow> active_count u now (run_op digest op t) \<le> max (active_count u now t) maxActiveTokens"
  using CreateHandler_count RevokeHandler_count touch_count
  by (cases op) (auto intro: le_max_iff_disj [THEN iffD2])

subsection \<open>Properties\<close>

text \<open>The token limit, one request after another: whatever sequence of create, revoke and touch
  requests ran to completion one at a time since the table was empty, with any faults, no user has
  more than 10 active tokens at any time from the last request on.\<close>

theorem sequential_requests_keep_limit:
  assumes "\<forall>op \<in> set ops. op_time op \<le> now"
  shows "active_count user now (fold (run_op digest) ops empty_table) \<le> 10 \<and>
    table_ok tkHash (fold (run_op digest) ops empty_table)"
proof -
  have "active_count user now (fold (run_op digest) ops t) \<le> 10 \<and> table_ok tkHash (fold (run_op digest) ops t)"
    if "active_count user now t \<le> 10" "table_ok tkHash t" for t
    using assms that
  proof (induction ops arbitrary: t)
    case (Cons op ops)
    have "active_count user now (run_op digest op t) \<le> 10"
      using run_op_count [of op now user digest t] Cons.prems by (simp add: maxActiveTokens_def)
    with Cons show ?case by (simp add: run_op_ok)
  qed simp
  moreover have "active_count user now empty_table = 0" by (simp add: active_count_def empty_table_def)
  ultimately show ?thesis by simp
qed

theorem sequential_requests_keep_limit_witness:
  "active_count ''ann'' 100 (fold (run_op (\<lambda>s. s))
     [CreateOp 5 7 7 ''ann'' (Some (JObj [(''name'', JStr ''ci'')])) (Some (replicate 32 0)) (\<lambda>_. False),
      RevokeOp False 9 ''ann'' ''1''] empty_table) \<le> 10"
  using sequential_requests_keep_limit [of
     "[CreateOp 5 7 7 ''ann'' (Some (JObj [(''name'', JStr ''ci'')])) (Some (replicate 32 0)) (\<lambda>_. False),
       RevokeOp False 9 ''ann'' ''1'']" 100 "''ann''" "\<lambda>s. s"]
  by simp

text \<open>The limit does not hold for concurrent requests: the count and the INSERT are two statements,
  so two requests of a user with 9 active tokens that both count before either inserts both succeed
  and leave 11.\<close>

theorem concurrent_creates_pass_limit:
  assumes "active_count user now t = 9"
    and "create_check digest f1 clock1 now t user body1 raw1 = Inr (nm1, ex1, tok1)"
    and "create_check digest f2 clock2 now t user body2 raw2 = Inr (nm2, ex2, tok2)"
    and "ttHash tok1 \<noteq> ttHash tok2"
    and "\<forall>ir \<in> set (rows t). tkHash (snd ir) \<notin> {ttHash tok1, ttHash tok2}"
    and "now \<le> clock1" and "now \<le> clock2"
  shows "\<exists>i1 i2 t1 t2. create_insert False now1 user (nm1, ex1, tok1) t = (Some i1, t1) \<and>
    create_insert False now2 user (nm2, ex2, tok2) t1 = (Some i2, t2) \<and>
    active_count user now t2 = 11"
proof -
  obtain i1 t1 where i1: "create_insert False now1 user (nm1, ex1, tok1) t = (Some i1, t1)"
      and hashes: "\<forall>ir \<in> set (rows t1). tkHash (snd ir) \<noteq> ttHash tok2"
    using assms(4,5) by (auto simp: create_insert_def list_ex_iff)
  obtain i2 t2 where i2: "create_insert False now2 user (nm2, ex2, tok2) t1 = (Some i2, t2)"
    using hashes by (auto simp: create_insert_def list_ex_iff)
  have "case ex1 of None \<Rightarrow> True | Some x \<Rightarrow> x > now" "case ex2 of None \<Rightarrow> True | Some x \<Rightarrow> x > now"
    using create_check_Inr [OF assms(2)] create_check_Inr [OF assms(3)] assms(6,7)
    by (auto split: option.splits)
  then have "active_count user now t2 = 11"
    using active_count_insert [of user now False now1 user nm1 ex1 tok1 t]
      active_count_insert [of user now False now2 user nm2 ex2 tok2 t1] i1 i2 assms(1) by simp
  with i1 i2 show ?thesis by blast
qed

definition nine_tokens :: "token_row table" where
  "nine_tokens = \<lparr>rows = map (\<lambda>i. (int i, \<lparr>tkUser = ''ann'', tkName = ''t'', tkHash = dec_text i, tkHint = [],
     tkCreated = 0, tkExpires = None, tkLastUsed = None, tkRevoked = None\<rparr>)) [1, 2, 3, 4, 5, 6, 7, 8, 9],
     next_id = 10\<rparr>"

definition never_body :: "json option" where
  "never_body = Some (JObj [(''name'', JStr ''ci''), (''expires_days'', JNum 0)])"

lemma TrimSpace_ci: "TrimSpace ''ci'' = ''ci''"
  by (rule TrimSpace_plain) simp_all

lemma never_check:
  "create_check (\<lambda>s. s) False 5 5 nine_tokens ''ann'' never_body (Some bs) =
     Inr (''ci'', None, \<lparr>ttPlain = ''pfk_'' @ b64_encode bs, ttHash = ''pfk_'' @ b64_encode bs,
       ttHint = take 8 (''pfk_'' @ b64_encode bs) @ ellipsis\<rparr>)"
proof -
  have "decode_create never_body = Some \<lparr>crName = ''ci'', crExpiresDays = Some 0\<rparr>"
    by (simp add: decode_create_def never_body_def unmarshal_struct_def store_create_def key_is_def int_ptr_def)
  moreover have "active_count ''ann'' 5 nine_tokens = 9"
    by (simp add: active_count_def nine_tokens_def live_def)
  ultimately show ?thesis
    by (simp add: create_check_def TrimSpace_ci maxTokenNameLen_def maxExpiryDays_def maxActiveTokens_def
        generateToken_def Let_def apiTokenPrefix_def)
qed

theorem concurrent_creates_pass_limit_witness:
  "\<exists>i1 i2 t1 t2 p1 p2. create_check (\<lambda>s. s) False 5 5 nine_tokens ''ann'' never_body (Some [1]) = Inr p1 \<and>
     create_check (\<lambda>s. s) False 5 5 nine_tokens ''ann'' never_body (Some [2]) = Inr p2 \<and>
     create_insert False 6 ''ann'' p1 nine_tokens = (Some i1, t1) \<and>
     create_insert False 6 ''ann'' p2 t1 = (Some i2, t2) \<and> active_count ''ann'' 5 t2 = 11"
proof -
  have nine: "active_count ''ann'' 5 nine_tokens = 9"
    by (simp add: active_count_def nine_tokens_def live_def)
  have texts: "b64_encode [1] = ''AQ''" "b64_encode [2] = ''Ag''"
    by (simp_all add: Let_def b64_char_def)
  have digits: "dec_text i \<noteq> CHR ''p'' # s" for i s
    using dec_text_digits [of "CHR ''p''" i] by (auto simp: is_digit_def)
  have fresh: "\<forall>ir \<in> set (rows nine_tokens). tkHash (snd ir) \<notin> {''pfk_AQ'', ''pfk_Ag''}"
    by (simp add: nine_tokens_def digits)
  note checks = never_check [of "[1]"] never_check [of "[2]"]
  have "\<exists>i1 i2 t1 t2.
      create_insert False 6 ''ann'' (''ci'', None, \<lparr>ttPlain = ''pfk_'' @ b64_encode [1],
        ttHash = ''pfk_'' @ b64_encode [1], ttHint = take 8 (''pfk_'' @ b64_encode [1]) @ ellipsis\<rparr>)
        nine_tokens = (Some i1, t1) \<and>
      create_insert False 6 ''ann'' (''ci'', None, \<lparr>ttPlain = ''pfk_'' @ b64_encode [2],
        ttHash = ''pfk_'' @ b64_encode [2], ttHint = take 8 (''pfk_'' @ b64_encode [2]) @ ellipsis\<rparr>)
        t1 = (Some i2, t2) \<and> active_count ''ann'' 5 t2 = 11"
    by (rule concurrent_creates_pass_limit [OF nine checks])
       (use fresh in \<open>simp_all add: texts del: b64_encode.simps\<close>)
  then show ?thesis using checks by blast
qed

text \<open>The life of a token: a token whose creation was answered with 201 authenticates its owner under
  its id from then on until it expires, and not after; its name has 1 to 100 bytes and its expiry, if
  any, lies at most 730 days after the clock; every other text that hashes differently authenticates
  as before.\<close>

theorem created_token_authenticates:
  assumes "table_ok tkHash t"
    and "CreateHandler digest q_fails clock now1 now2 user body raw t = (Reply st resp, t')"
  shows "st = 201 \<and> table_ok tkHash t' \<and>
    LookupToken digest False now t' (cpToken resp) =
      (if (case cpExpires resp of None \<Rightarrow> True | Some x \<Rightarrow> now < x) then Inr (cpID resp, user) else Inl NoRows) \<and>
    cpName resp \<noteq> [] \<and> length (cpName resp) \<le> 100 \<and>
    (case cpExpires resp of None \<Rightarrow> True | Some x \<Rightarrow> clock < x \<and> x \<le> clock + 730 * 86400000) \<and>
    (digest p = digest (cpToken resp) \<or> LookupToken digest False now t' p = LookupToken digest False now t p)"
proof -
  obtain nm ex tok where chk: "create_check digest (q_fails 0) clock now1 t user body raw = Inr (nm, ex, tok)"
    using assms(2) by (cases "create_check digest (q_fails 0) clock now1 t user body raw")
      (auto simp: CreateHandler_def)
  have tok: "ttHash tok = digest (ttPlain tok)"
    using create_check_Inr [OF chk] by (auto simp: generateToken_def Let_def split: option.splits)
  have ins: "create_insert (q_fails 1) now2 user (nm, ex, tok) t = (Some (cpID resp), t')"
    and resp: "st = 201" "cpToken resp = ttPlain tok" "cpExpires resp = ex" "cpName resp = nm"
    using assms(2) chk by (auto simp: CreateHandler_def split: prod.splits option.splits)
  have ok': "table_ok tkHash t'"
    using create_insert_ok [OF assms(1), of "q_fails 1" now2 user "(nm, ex, tok)"] ins by simp
  define new where "new = \<lparr>tkUser = user, tkName = nm, tkHash = ttHash tok, tkHint = ttHint tok,
    tkCreated = now2, tkExpires = ex, tkLastUsed = None, tkRevoked = None\<rparr>"
  have rows: "rows t' = rows t @ [(cpID resp, new)]"
    and fresh: "\<forall>ir \<in> set (rows t). tkHash (snd ir) \<noteq> ttHash tok"
    using ins by (auto simp: create_insert_def new_def list_ex_iff split: if_splits)
  have none: "find (\<lambda>ir. tkHash (snd ir) = ttHash tok \<and> live now (snd ir)) (rows t) = None"
    using fresh by (auto simp: find_None_iff)
  have "LookupToken digest False now t' (cpToken resp) =
      (if live now new then Inr (cpID resp, user) else Inl NoRows)"
    using none by (simp add: LookupToken_def resp tok [symmetric] rows find_snoc new_def)
  moreover have "LookupToken digest False now t' p = LookupToken digest False now t p"
    if "digest p \<noteq> digest (cpToken resp)"
    using that by (simp add: LookupToken_def resp tok [symmetric] rows find_snoc new_def
        split: option.split)
  moreover have "live now new = (case ex of None \<Rightarrow> True | Some x \<Rightarrow> now < x)"
    by (simp add: live_def new_def)
  ultimately show ?thesis
    using ok' resp create_check_Inr [OF chk] by auto
qed

theorem created_token_authenticates_witness:
  "\<exists>resp t'. CreateHandler (\<lambda>s. s) (\<lambda>_. False) 5 5 6 ''ann'' never_body (Some [1]) nine_tokens =
     (Reply 201 resp, t') \<and> LookupToken (\<lambda>s. s) False 99 t' (cpToken resp) = Inr (10, ''ann'')"
proof -
  have digits: "dec_text i \<noteq> CHR ''p'' # s" for i s
    using dec_text_digits [of "CHR ''p''" i] by (auto simp: is_digit_def)
  have ids: "table_ok tkHash nine_tokens"
    by (simp add: nine_tokens_def table_ok_def dec_text_inj)
  have fresh: "\<not> list_ex (\<lambda>ir. tkHash (snd ir) = CHR ''p'' # s) (rows nine_tokens)"
      "next_id nine_tokens = 10" for s
    by (simp_all add: nine_tokens_def digits)
  obtain resp t' where run: "CreateHandler (\<lambda>s. s) (\<lambda>_. False) 5 5 6 ''ann'' never_body (Some [1]) nine_tokens =
     (Reply 201 resp, t')" "cpID resp = 10" "cpExpires resp = None"
    by (simp add: CreateHandler_def never_check create_insert_def fresh)
  from created_token_authenticates [OF ids run(1), of 99] run show ?thesis by auto
qed

text \<open>Revocation: a 204 reply means that from then on no text authenticates under the id that was
  given, at any time; only that row changed, it belonged to the user and was not revoked. Any other
  reply leaves the table as it was, so no user can revoke the token of another.\<close>

theorem revoke_is_final:
  assumes "table_ok tkHash t" and "RevokeHandler fails now user idtext t = (rep, t')"
  shows "if rep = Reply 204 ()
    then (\<exists>r. (snd (ParseInt idtext), r) \<in> set (rows t) \<and> tkUser r = user \<and> tkRevoked r = None) \<and>
         (\<forall>p u now'. LookupToken digest False now' t' p \<noteq> Inr (snd (ParseInt idtext), u)) \<and>
         (\<forall>ir. fst ir \<noteq> snd (ParseInt idtext) \<longrightarrow> ir \<in> set (rows t') \<longleftrightarrow> ir \<in> set (rows t))
    else t' = t"
proof (cases "rep = Reply 204 ()")
  case False
  then show ?thesis
    using assms(2) by (auto simp: RevokeHandler_def Let_def split: prod.splits if_splits)
next
  case True
  obtain err i where pi: "ParseInt idtext = (err, i)" by fastforce
  let ?hit = "\<lambda>ir. fst ir = i \<and> tkUser (snd ir) = user \<and> tkRevoked (snd ir) = None"
  let ?f = "\<lambda>ir. if ?hit ir then (fst ir, (snd ir)\<lparr>tkRevoked := Some now\<rparr>) else ir"
  from assms(2) True have hit: "list_ex ?hit (rows t)" and t': "t' = t\<lparr>rows := map ?f (rows t)\<rparr>"
    by (auto simp: RevokeHandler_def Let_def pi split: if_splits)
  from hit obtain r where r: "(i, r) \<in> set (rows t)" "tkUser r = user" "tkRevoked r = None"
    by (auto simp: list_ex_iff)
  have dead: "tkRevoked r' \<noteq> None" if "(i, r') \<in> set (rows t')" for r'
  proof -
    from that t' obtain jr where jr: "jr \<in> set (rows t)" "?f jr = (i, r')" by auto
    then have "fst jr = i" by (auto split: if_splits)
    with jr(1) r(1) assms(1) have "jr = (i, r)"
      by (metis eq_key_imp_eq_value prod.collapse table_ok_def)
    with jr(2) r show ?thesis by auto
  qed
  have ok': "table_ok tkHash t'"
    using RevokeHandler_ok [OF assms(1), of fails now user idtext] assms(2) by simp
  have "LookupToken digest False now' t' p \<noteq> Inr (i, u)" for p u now'
    using dead by (auto simp: LookupToken_Inr [OF ok'] live_def)
  moreover have "ir \<in> set (rows t') \<longleftrightarrow> ir \<in> set (rows t)" if "fst ir \<noteq> i" for ir
    using that by (auto simp: t' image_iff split: if_splits)
  ultimately show ?thesis using True r by (auto simp: pi)
qed

theorem revoke_is_final_witness:
  "\<exists>t'. RevokeHandler False 50 ''ann'' ''3'' nine_tokens = (Reply 204 (), t') \<and>
     LookupToken (\<lambda>s. s) False 60 t' ''3'' \<noteq> Inr (3, ''ann'')"
proof -
  have ids: "table_ok tkHash nine_tokens"
    by (simp add: nine_tokens_def table_ok_def dec_text_inj)
  have three: "ParseInt ''3'' = (NumOk, 3)"
    by (simp add: ParseInt_def ParseUint_def is_digit_def digit_val_def)
  obtain t' where run: "RevokeHandler False 50 ''ann'' ''3'' nine_tokens = (Reply 204 (), t')"
    by (simp add: RevokeHandler_def three nine_tokens_def)
  from revoke_is_final [OF ids run, of "\<lambda>s. s"] run three show ?thesis by auto
qed

text \<open>The gate of the data endpoints: a request that presents a \<open>pfk_\<close> bearer token is served exactly
  when the look-up works and the token is live, gets 500 exactly when the look-up fails, and 401
  otherwise, and never reaches the SAML check; any other request is served at once only when SAML is
  off.\<close>

theorem bearer_gate:
  "BearerOrSAML digest fails now t saml auth =
     (let tok = TrimSpace (trim_prefix auth ''Bearer '') in
      if has_prefix auth ''Bearer '' \<and> has_prefix tok apiTokenPrefix
      then (if fails then Refuse 500
            else if \<exists>i r. (i, r) \<in> set (rows t) \<and> tkHash r = digest tok \<and> live now r then Serve
            else Refuse 401)
      else if saml then RequireAccount else Serve)"
proof -
  have look: "LookupToken digest fails now t tok =
      (if fails then Inl DbError
       else case find (\<lambda>ir. tkHash (snd ir) = digest tok \<and> live now (snd ir)) (rows t) of
              None \<Rightarrow> Inl NoRows | Some (i, r) \<Rightarrow> Inr (i, tkUser r))" for tok
    by (simp add: LookupToken_def Let_def)
  have found: "(\<exists>i r. (i, r) \<in> set (rows t) \<and> tkHash r = digest tok \<and> live now r) \<longleftrightarrow>
      find (\<lambda>ir. tkHash (snd ir) = digest tok \<and> live now (snd ir)) (rows t) \<noteq> None" for tok
    by (auto simp: find_None_iff)
  show ?thesis
    unfolding BearerOrSAML_def Let_def look found by (auto split: option.split)
qed

text \<open>Token texts: from 32 random bytes the token is \<open>pfk_\<close> and 43 characters that are safe in URLs
  and headers, two different draws never give the same token, and the hint shows 4 of its characters.\<close>

theorem token_text_injective:
  assumes "length bs = 32" and "length bs' = 32"
    and "generateToken digest (Some bs) = Some tok" and "generateToken digest (Some bs') = Some tok'"
  shows "(ttPlain tok = ttPlain tok' \<longleftrightarrow> bs = bs') \<and> length (ttPlain tok) = 47 \<and>
    set (drop 4 (ttPlain tok)) \<subseteq> b64_alphabet \<and> ttHint tok = take 8 (ttPlain tok) @ ellipsis"
  using assms b64_inj [of bs bs'] b64_length [of bs] b64_chars [of bs]
  by (auto simp: generateToken_def Let_def apiTokenPrefix_def)

theorem token_text_injective_witness:
  "map_option (\<lambda>tok. length (ttPlain tok)) (generateToken (\<lambda>s. s) (Some (replicate 32 7))) = Some 47"
proof -
  obtain tok where tok: "generateToken (\<lambda>s. s) (Some (replicate 32 7)) = Some tok"
    by (simp add: generateToken_def Let_def)
  from token_text_injective [OF length_replicate length_replicate tok tok] tok show ?thesis by simp
qed

end
