(* ===== verification/Webapp.thy ===== *)
theory Webapp imports ApiDoc Tokens begin

text \<open>
  The shell of the web application: \<open>webapp/main.go\<close>, the role check of \<open>saml.go\<close>, and what each
  module registers (\<open>Routes\<close>, \<open>NavLinks\<close> in \<open>module.go\<close>). A handler is a function of the request and
  of the session in its context; \<open>Answer\<close> says that the request reached an endpoint. The routing is
  that of \<open>http.ServeMux\<close> (Go 1.22): the method first, then the most specific path. The SAML library is
  a parameter: \<open>evRequire\<close> is its \<open>RequireAccount\<close>, \<open>evSlo\<close> the logout URL of the identity provider.
\<close>

subsection \<open>Requests and answers\<close>

text \<open>
  A session: the subject when it is a \<open>JWTSessionClaims\<close>, the attributes when it is a
  \<open>SessionWithAttributes\<close>. \<open>rqSession\<close> is the session the cookie of the request identifies.
  \<open>rqPath\<close> holds the decoded segments of the cleaned path and whether it ends in a slash.
\<close>

record session =
  seSubject :: "string option"
  seAttributes :: "(string \<Rightarrow> string list) option"

record request =
  rqMethod :: string
  rqPath :: "string list \<times> bool"
  rqAuth :: string
  rqSession :: "session option"

record nav_link =
  nlLabel :: string
  nlHref :: string
  nlAdminOnly :: bool
  nlNewTab :: bool
  nlHeader :: bool

datatype endpoint =
    IndexPage "nav_link list" "nav_link list"
  | Me string
  | SearchApi | PortApi | LookupApi | VlansApi | RdnsApi
  | DbviewPage | InspectApi | TableApi
  | TokensPage | ListTokens string | CreateToken string | RevokeToken string string
  | SwaggerPage | SpecDoc

datatype outcome =
    Answer endpoint
  | Refused nat
  | Login                         \<comment> \<open>the middleware starts the SAML flow\<close>
  | SamlService                   \<comment> \<open>the endpoints of the SAML middleware itself\<close>
  | Redirected string bool        \<comment> \<open>target, and whether the session was deleted\<close>
  | NotFound

type_synonym handler = "request \<Rightarrow> session option \<Rightarrow> outcome"

subsection \<open>Identity and roles\<close>

text \<open>\<open>samlsp.AttributeFromContext\<close> and the subject of the session claims.\<close>

definition ctx_attr :: "session option \<Rightarrow> string \<Rightarrow> string" where
  "ctx_attr ctx a =
     (case Option.bind ctx seAttributes of
        None \<Rightarrow> []
      | Some f \<Rightarrow> (case f a of [] \<Rightarrow> [] | v # _ \<Rightarrow> v))"

definition ctx_user :: "session option \<Rightarrow> string" where
  "ctx_user ctx = SAMLUser (ctx_attr ctx) (Option.bind ctx seSubject)"

definition roleClaimNames :: "string list" where
  "roleClaimNames = [''http://schemas.microsoft.com/ws/2008/06/identity/claims/role'', ''roles'', ''role'']"

definition hasAdminRole :: "session option \<Rightarrow> bool \<Rightarrow> string \<Rightarrow> bool" where
  "hasAdminRole ctx samlEnabled adminRole =
     (if \<not> samlEnabled \<or> adminRole = [] then True
      else case Option.bind ctx seAttributes of
             None \<Rightarrow> False
           | Some attrs \<Rightarrow> list_ex (\<lambda>name. list_ex (\<lambda>v. v = adminRole) (attrs name)) roleClaimNames)"

subsection \<open>The wrappers\<close>

text \<open>The configuration read from the environment, and what a request meets.\<close>

record config =
  cfSaml :: bool
  cfAdminRole :: string
  cfDbview :: bool

record env =
  evDigest :: "string \<Rightarrow> string"
  evDbFails :: bool
  evNow :: instant
  evTokens :: "token_row table"
  evRequire :: "handler \<Rightarrow> handler"
  evSlo :: "string \<Rightarrow> string option"

definition protect :: "config \<Rightarrow> env \<Rightarrow> handler \<Rightarrow> handler" where
  "protect cf ev h = (if \<not> cfSaml cf then h else evRequire ev h)"

definition isAdmin :: "config \<Rightarrow> session option \<Rightarrow> bool" where
  "isAdmin cf ctx = hasAdminRole ctx (cfSaml cf) (cfAdminRole cf)"

definition protectAdmin :: "config \<Rightarrow> env \<Rightarrow> handler \<Rightarrow> handler" where
  "protectAdmin cf ev h =
     protect cf ev (\<lambda>rq ctx. if \<not> isAdmin cf ctx then Refused 403 else h rq ctx)"

definition apiAuth :: "config \<Rightarrow> env \<Rightarrow> handler \<Rightarrow> handler" where
  "apiAuth cf ev h = (\<lambda>rq ctx.
     case BearerOrSAML (evDigest ev) (evDbFails ev) (evNow ev) (evTokens ev) (cfSaml cf) (rqAuth rq) of
       Serve \<Rightarrow> h rq ctx
     | RequireAccount \<Rightarrow> evRequire ev h rq ctx
     | Refuse c \<Rightarrow> Refused c)"

subsection \<open>What the modules register\<close>

definition endpoint_handler :: "endpoint \<Rightarrow> handler" where
  "endpoint_handler e = (\<lambda>rq ctx. Answer e)"

text \<open>\<open>r.PathValue("id")\<close>: the segment the wildcard of the pattern matched, the last of the path.\<close>

definition path_id :: "request \<Rightarrow> string" where
  "path_id rq = (if fst (rqPath rq) = [] then [] else last (fst (rqPath rq)))"

type_synonym wrapper = "handler \<Rightarrow> handler"

definition search_Routes :: "wrapper \<Rightarrow> wrapper \<Rightarrow> (string \<times> handler) list" where
  "search_Routes auth adminAuth = [(''/api/search'', auth (endpoint_handler SearchApi))]"

definition portinfo_Routes :: "wrapper \<Rightarrow> wrapper \<Rightarrow> (string \<times> handler) list" where
  "portinfo_Routes auth adminAuth = [(''/api/port'', auth (endpoint_handler PortApi))]"

definition portlookup_Routes :: "wrapper \<Rightarrow> wrapper \<Rightarrow> (string \<times> handler) list" where
  "portlookup_Routes auth adminAuth = [(''/api/portlookup'', auth (endpoint_handler LookupApi))]"

definition vlans_Routes :: "wrapper \<Rightarrow> wrapper \<Rightarrow> (string \<times> handler) list" where
  "vlans_Routes auth adminAuth = [(''/api/vlans'', auth (endpoint_handler VlansApi))]"

definition rdns_Routes :: "wrapper \<Rightarrow> wrapper \<Rightarrow> (string \<times> handler) list" where
  "rdns_Routes auth adminAuth = [(''/api/rdns'', auth (endpoint_handler RdnsApi))]"

definition dbview_Routes :: "wrapper \<Rightarrow> wrapper \<Rightarrow> (string \<times> handler) list" where
  "dbview_Routes auth adminAuth =
     [(''/dbview'', auth (endpoint_handler DbviewPage)),
      (''/api/db-inspect'', auth (endpoint_handler InspectApi)),
      (''/api/db-inspect-table'', auth (endpoint_handler TableApi))]"

definition tokens_Routes :: "wrapper \<Rightarrow> wrapper \<Rightarrow> (string \<times> handler) list" where
  "tokens_Routes auth adminAuth =
     [(''/tokens'', adminAuth (endpoint_handler TokensPage)),
      (''GET /api/tokens'', adminAuth (\<lambda>rq ctx. Answer (ListTokens (ctx_user ctx)))),
      (''POST /api/tokens'', adminAuth (\<lambda>rq ctx. Answer (CreateToken (ctx_user ctx)))),
      (''DELETE /api/tokens/{id}'', adminAuth (\<lambda>rq ctx. Answer (RevokeToken (ctx_user ctx) (path_id rq))))]"

definition swagger_Routes :: "wrapper \<Rightarrow> wrapper \<Rightarrow> (string \<times> handler) list" where
  "swagger_Routes auth adminAuth =
     [(''/swagger'', adminAuth (endpoint_handler SwaggerPage)),
      (''/api/openapi.json'', adminAuth (endpoint_handler SpecDoc))]"

lemmas module_routes [simp] = search_Routes_def portinfo_Routes_def portlookup_Routes_def vlans_Routes_def
  rdns_Routes_def dbview_Routes_def tokens_Routes_def swagger_Routes_def

fun Routes :: "module \<Rightarrow> wrapper \<Rightarrow> wrapper \<Rightarrow> (string \<times> handler) list" where
  "Routes Search auth adminAuth = search_Routes auth adminAuth"
| "Routes PortInfo auth adminAuth = portinfo_Routes auth adminAuth"
| "Routes PortLookup auth adminAuth = portlookup_Routes auth adminAuth"
| "Routes Vlans auth adminAuth = vlans_Routes auth adminAuth"
| "Routes Rdns auth adminAuth = rdns_Routes auth adminAuth"
| "Routes Dbview auth adminAuth = dbview_Routes auth adminAuth"
| "Routes Tokens auth adminAuth = tokens_Routes auth adminAuth"
| "Routes Swagger auth adminAuth = swagger_Routes auth adminAuth"

definition dbview_NavLinks :: "nav_link list" where
  "dbview_NavLinks = [\<lparr>nlLabel = ''DB Inspector'', nlHref = ''/dbview'', nlAdminOnly = False, nlNewTab = False,
     nlHeader = True\<rparr>]"

definition tokens_NavLinks :: "nav_link list" where
  "tokens_NavLinks = [\<lparr>nlLabel = ''API Tokens'', nlHref = ''/tokens'', nlAdminOnly = True, nlNewTab = False,
     nlHeader = False\<rparr>]"

definition swagger_NavLinks :: "nav_link list" where
  "swagger_NavLinks = [\<lparr>nlLabel = ''API Docs'', nlHref = ''/swagger'', nlAdminOnly = True, nlNewTab = True,
     nlHeader = False\<rparr>]"

lemmas module_links [simp] = dbview_NavLinks_def tokens_NavLinks_def swagger_NavLinks_def

text \<open>The other modules contribute no link.\<close>

fun NavLinks :: "module \<Rightarrow> nav_link list" where
  "NavLinks Dbview = dbview_NavLinks"
| "NavLinks Tokens = tokens_NavLinks"
| "NavLinks Swagger = swagger_NavLinks"
| "NavLinks _ = []"

definition infraModules :: "module list" where
  "infraModules = [Tokens, Swagger]"

definition allNavLinks :: "config \<Rightarrow> nav_link list" where
  "allNavLinks cf = concat (map NavLinks (dataModules (cfDbview cf) @ infraModules))"

subsection \<open>The handlers of the shell\<close>

definition index_handler :: "config \<Rightarrow> handler" where
  "index_handler cf = (\<lambda>rq ctx.
     let admin = isAdmin cf ctx;
         links = filter (\<lambda>link. \<not> (nlAdminOnly link \<and> \<not> admin)) (allNavLinks cf)
     in Answer (IndexPage (filter nlHeader links) (filter (\<lambda>link. \<not> nlHeader link) links)))"

definition me_handler :: handler where
  "me_handler = (\<lambda>rq ctx. Answer (Me (ctx_user ctx)))"

text \<open>The identity provider is asked to log out when it has a redirect binding and the URL can be made.\<close>

definition logout_handler :: "config \<Rightarrow> env \<Rightarrow> handler" where
  "logout_handler cf ev = (\<lambda>rq ctx.
     if \<not> cfSaml cf then Redirected ''/'' False
     else
       let nameID = (case Option.bind ctx seSubject of None \<Rightarrow> [] | Some s \<Rightarrow> s) in
       if nameID \<noteq> [] then
         (case evSlo ev nameID of Some u \<Rightarrow> Redirected u True | None \<Rightarrow> Redirected ''/'' True)
       else Redirected ''/'' True)"

definition app_routes :: "config \<Rightarrow> env \<Rightarrow> (string \<times> handler) list" where
  "app_routes cf ev =
     (if cfSaml cf then [(''/saml/'', \<lambda>rq ctx. SamlService)] else []) @
     [(''/'', protect cf ev (index_handler cf)),
      (''/api/me'', protect cf ev me_handler),
      (''/logout'', protect cf ev (logout_handler cf ev))] @
     concat (map (\<lambda>m. Routes m (apiAuth cf ev) (protectAdmin cf ev)) (dataModules (cfDbview cf))) @
     concat (map (\<lambda>m. Routes m (protect cf ev) (protectAdmin cf ev)) infraModules)"


subsection \<open>Routing\<close>

datatype seg = Lit string | Wild | Multi

fun split_slash :: "string \<Rightarrow> string \<Rightarrow> string list" where
  "split_slash acc [] = [acc]"
| "split_slash acc (c # s) = (if c = CHR ''/'' then acc # split_slash [] s else split_slash (acc @ [c]) s)"

text \<open>A pattern is an optional method and a path; a final slash matches every path below it.\<close>

definition seg_of :: "string \<Rightarrow> seg" where
  "seg_of s = (if s = [] then Multi else if hd s = CHR ''{'' then Wild else Lit s)"

definition pattern_method :: "string \<Rightarrow> string" where
  "pattern_method p = (if CHR '' '' \<in> set p then takeWhile (\<lambda>c. c \<noteq> CHR '' '') p else [])"

definition pattern_segs :: "string \<Rightarrow> seg list" where
  "pattern_segs p = map seg_of (tl (split_slash [] (dropWhile (\<lambda>c. c \<noteq> CHR ''/'') p)))"

fun seg_match :: "seg list \<Rightarrow> string list \<Rightarrow> bool \<Rightarrow> bool" where
  "seg_match [] ss tr \<longleftrightarrow> ss = [] \<and> \<not> tr"
| "seg_match (Multi # ps) ss tr \<longleftrightarrow> ss \<noteq> [] \<or> tr"
| "seg_match (Lit a # ps) (s # ss) tr \<longleftrightarrow> a = s \<and> seg_match ps ss tr"
| "seg_match (Wild # ps) (s # ss) tr \<longleftrightarrow> seg_match ps ss tr"
| "seg_match _ [] tr \<longleftrightarrow> False"

fun seg_rank :: "seg \<Rightarrow> nat" where
  "seg_rank (Lit a) = 0" | "seg_rank Wild = 1" | "seg_rank Multi = 2"

fun more_specific :: "seg list \<Rightarrow> seg list \<Rightarrow> bool" where
  "more_specific (p # ps) (q # qs) \<longleftrightarrow>
     seg_rank p < seg_rank q \<or> seg_rank p = seg_rank q \<and> more_specific ps qs"
| "more_specific _ _ \<longleftrightarrow> False"

definition best_route ::
    "(string \<times> handler) list \<Rightarrow> string \<Rightarrow> string list \<times> bool \<Rightarrow> (string \<times> handler) option" where
  "best_route rs meth path =
     first_best (\<lambda>x y. more_specific (pattern_segs (fst x)) (pattern_segs (fst y)))
       (filter (\<lambda>r. pattern_method (fst r) = meth \<and> seg_match (pattern_segs (fst r)) (fst path) (snd path)) rs)"

text \<open>A pattern with the method wins over one without; HEAD falls back to GET.\<close>

definition find_route ::
    "(string \<times> handler) list \<Rightarrow> string \<Rightarrow> string list \<times> bool \<Rightarrow> (string \<times> handler) option" where
  "find_route rs meth path =
     (case best_route rs meth path of
        Some r \<Rightarrow> Some r
      | None \<Rightarrow>
          (case (if meth = ''HEAD'' then best_route rs ''GET'' path else None) of
             Some r \<Rightarrow> Some r
           | None \<Rightarrow> best_route rs [] path))"

definition exact_route :: "(string \<times> handler) option \<Rightarrow> string list \<times> bool \<Rightarrow> bool" where
  "exact_route r path =
     (case r of
        None \<Rightarrow> False
      | Some (p, h) \<Rightarrow>
          pattern_segs p = [] \<or> last (pattern_segs p) \<noteq> Multi \<or>
          snd path \<and> length (pattern_segs p) = length (fst path) + 1)"

definition path_text :: "string list \<Rightarrow> string" where
  "path_text ss = concat (map (\<lambda>s. ''/'' @ s) ss) @ ''/''"

text \<open>
  \<open>ServeMux.ServeHTTP\<close> on a cleaned path: when only a subtree pattern matches and the path with a
  slash is a pattern itself, the request is redirected there.
\<close>

definition ServeHTTP :: "config \<Rightarrow> env \<Rightarrow> request \<Rightarrow> outcome" where
  "ServeHTTP cf ev rq =
     (let rs = app_routes cf ev; path = rqPath rq;
          r = find_route rs (rqMethod rq) path; slashed = (fst path, True)
      in if \<not> exact_route r path \<and> \<not> snd path \<and>
            exact_route (find_route rs (rqMethod rq) slashed) slashed
         then Redirected (path_text (fst path)) False
         else case r of None \<Rightarrow> NotFound | Some (p, h) \<Rightarrow> h rq None)"

subsection \<open>Guards\<close>

text \<open>What the SAML library documents of \<open>RequireAccount\<close>.\<close>

definition requires_account :: "env \<Rightarrow> bool" where
  "requires_account ev \<longleftrightarrow>
     (\<forall>h rq ctx. evRequire ev h rq ctx =
        (case rqSession rq of None \<Rightarrow> Login | Some s \<Rightarrow> h rq (Some s)))"

definition token_holder :: "env \<Rightarrow> string \<Rightarrow> bool" where
  "token_holder ev auth \<longleftrightarrow>
     has_prefix auth ''Bearer '' \<and>
     (\<exists>r \<in> snd ` set (rows (evTokens ev)).
        tkHash r = evDigest ev (TrimSpace (trim_prefix auth ''Bearer '')) \<and> live (evNow ev) r)"

fun is_data :: "endpoint \<Rightarrow> bool" where
  "is_data SearchApi = True" | "is_data PortApi = True" | "is_data LookupApi = True"
| "is_data VlansApi = True" | "is_data RdnsApi = True" | "is_data DbviewPage = True"
| "is_data InspectApi = True" | "is_data TableApi = True" | "is_data _ = False"

fun is_admin_endpoint :: "endpoint \<Rightarrow> bool" where
  "is_admin_endpoint TokensPage = True" | "is_admin_endpoint (ListTokens u) = True"
| "is_admin_endpoint (CreateToken u) = True" | "is_admin_endpoint (RevokeToken u i) = True"
| "is_admin_endpoint SwaggerPage = True" | "is_admin_endpoint SpecDoc = True"
| "is_admin_endpoint _ = False"

lemma is_data_not_admin: "is_data e \<Longrightarrow> \<not> is_admin_endpoint e"
  by (cases e) simp_all

lemma find_route_mem: "find_route rs meth path = Some r \<Longrightarrow> r \<in> set rs"
  unfolding find_route_def best_route_def
  by (auto split: option.splits if_splits dest!: first_best_mem)

lemma ServeHTTP_handler:
  "ServeHTTP cf ev rq = Answer e \<Longrightarrow> \<exists>p h. (p, h) \<in> set (app_routes cf ev) \<and> h rq None = Answer e"
  unfolding ServeHTTP_def Let_def
  by (auto split: option.splits if_splits dest: find_route_mem)

lemma apiAuth_Answer:
  assumes "requires_account ev" and "apiAuth cf ev (endpoint_handler e0) rq None = Answer e" and "cfSaml cf"
  shows "e = e0 \<and> (rqSession rq \<noteq> None \<or> token_holder ev (rqAuth rq))"
proof -
  have serve: "token_holder ev (rqAuth rq)"
    if "BearerOrSAML (evDigest ev) (evDbFails ev) (evNow ev) (evTokens ev) True (rqAuth rq) = Serve"
    using that
    by (auto simp: BearerOrSAML_def token_holder_def LookupToken_def Let_def
        split: if_splits sum.splits option.splits dest!: find_Some_mem)
  show ?thesis
    using assms serve
    by (auto simp: apiAuth_def endpoint_handler_def requires_account_def
        split: gate.splits option.splits)
qed

lemma protect_Answer:
  assumes "requires_account ev" and "protect cf ev h rq None = Answer e" and "cfSaml cf"
  shows "\<exists>s. rqSession rq = Some s \<and> h rq (Some s) = Answer e"
  using assms by (auto simp: protect_def requires_account_def split: option.splits)

lemma protectAdmin_Answer:
  assumes "requires_account ev" and "protectAdmin cf ev h rq None = Answer e" and "cfSaml cf"
  shows "\<exists>s. rqSession rq = Some s \<and> hasAdminRole (Some s) True (cfAdminRole cf) \<and> h rq (Some s) = Answer e"
  using protect_Answer [OF assms(1) assms(2) [unfolded protectAdmin_def] assms(3)] assms(3)
  by (auto simp: isAdmin_def split: if_splits)


text \<open>Every route is one of four kinds, by the wrapper of its handler.\<close>

definition admin_handler :: "handler \<Rightarrow> bool" where
  "admin_handler g \<longleftrightarrow>
     (\<forall>rq ctx e. g rq ctx = Answer e \<longrightarrow>
        is_admin_endpoint e \<and> (\<forall>u i. e \<in> {ListTokens u, CreateToken u, RevokeToken u i} \<longrightarrow> u = ctx_user ctx))"

definition guarded :: "config \<Rightarrow> env \<Rightarrow> string \<times> handler \<Rightarrow> bool" where
  "guarded cf ev r \<longleftrightarrow>
     snd r = (\<lambda>rq ctx. SamlService) \<or>
     (\<exists>g. snd r = protect cf ev g \<and> (\<forall>rq ctx e. g rq ctx = Answer e \<longrightarrow> \<not> is_admin_endpoint e)) \<or>
     (\<exists>e. snd r = apiAuth cf ev (endpoint_handler e) \<and> is_data e) \<or>
     (\<exists>g. snd r = protectAdmin cf ev g \<and> admin_handler g)"

lemma guarded_kinds:
  "guarded cf ev (p, \<lambda>rq ctx. SamlService)"
  "(\<And>rq ctx e. g rq ctx = Answer e \<Longrightarrow> \<not> is_admin_endpoint e) \<Longrightarrow> guarded cf ev (p, protect cf ev g)"
  "is_data e \<Longrightarrow> guarded cf ev (p, apiAuth cf ev (endpoint_handler e))"
  "admin_handler g \<Longrightarrow> guarded cf ev (p, protectAdmin cf ev g)"
  unfolding guarded_def snd_conv by blast+

lemma guardedE:
  assumes "guarded cf ev (p, h)"
  obtains (saml) "h = (\<lambda>rq ctx. SamlService)"
    | (shell) g where "h = protect cf ev g" "\<And>rq ctx e. g rq ctx = Answer e \<Longrightarrow> \<not> is_admin_endpoint e"
    | (data) e where "h = apiAuth cf ev (endpoint_handler e)" "is_data e"
    | (admin) g where "h = protectAdmin cf ev g" "admin_handler g"
proof -
  from assms [unfolded guarded_def snd_conv] show thesis
  proof (elim disjE exE conjE)
    fix g assume "h = protect cf ev g" "\<forall>rq ctx e. g rq ctx = Answer e \<longrightarrow> \<not> is_admin_endpoint e"
    then show thesis by (intro shell) blast+
  qed (fact saml, rule data, assumption, assumption, rule admin, assumption, assumption)
qed

lemma admin_handlerD:
  assumes "admin_handler g" and "g rq ctx = Answer e"
  shows "\<forall>u i. e \<in> {ListTokens u, CreateToken u, RevokeToken u i} \<longrightarrow> u = ctx_user ctx"
proof -
  note assms(1) [unfolded admin_handler_def, THEN spec, THEN spec, THEN spec, THEN mp, OF assms(2)]
  then show ?thesis by (rule conjunct2)
qed

lemma admin_handlers:
  "admin_handler (endpoint_handler TokensPage)" "admin_handler (endpoint_handler SwaggerPage)"
  "admin_handler (endpoint_handler SpecDoc)"
  "admin_handler (\<lambda>rq ctx. Answer (ListTokens (ctx_user ctx)))"
  "admin_handler (\<lambda>rq ctx. Answer (CreateToken (ctx_user ctx)))"
  "admin_handler (\<lambda>rq ctx. Answer (RevokeToken (ctx_user ctx) (path_id rq)))"
  by (simp_all add: admin_handler_def endpoint_handler_def)

lemma shell_handlers:
  "index_handler cf rq ctx = Answer e \<Longrightarrow> \<not> is_admin_endpoint e"
  "me_handler rq ctx = Answer e \<Longrightarrow> \<not> is_admin_endpoint e"
  "logout_handler cf ev rq ctx = Answer e \<Longrightarrow> \<not> is_admin_endpoint e"
  by (auto simp: index_handler_def me_handler_def logout_handler_def Let_def split: if_splits option.splits)

lemma routes_guarded: "list_all (guarded cf ev) (app_routes cf ev)"
proof -
  have mods: "list_all (guarded cf ev) (Routes m (apiAuth cf ev) (protectAdmin cf ev))"
    if "m \<in> set (dataModules b)" for m b
    using that by (auto simp: dataModules_def intro!: guarded_kinds(3) split: if_splits)
  have infra: "list_all (guarded cf ev) (Routes m (protect cf ev) (protectAdmin cf ev))"
    if "m \<in> set infraModules" for m
    using that by (auto simp: infraModules_def intro!: guarded_kinds(4) admin_handlers)
  have shell: "list_all (guarded cf ev) ([(''/'', protect cf ev (index_handler cf)),
      (''/api/me'', protect cf ev me_handler), (''/logout'', protect cf ev (logout_handler cf ev))])"
    using guarded_kinds(2) shell_handlers by simp
  have "list_all (guarded cf ev) (concat (map f ms))" if "\<And>m. m \<in> set ms \<Longrightarrow> list_all (guarded cf ev) (f m)"
    for f and ms :: "module list"
    using that by (induction ms) simp_all
  note parts = this [OF mods] this [OF infra]
  show ?thesis
    unfolding app_routes_def list_all_append
    using guarded_kinds(1) shell parts by simp
qed

text \<open>C14. With SAML enabled nobody reaches an endpoint anonymously: a request that is answered by one has
  a session, or it carries a live API token and the endpoint is one of the data endpoints.\<close>

theorem endpoints_need_credentials:
  assumes "cfSaml cf" and "requires_account ev" and "ServeHTTP cf ev rq = Answer e"
  shows "rqSession rq \<noteq> None \<or> is_data e \<and> token_holder ev (rqAuth rq)"
proof -
  from ServeHTTP_handler [OF assms(3)] obtain p h
    where mem: "(p, h) \<in> set (app_routes cf ev)" and h: "h rq None = Answer e" by blast
  from routes_guarded [of cf ev] mem have "guarded cf ev (p, h)" by (auto simp: list_all_iff)
  then show ?thesis
  proof (cases rule: guardedE)
    case saml
    with h show ?thesis by simp
  next
    case (shell g)
    with protect_Answer [OF assms(2) _ assms(1), of g rq e] h show ?thesis by auto
  next
    case (data e0)
    with apiAuth_Answer [OF assms(2) _ assms(1), of e0 rq e] h show ?thesis by blast
  next
    case (admin g)
    with protectAdmin_Answer [OF assms(2) _ assms(1), of g rq e] h show ?thesis by auto
  qed
qed

lemma ServeHTTP_admin:
  assumes "cfSaml cf" and "requires_account ev" and "ServeHTTP cf ev rq = Answer e" and "is_admin_endpoint e"
  obtains s where "rqSession rq = Some s" "hasAdminRole (Some s) True (cfAdminRole cf)"
    "\<forall>u i. e \<in> {ListTokens u, CreateToken u, RevokeToken u i} \<longrightarrow> u = ctx_user (Some s)"
proof -
  from ServeHTTP_handler [OF assms(3)] obtain p h
    where mem: "(p, h) \<in> set (app_routes cf ev)" and h: "h rq None = Answer e" by blast
  from routes_guarded [of cf ev] mem have "guarded cf ev (p, h)" by (auto simp: list_all_iff)
  then obtain g where g: "h = protectAdmin cf ev g" "admin_handler g"
  proof (cases rule: guardedE)
    case saml
    with h show ?thesis by simp
  next
    case (shell g)
    with protect_Answer [OF assms(2) _ assms(1), of g rq e] h assms(4) show ?thesis by auto
  next
    case (data e0)
    with apiAuth_Answer [OF assms(2) _ assms(1), of e0 rq e] h assms(4) show ?thesis
      by (auto dest: is_data_not_admin)
  qed (rule that)
  from protectAdmin_Answer [OF assms(2) _ assms(1)] g(1) h obtain s
    where s: "rqSession rq = Some s" "hasAdminRole (Some s) True (cfAdminRole cf)" "g rq (Some s) = Answer e" by blast
  show thesis by (rule that [OF s(1,2) admin_handlerD [OF g(2) s(3)]])
qed

text \<open>C15. With SAML enabled the token pages, the token API and the documentation are reached by browser
  sessions only - a bearer token does not help - and, when an administrator role is configured, only by
  sessions that have it; the token API acts for the user of that session.\<close>

theorem admin_needs_role:
  assumes "cfSaml cf" and "requires_account ev" and "ServeHTTP cf ev rq = Answer e" and "is_admin_endpoint e"
  shows "\<exists>s. rqSession rq = Some s \<and>
    (cfAdminRole cf = [] \<or>
      (\<exists>attrs. seAttributes s = Some attrs \<and>
         (\<exists>name \<in> set roleClaimNames. cfAdminRole cf \<in> set (attrs name)))) \<and>
    (\<forall>u i. e \<in> {ListTokens u, CreateToken u, RevokeToken u i} \<longrightarrow> u = ctx_user (Some s))"
proof -
  from ServeHTTP_admin [OF assms] obtain s where s: "rqSession rq = Some s"
    "hasAdminRole (Some s) True (cfAdminRole cf)"
    "\<forall>u i. e \<in> {ListTokens u, CreateToken u, RevokeToken u i} \<longrightarrow> u = ctx_user (Some s)" .
  moreover from s(2) have "cfAdminRole cf = [] \<or> (\<exists>attrs. seAttributes s = Some attrs \<and>
         (\<exists>name \<in> set roleClaimNames. cfAdminRole cf \<in> set (attrs name)))"
    by (auto simp: hasAdminRole_def list_ex_iff split: if_splits option.splits)
  ultimately show ?thesis by blast
qed


subsection \<open>Where requests go\<close>

lemma route_patterns:
  "pattern_segs ''/saml/'' = [Lit ''saml'', Multi]" "pattern_method ''/saml/'' = []"
  "pattern_segs ''/'' = [Multi]" "pattern_method ''/'' = []"
  "pattern_segs ''/api/me'' = [Lit ''api'', Lit ''me'']" "pattern_method ''/api/me'' = []"
  "pattern_segs ''/logout'' = [Lit ''logout'']" "pattern_method ''/logout'' = []"
  "pattern_segs ''/api/search'' = [Lit ''api'', Lit ''search'']" "pattern_method ''/api/search'' = []"
  "pattern_segs ''/api/port'' = [Lit ''api'', Lit ''port'']" "pattern_method ''/api/port'' = []"
  "pattern_segs ''/api/portlookup'' = [Lit ''api'', Lit ''portlookup'']" "pattern_method ''/api/portlookup'' = []"
  "pattern_segs ''/api/vlans'' = [Lit ''api'', Lit ''vlans'']" "pattern_method ''/api/vlans'' = []"
  "pattern_segs ''/api/rdns'' = [Lit ''api'', Lit ''rdns'']" "pattern_method ''/api/rdns'' = []"
  "pattern_segs ''/dbview'' = [Lit ''dbview'']" "pattern_method ''/dbview'' = []"
  "pattern_segs ''/api/db-inspect'' = [Lit ''api'', Lit ''db-inspect'']" "pattern_method ''/api/db-inspect'' = []"
  "pattern_segs ''/api/db-inspect-table'' = [Lit ''api'', Lit ''db-inspect-table'']"
  "pattern_method ''/api/db-inspect-table'' = []"
  "pattern_segs ''/tokens'' = [Lit ''tokens'']" "pattern_method ''/tokens'' = []"
  "pattern_segs ''GET /api/tokens'' = [Lit ''api'', Lit ''tokens'']" "pattern_method ''GET /api/tokens'' = ''GET''"
  "pattern_segs ''POST /api/tokens'' = [Lit ''api'', Lit ''tokens'']"
  "pattern_method ''POST /api/tokens'' = ''POST''"
  "pattern_segs ''DELETE /api/tokens/{id}'' = [Lit ''api'', Lit ''tokens'', Wild]"
  "pattern_method ''DELETE /api/tokens/{id}'' = ''DELETE''"
  "pattern_segs ''/swagger'' = [Lit ''swagger'']" "pattern_method ''/swagger'' = []"
  "pattern_segs ''/api/openapi.json'' = [Lit ''api'', Lit ''openapi.json'']"
  "pattern_method ''/api/openapi.json'' = []"
  by (simp_all add: pattern_segs_def pattern_method_def seg_of_def)

lemmas routing = find_route_def best_route_def app_routes_def dataModules_def infraModules_def
  route_patterns first_best_def

lemma page_routes:
  "find_route (app_routes cf ev) m ([''api'', ''search''], False) =
     Some (''/api/search'', apiAuth cf ev (endpoint_handler SearchApi))"
  "find_route (app_routes cf ev) m ([''api'', ''port''], False) =
     Some (''/api/port'', apiAuth cf ev (endpoint_handler PortApi))"
  "find_route (app_routes cf ev) m ([''api'', ''portlookup''], False) =
     Some (''/api/portlookup'', apiAuth cf ev (endpoint_handler LookupApi))"
  "find_route (app_routes cf ev) m ([''api'', ''vlans''], False) =
     Some (''/api/vlans'', apiAuth cf ev (endpoint_handler VlansApi))"
  "find_route (app_routes cf ev) m ([''api'', ''rdns''], False) =
     Some (''/api/rdns'', apiAuth cf ev (endpoint_handler RdnsApi))"
  "cfDbview cf \<Longrightarrow> find_route (app_routes cf ev) m ([''dbview''], False) =
     Some (''/dbview'', apiAuth cf ev (endpoint_handler DbviewPage))"
  "find_route (app_routes cf ev) m ([''tokens''], False) =
     Some (''/tokens'', protectAdmin cf ev (endpoint_handler TokensPage))"
  "find_route (app_routes cf ev) m ([''swagger''], False) =
     Some (''/swagger'', protectAdmin cf ev (endpoint_handler SwaggerPage))"
  "find_route (app_routes cf ev) m ([], True) = Some (''/'', protect cf ev (index_handler cf))"
  by (simp_all add: routing)

lemma exact_routes:
  "exact_route (Some (''/api/search'', h)) path" "exact_route (Some (''/api/port'', h)) path"
  "exact_route (Some (''/api/portlookup'', h)) path" "exact_route (Some (''/api/vlans'', h)) path"
  "exact_route (Some (''/api/rdns'', h)) path" "exact_route (Some (''/dbview'', h)) path"
  "exact_route (Some (''/tokens'', h)) path" "exact_route (Some (''/swagger'', h)) path"
  by (simp_all add: exact_route_def route_patterns)

text \<open>The path of a request for a registered path.\<close>

definition path_of :: "string \<Rightarrow> string list \<times> bool" where
  "path_of p = (tl (split_slash [] p), False)"

lemma apiAuth_token:
  assumes "token_holder ev auth" and "has_prefix (TrimSpace (trim_prefix auth ''Bearer '')) apiTokenPrefix"
    and "\<not> evDbFails ev" and "rqAuth rq = auth"
  shows "apiAuth cf ev h rq ctx = h rq ctx"
proof -
  let ?hit = "\<lambda>ir. tkHash (snd ir) = evDigest ev (TrimSpace (trim_prefix auth ''Bearer '')) \<and> live (evNow ev) (snd ir)"
  from assms(1) obtain ir where "ir \<in> set (rows (evTokens ev))" "?hit ir"
    unfolding token_holder_def by blast
  then have "find ?hit (rows (evTokens ev)) \<noteq> None" unfolding find_None_iff by blast
  then obtain jr where "find ?hit (rows (evTokens ev)) = Some jr" by blast
  with assms show ?thesis
    by (cases jr) (simp add: apiAuth_def BearerOrSAML_def LookupToken_def token_holder_def Let_def)
qed

text \<open>The documented API is served to token holders: every path the OpenAPI document lists, and no
  other, has a data endpoint of its own, and a request for it with a live token reaches that endpoint
  whatever its method, with or without SAML.\<close>

theorem documented_paths_served:
  assumes "at [''paths'', p] (specJSON b) = Some ops"
    and "token_holder ev (rqAuth rq)" and "has_prefix (TrimSpace (trim_prefix (rqAuth rq) ''Bearer '')) apiTokenPrefix"
    and "\<not> evDbFails ev" and "rqPath rq = path_of p"
  shows "\<exists>e. (p, e) \<in> {(''/api/search'', SearchApi), (''/api/port'', PortApi), (''/api/portlookup'', LookupApi),
      (''/api/vlans'', VlansApi), (''/api/rdns'', RdnsApi)} \<and> ServeHTTP cf ev rq = Answer e"
proof -
  from assms(1) have "p \<in> set (map fst all_paths)"
    unfolding spec_paths by (force simp: at_Cons at_Nil split: option.splits dest: map_of_SomeD)
  note p = this [unfolded path_keys]
  have paths: "path_of ''/api/search'' = ([''api'', ''search''], False)" "path_of ''/api/port'' = ([''api'', ''port''], False)"
    "path_of ''/api/portlookup'' = ([''api'', ''portlookup''], False)" "path_of ''/api/vlans'' = ([''api'', ''vlans''], False)"
    "path_of ''/api/rdns'' = ([''api'', ''rdns''], False)"
    by (simp_all add: path_of_def)
  have served: "ServeHTTP cf ev rq = Answer e"
    if "find_route (app_routes cf ev) (rqMethod rq) (rqPath rq) = Some (q, apiAuth cf ev (endpoint_handler e))"
      and "exact_route (Some (q, apiAuth cf ev (endpoint_handler e))) (rqPath rq)" for q e
    using that apiAuth_token [OF assms(2-4) refl, of cf "endpoint_handler e" None]
    by (simp add: ServeHTTP_def Let_def endpoint_handler_def)
  from p consider "p = ''/api/search''" | "p = ''/api/port''" | "p = ''/api/portlookup''" | "p = ''/api/vlans''"
    | "p = ''/api/rdns''" by auto
  then show ?thesis
    using assms(5) by cases (simp_all add: paths page_routes exact_routes served)
qed

text \<open>The navigation shows what can be opened: the index page lists a link exactly when opening it
  with the same session answers with its page, and every link it hides is refused with 403.\<close>

theorem nav_links_match_access:
  assumes "requires_account ev" and "cfSaml cf \<Longrightarrow> rqSession rq \<noteq> None"
    and "\<not> has_prefix (rqAuth rq) ''Bearer ''" and "rqPath rq = ([], True)"
  shows "\<exists>header menu. ServeHTTP cf ev rq = Answer (IndexPage header menu) \<and>
    set header \<subseteq> set (allNavLinks cf) \<and> set menu \<subseteq> set (allNavLinks cf) \<and>
    (\<forall>link \<in> set (allNavLinks cf).
       ServeHTTP cf ev (rq\<lparr>rqPath := path_of (nlHref link)\<rparr>) =
         (if link \<in> set header \<union> set menu
          then Answer (if nlHref link = ''/dbview'' then DbviewPage
                       else if nlHref link = ''/tokens'' then TokensPage else SwaggerPage)
          else Refused 403))"
proof -
  let ?ctx = "if cfSaml cf then rqSession rq else None"
  let ?admin = "isAdmin cf ?ctx"
  have prot: "protect cf ev h rq' None = h rq' ?ctx" if "rqSession rq' = rqSession rq" for h rq'
    using assms(1,2) that by (auto simp: protect_def requires_account_def split: option.splits)
  have api: "apiAuth cf ev (endpoint_handler e) rq' None = Answer e"
    if "rqSession rq' = rqSession rq" "rqAuth rq' = rqAuth rq" for e rq'
    using assms(1-3) that
    by (auto simp: apiAuth_def BearerOrSAML_def endpoint_handler_def requires_account_def split: option.splits)
  have paths: "path_of ''/dbview'' = ([''dbview''], False)" "path_of ''/tokens'' = ([''tokens''], False)"
    "path_of ''/swagger'' = ([''swagger''], False)"
    by (simp_all add: path_of_def)
  let ?links = "filter (\<lambda>link. \<not> (nlAdminOnly link \<and> \<not> ?admin)) (allNavLinks cf)"
  have index: "ServeHTTP cf ev rq = Answer (IndexPage (filter nlHeader ?links) (filter (\<lambda>l. \<not> nlHeader l) ?links))"
    using assms(4) prot [of rq "index_handler cf"]
    by (simp add: ServeHTTP_def page_routes exact_route_def route_patterns index_handler_def Let_def)
  have links: "set (allNavLinks cf) = (if cfDbview cf then set (NavLinks Dbview) else {}) \<union> set (NavLinks Tokens) \<union>
      set (NavLinks Swagger)"
    by (auto simp: allNavLinks_def dataModules_def infraModules_def)
  have opened: "ServeHTTP cf ev (rq\<lparr>rqPath := path_of (nlHref link)\<rparr>) =
      (if \<not> (nlAdminOnly link \<and> \<not> ?admin)
       then Answer (if nlHref link = ''/dbview'' then DbviewPage
                    else if nlHref link = ''/tokens'' then TokensPage else SwaggerPage)
       else Refused 403)" if l: "link \<in> set (allNavLinks cf)" for link
  proof -
    from l [unfolded links] consider
        "link \<in> set (NavLinks Dbview)" "cfDbview cf" | "link \<in> set (NavLinks Tokens)" | "link \<in> set (NavLinks Swagger)"
      by (auto split: if_splits)
    then show ?thesis
      by cases (simp_all add: ServeHTTP_def paths page_routes exact_routes api [unfolded endpoint_handler_def] prot protectAdmin_def
          endpoint_handler_def Let_def)
  qed
  have shown: "link \<in> set (filter nlHeader ?links) \<union> set (filter (\<lambda>l. \<not> nlHeader l) ?links) \<longleftrightarrow>
      \<not> (nlAdminOnly link \<and> \<not> ?admin)" if "link \<in> set (allNavLinks cf)" for link
    using that by auto
  show ?thesis
    by (intro exI [of _ "filter nlHeader ?links"] exI [of _ "filter (\<lambda>l. \<not> nlHeader l) ?links"] conjI ballI)
       (rule index, force, force, simp only: shown opened)
qed

text \<open>A request no pattern but the root matches is answered by the index page, not by 404 or 405: so is
  a PUT to the token API.\<close>

lemma wrong_method_is_index:
  assumes "rqMethod rq = ''PUT''" and "rqPath rq = ([''api'', ''tokens''], False)"
  shows "ServeHTTP cf ev rq = protect cf ev (index_handler cf) rq None"
  using assms by (simp add: ServeHTTP_def routing exact_route_def Let_def)

subsection \<open>Witnesses\<close>

text \<open>A browser session with the role \<open>netops\<close>, a live token, and the SAML middleware of the library.\<close>

definition netops :: session where
  "netops = \<lparr>seSubject = Some ''ann'', seAttributes = Some (\<lambda>a. if a = ''roles'' then [''netops''] else [])\<rparr>"

definition demo_env :: env where
  "demo_env = \<lparr>evDigest = (\<lambda>s. s), evDbFails = False, evNow = 5,
     evTokens = \<lparr>rows = [(1, \<lparr>tkUser = ''ann'', tkName = ''ci'', tkHash = ''pfk_x'', tkHint = [], tkCreated = 0,
       tkExpires = Some 10, tkLastUsed = None, tkRevoked = None\<rparr>)], next_id = 2\<rparr>,
     evRequire = (\<lambda>h rq ctx. case rqSession rq of None \<Rightarrow> Login | Some s \<Rightarrow> h rq (Some s)),
     evSlo = (\<lambda>_. None)\<rparr>"

definition demo_config :: config where
  "demo_config = \<lparr>cfSaml = True, cfAdminRole = ''netops'', cfDbview = True\<rparr>"

definition demo_request :: "string \<Rightarrow> string list \<Rightarrow> string \<Rightarrow> session option \<Rightarrow> request" where
  "demo_request m ss auth s = \<lparr>rqMethod = m, rqPath = (ss, ss = []), rqAuth = auth, rqSession = s\<rparr>"

lemma demo_requires: "requires_account demo_env"
  by (simp add: requires_account_def demo_env_def)

lemma demo_token: "TrimSpace (trim_prefix ''Bearer pfk_x'' ''Bearer '') = ''pfk_x''"
proof -
  have "trim_prefix ''Bearer pfk_x'' ''Bearer '' = ''pfk_x''" by (simp add: trim_prefix_def has_prefix_def)
  moreover have "TrimSpace ''pfk_x'' = ''pfk_x''" by (rule TrimSpace_plain) simp_all
  ultimately show ?thesis by simp
qed

lemma demo_holder: "token_holder demo_env ''Bearer pfk_x''"
  by (simp add: token_holder_def demo_token) (simp add: has_prefix_def demo_env_def live_def)

theorem documented_paths_served_witness:
  "ServeHTTP demo_config demo_env (demo_request ''GET'' [''api'', ''port''] ''Bearer pfk_x'' None) = Answer PortApi"
proof -
  let ?rq = "demo_request ''GET'' [''api'', ''port''] ''Bearer pfk_x'' None"
  obtain ops where ops: "at [''paths'', ''/api/port''] (specJSON True) = Some ops"
    unfolding spec_paths by (simp add: at_Cons at_Nil path_defs)
  have "token_holder demo_env (rqAuth ?rq)" "has_prefix (TrimSpace (trim_prefix (rqAuth ?rq) ''Bearer '')) apiTokenPrefix"
    "\<not> evDbFails demo_env" "rqPath ?rq = path_of ''/api/port''"
    using demo_holder demo_token
    by (simp_all add: demo_request_def has_prefix_def apiTokenPrefix_def path_of_def) (simp add: demo_env_def)
  from documented_paths_served [OF ops this, of demo_config] show ?thesis by auto
qed

theorem endpoints_need_credentials_witness:
  "\<exists>e. ServeHTTP demo_config demo_env (demo_request ''GET'' [''api'', ''port''] ''Bearer pfk_x'' None) = Answer e \<and>
     is_data e \<and> token_holder demo_env ''Bearer pfk_x''"
proof -
  let ?rq = "demo_request ''GET'' [''api'', ''port''] ''Bearer pfk_x'' None"
  have "apiAuth demo_config demo_env (endpoint_handler PortApi) ?rq None = Answer PortApi"
    using apiAuth_token [OF demo_holder, of ?rq demo_config "endpoint_handler PortApi" None] demo_token
    by (simp add: demo_request_def endpoint_handler_def has_prefix_def apiTokenPrefix_def) (simp add: demo_env_def)
  then have ans: "ServeHTTP demo_config demo_env ?rq = Answer PortApi"
    by (simp add: ServeHTTP_def demo_request_def page_routes exact_routes Let_def)
  have "cfSaml demo_config" by (simp add: demo_config_def)
  from endpoints_need_credentials [OF this demo_requires ans] ans show ?thesis
    by (simp add: demo_request_def)
qed

theorem admin_needs_role_witness:
  "ServeHTTP demo_config demo_env (demo_request ''GET'' [''tokens''] [] (Some netops)) = Answer TokensPage \<and>
   (\<exists>name \<in> set roleClaimNames. ''netops'' \<in> set (the (seAttributes netops) name))"
proof -
  let ?rq = "demo_request ''GET'' [''tokens''] [] (Some netops)"
  have ans: "ServeHTTP demo_config demo_env ?rq = Answer TokensPage"
    by (simp add: ServeHTTP_def demo_request_def page_routes exact_routes Let_def protectAdmin_def protect_def
        isAdmin_def hasAdminRole_def demo_config_def demo_env_def netops_def roleClaimNames_def endpoint_handler_def)
  have "cfSaml demo_config" by (simp add: demo_config_def)
  from admin_needs_role [OF this demo_requires ans] ans show ?thesis
    by (auto simp: demo_request_def demo_config_def)
qed

theorem nav_links_match_access_witness:
  "\<exists>header menu. ServeHTTP demo_config demo_env (demo_request ''GET'' [] [] (Some netops)) =
     Answer (IndexPage header menu) \<and> set header \<subseteq> set (allNavLinks demo_config)"
proof -
  let ?rq = "demo_request ''GET'' [] [] (Some netops)"
  have "cfSaml demo_config \<Longrightarrow> rqSession ?rq \<noteq> None" "\<not> has_prefix (rqAuth ?rq) ''Bearer ''" "rqPath ?rq = ([], True)"
    by (simp_all add: demo_request_def has_prefix_def)
  from nav_links_match_access [OF demo_requires this] show ?thesis by blast
qed

end
