(* ===== verification/Dbview.thy ===== *)
theory Dbview imports Http Tables "HOL-Library.Multiset" begin

text \<open>
  \<open>webapp/internal/dbview/handler.go\<close>: the inspection page (\<open>InspectHandler\<close>) and the paged,
  filtered table view (\<open>TableHandler\<close>). PostgreSQL's \<open>ILIKE\<close> is the parameter \<open>ilike value pattern\<close>.
  The statements of a request run one after the other outside a transaction: the k-th one fails when
  \<open>q_fails k\<close> and otherwise reads the database \<open>snap k\<close>. Rows are listed with their ids; the column
  types make every \<open>Scan\<close> succeed, and the JSON text of a reply is not modelled.
\<close>

definition dbInspectLimit :: nat where "dbInspectLimit = 500"

text \<open>\<open>ORDER BY id DESC\<close>\<close>

definition order_desc :: "(int \<times> 'r) list \<Rightarrow> (int \<times> 'r) list" where
  "order_desc rs = sort_key (\<lambda>ir. - fst ir) rs"

subsection \<open>The inspection page\<close>

record inspect_resp =
  iMacRows :: "(int \<times> mac_row) list"
  iMacTotal :: int
  iArpRows :: "(int \<times> arp_row) list"
  iArpTotal :: int
  iInterfaceRows :: "(int \<times> if_row) list"
  iInterfaceTotal :: int
  iVlanRows :: "(int \<times> vlan_row) list"
  iVlanTotal :: int

text \<open>The two statements for one table: the count (the k-th) and the newest rows.\<close>

definition inspect_table ::
    "(nat \<Rightarrow> bool) \<Rightarrow> (nat \<Rightarrow> 'r table) \<Rightarrow> nat \<Rightarrow> (int \<times> (int \<times> 'r) list) option" where
  "inspect_table q_fails tab k =
     (if q_fails k then None
      else if q_fails (k + 1) then None
      else Some (int (length (rows (tab k))), take dbInspectLimit (order_desc (rows (tab (k + 1))))))"

definition InspectHandler ::
    "(nat \<Rightarrow> bool) \<Rightarrow> (nat \<Rightarrow> db) \<Rightarrow> string \<Rightarrow> inspect_resp reply" where
  "InspectHandler q_fails snap meth =
     (if meth \<noteq> ''GET'' then HttpError 405
      else case inspect_table q_fails (\<lambda>k. macT (snap k)) 0 of
        None \<Rightarrow> HttpError 500
      | Some (macTotal, macRows) \<Rightarrow>
      (case inspect_table q_fails (\<lambda>k. arpT (snap k)) 2 of
        None \<Rightarrow> HttpError 500
      | Some (arpTotal, arpRows) \<Rightarrow>
      (case inspect_table q_fails (\<lambda>k. ifT (snap k)) 4 of
        None \<Rightarrow> HttpError 500
      | Some (ifTotal, ifRows) \<Rightarrow>
      (case inspect_table q_fails (\<lambda>k. vlanT (snap k)) 6 of
        None \<Rightarrow> HttpError 500
      | Some (vlanTotal, vlanRows) \<Rightarrow>
          Reply 200 \<lparr>iMacRows = macRows, iMacTotal = macTotal, iArpRows = arpRows, iArpTotal = arpTotal,
            iInterfaceRows = ifRows, iInterfaceTotal = ifTotal, iVlanRows = vlanRows,
            iVlanTotal = vlanTotal\<rparr>))))"

subsection \<open>The table view\<close>

definition text_or_empty :: "string option \<Rightarrow> string" where
  "text_or_empty s = (case s of Some x \<Rightarrow> x | None \<Rightarrow> [])"

definition int_or_empty :: "int option \<Rightarrow> string" where
  "int_or_empty n = (case n of Some x \<Rightarrow> int_text x | None \<Rightarrow> [])"

definition macWhere :: "(string \<Rightarrow> string \<Rightarrow> bool) \<Rightarrow> string \<Rightarrow> mac_row \<Rightarrow> bool" where
  "macWhere ilike pat r \<longleftrightarrow>
     ilike (rmNode r) pat \<or> ilike (rmMac r) pat \<or> ilike (text_or_empty (rmInterface r)) pat \<or>
     ilike (int_or_empty (rmVlan r)) pat \<or> ilike (text_or_empty (rmType r)) pat"

definition arpWhere :: "(string \<Rightarrow> string \<Rightarrow> bool) \<Rightarrow> string \<Rightarrow> arp_row \<Rightarrow> bool" where
  "arpWhere ilike pat r \<longleftrightarrow>
     ilike (raNode r) pat \<or> ilike (raIp r) pat \<or> ilike (text_or_empty (raMac r)) pat \<or>
     ilike (text_or_empty (raInterface r)) pat"

definition ifaceWhere :: "(string \<Rightarrow> string \<Rightarrow> bool) \<Rightarrow> string \<Rightarrow> if_row \<Rightarrow> bool" where
  "ifaceWhere ilike pat r \<longleftrightarrow>
     ilike (riNode r) pat \<or> ilike (riName r) pat \<or> ilike (text_or_empty (riDescription r)) pat \<or>
     ilike (text_or_empty (riIp r)) pat \<or> ilike (text_or_empty (riVrf r)) pat"

definition vlanWhere :: "(string \<Rightarrow> string \<Rightarrow> bool) \<Rightarrow> string \<Rightarrow> vlan_row \<Rightarrow> bool" where
  "vlanWhere ilike pat r \<longleftrightarrow>
     ilike (rvNode r) pat \<or> ilike (int_text (rvVlanId r)) pat \<or> ilike (text_or_empty (rvName r)) pat \<or>
     ilike (text_or_empty (rvStatus r)) pat"

text \<open>
  \<open>SELECT \<dots> WHERE P ORDER BY id DESC LIMIT size OFFSET offset\<close>; PostgreSQL refuses a negative OFFSET.
\<close>

definition select_page ::
    "bool \<Rightarrow> 'r table \<Rightarrow> ('r \<Rightarrow> bool) \<Rightarrow> int \<Rightarrow> int \<Rightarrow> (int \<times> 'r) list option" where
  "select_page fails t P psize offset =
     (if fails \<or> offset < 0 then None
      else Some (take (nat psize) (drop (nat offset) (order_desc (filter (\<lambda>ir. P (snd ir)) (rows t))))))"

text \<open>
  The body of one case of the switch: the total; then, with a query (\<open>filt = Some P\<close>), the filtered
  total and the page of matching rows; without one, the page of all rows.
\<close>

definition table_case ::
    "(nat \<Rightarrow> bool) \<Rightarrow> (nat \<Rightarrow> 'r table) \<Rightarrow> ('r \<Rightarrow> bool) option \<Rightarrow> int \<Rightarrow> int \<Rightarrow>
     (int \<times> int \<times> (int \<times> 'r) list) option" where
  "table_case q_fails tab filt psize offset =
     (if q_fails 0 then None
      else
        let tot = int (length (rows (tab 0))) in
        case filt of
          Some P \<Rightarrow>
            (if q_fails 1 then None
             else
               let filtered = int (length (filter (\<lambda>ir. P (snd ir)) (rows (tab 1)))) in
               map_option (\<lambda>rs. (tot, filtered, rs)) (select_page (q_fails 2) (tab 2) P psize offset))
        | None \<Rightarrow>
            map_option (\<lambda>rs. (tot, tot, rs)) (select_page (q_fails 1) (tab 1) (\<lambda>_. True) psize offset))"

datatype page_rows =
    MacRows "(int \<times> mac_row) list"
  | ArpRows "(int \<times> arp_row) list"
  | InterfaceRows "(int \<times> if_row) list"
  | VlanRows "(int \<times> vlan_row) list"

record table_resp =
  tRows :: page_rows
  tTotal :: int
  tFilteredTotal :: int
  tPage :: int
  tPageSize :: int
  tPages :: int

definition mac_case where
  "mac_case ilike q_fails snap hasQ pat psize offset =
     map_option (\<lambda>(tot, filtered, rs). (tot, filtered, MacRows rs))
       (table_case q_fails (\<lambda>k. macT (snap k)) (if hasQ then Some (macWhere ilike pat) else None)
          psize offset)"

definition arp_case where
  "arp_case ilike q_fails snap hasQ pat psize offset =
     map_option (\<lambda>(tot, filtered, rs). (tot, filtered, ArpRows rs))
       (table_case q_fails (\<lambda>k. arpT (snap k)) (if hasQ then Some (arpWhere ilike pat) else None)
          psize offset)"

definition interface_case where
  "interface_case ilike q_fails snap hasQ pat psize offset =
     map_option (\<lambda>(tot, filtered, rs). (tot, filtered, InterfaceRows rs))
       (table_case q_fails (\<lambda>k. ifT (snap k)) (if hasQ then Some (ifaceWhere ilike pat) else None)
          psize offset)"

definition vlan_case where
  "vlan_case ilike q_fails snap hasQ pat psize offset =
     map_option (\<lambda>(tot, filtered, rs). (tot, filtered, VlanRows rs))
       (table_case q_fails (\<lambda>k. vlanT (snap k)) (if hasQ then Some (vlanWhere ilike pat) else None)
          psize offset)"

text \<open>\<open>query k\<close> is the first value of the query parameter \<open>k\<close>, empty when absent.\<close>

definition req_page :: "(string \<Rightarrow> string) \<Rightarrow> int" where
  "req_page query = (let page = Atoi_value (query ''page'') in if page < 1 then 1 else page)"

definition req_size :: "(string \<Rightarrow> string) \<Rightarrow> int" where
  "req_size query =
     (let psize = Atoi_value (query ''limit'') in if psize < 1 \<or> psize > 1000 then 100 else psize)"

text \<open>The end of the handler: a failed statement, or the reply with the number of pages.\<close>

definition table_reply ::
    "int \<Rightarrow> int \<Rightarrow> (int \<times> int \<times> page_rows) option \<Rightarrow> table_resp reply" where
  "table_reply page psize out =
     (case out of
        None \<Rightarrow> HttpError 500
      | Some (tot, filtered, rs) \<Rightarrow>
          let pages = (filtered + psize - 1) div psize in
          Reply 200 \<lparr>tRows = rs, tTotal = tot, tFilteredTotal = filtered, tPage = page,
            tPageSize = psize, tPages = (if pages < 1 then 1 else pages)\<rparr>)"

definition TableHandler ::
    "(string \<Rightarrow> string \<Rightarrow> bool) \<Rightarrow> (nat \<Rightarrow> bool) \<Rightarrow> (nat \<Rightarrow> db) \<Rightarrow> string \<Rightarrow> (string \<Rightarrow> string) \<Rightarrow>
     table_resp reply" where
  "TableHandler ilike q_fails snap meth query =
     (if meth \<noteq> ''GET'' then HttpError 405
      else
        let tbl = query ''table'';
            q = TrimSpace (query ''q'');
            page = req_page query;
            psize = req_size query;
            offset = wrap64 ((page - 1) * psize);
            pat = ''%'' @ q @ ''%'';
            hasQ = (q \<noteq> []);
            finish = table_reply page psize
        in if tbl = ''mac'' then finish (mac_case ilike q_fails snap hasQ pat psize offset)
           else if tbl = ''arp'' then finish (arp_case ilike q_fails snap hasQ pat psize offset)
           else if tbl = ''interface'' then finish (interface_case ilike q_fails snap hasQ pat psize offset)
           else if tbl = ''vlan'' then finish (vlan_case ilike q_fails snap hasQ pat psize offset)
           else HttpError 400)"

subsection \<open>Ordering and paging\<close>

lemma set_order_desc [simp]: "set (order_desc rs) = set rs"
  by (simp add: order_desc_def)

lemma length_order_desc [simp]: "length (order_desc rs) = length rs"
  by (simp add: order_desc_def)

lemma mset_order_desc [simp]: "mset (order_desc rs) = mset rs"
  by (simp add: order_desc_def)

lemma sorted_order_desc: "sorted_wrt (\<ge>) (map fst (order_desc rs))"
proof -
  have "sorted (map (\<lambda>ir. - fst ir) (order_desc rs))"
    by (simp add: order_desc_def)
  then show ?thesis
    by (simp add: sorted_wrt_map)
qed

text \<open>The rows kept by a limit have greater ids than the others.\<close>

lemma take_order_desc:
  assumes "distinct (map fst rs)" and "ir \<in> set (take n (order_desc rs))"
    and "jr \<in> set rs" and "jr \<notin> set (take n (order_desc rs))"
  shows "fst jr < fst ir"
proof -
  have "jr \<in> set (drop n (order_desc rs))"
    using assms(3,4) by (metis Un_iff append_take_drop_id set_append set_order_desc)
  moreover have "sorted_wrt (\<ge>) (map fst (take n (order_desc rs) @ drop n (order_desc rs)))"
    unfolding append_take_drop_id by (rule sorted_order_desc)
  ultimately have "fst jr \<le> fst ir"
    using assms(2) unfolding map_append sorted_wrt_append by simp
  moreover have "fst jr \<noteq> fst ir"
    using assms by (metis eq_key_imp_eq_value in_set_takeD prod.collapse set_order_desc)
  ultimately show ?thesis by simp
qed

lemma concat_pages:
  "concat (map (\<lambda>p. take n (drop (p * n) xs)) [0..<k]) = take (k * n) xs"
  by (induction k) (simp_all add: take_add [symmetric] add.commute)

lemma pages_cover:
  assumes "0 < n" and "xs \<noteq> []"
  shows "concat (map (\<lambda>p. take n (drop (p * n) xs)) [0..<(length xs + n - 1) div n]) = xs"
proof -
  have "length xs \<le> (length xs + n - 1) div n * n"
    using div_mult_mod_eq [of "length xs + n - 1" n] mod_less_divisor [OF assms(1), of "length xs + n - 1"]
      assms(1) by linarith
  then show ?thesis by (simp add: concat_pages)
qed

subsection \<open>Properties\<close>

definition table_query :: "string \<Rightarrow> string \<Rightarrow> string \<Rightarrow> string \<Rightarrow> string \<Rightarrow> string" where
  "table_query tbl q page limit = (\<lambda>k.
     if k = ''table'' then tbl else if k = ''q'' then q else if k = ''page'' then page
     else if k = ''limit'' then limit else [])"

fun reply_mac_rows :: "table_resp reply \<Rightarrow> (int \<times> mac_row) list" where
  "reply_mac_rows (Reply st r) = (case tRows r of MacRows rs \<Rightarrow> rs | _ \<Rightarrow> [])"
| "reply_mac_rows (HttpError c) = []"

fun reply_pages :: "table_resp reply \<Rightarrow> int" where
  "reply_pages (Reply st r) = tPages r"
| "reply_pages (HttpError c) = 0"

lemma table_query_simps [simp]:
  "table_query tbl q page limit ''table'' = tbl" "table_query tbl q page limit ''q'' = q"
  "table_query tbl q page limit ''page'' = page" "table_query tbl q page limit ''limit'' = limit"
  by (simp_all add: table_query_def)

lemma req_dec:
  "0 < p \<Longrightarrow> p < 2 ^ 63 \<Longrightarrow> req_page (table_query tbl q (dec_text p) limit) = int p"
  "0 < n \<Longrightarrow> n \<le> 1000 \<Longrightarrow> req_size (table_query tbl q page (dec_text n)) = int n"
  by (simp_all add: req_page_def req_size_def Atoi_value_def ParseInt_dec_text)

definition mac_shown :: "(string \<Rightarrow> string \<Rightarrow> bool) \<Rightarrow> string \<Rightarrow> db \<Rightarrow> (int \<times> mac_row) list" where
  "mac_shown ilike q d =
     order_desc (filter (\<lambda>ir. TrimSpace q = [] \<or> macWhere ilike (''%'' @ TrimSpace q @ ''%'') (snd ir))
       (rows (macT d)))"

lemma mac_page_reply:
  assumes "0 < n" and "n \<le> 1000" and "p < 2 ^ 63 - 1" and "p * n < 2 ^ 63"
  shows "TableHandler ilike (\<lambda>_. False) (\<lambda>_. d) ''GET'' (table_query ''mac'' q (dec_text (Suc p)) (dec_text n)) =
    Reply 200 \<lparr>tRows = MacRows (take n (drop (p * n) (mac_shown ilike q d))),
      tTotal = int (length (rows (macT d))), tFilteredTotal = int (length (mac_shown ilike q d)),
      tPage = int (Suc p), tPageSize = int n,
      tPages = int (max 1 ((length (mac_shown ilike q d) + n - 1) div n))\<rparr>"
proof -
  have "int p * int n < 2 ^ 63"
    using assms(4) by (metis of_nat_less_iff of_nat_mult of_nat_numeral of_nat_power)
  then have off: "wrap64 ((int (Suc p) - 1) * int n) = int (p * n)"
    by (subst wrap64_id) (simp_all add: order_trans [of _ 0])
  have pages: "(if (int l + int n - 1) div int n < 1 then 1 else (int l + int n - 1) div int n) =
      int (max 1 ((l + n - 1) div n))" for l
  proof -
    have "int (l + n - 1) = int l + int n - 1" using assms(1) by simp
    then have "(int l + int n - 1) div int n = int ((l + n - 1) div n)" by (simp only: zdiv_int)
    then show ?thesis by (simp only: max_def) simp
  qed
  have p: "req_page (table_query ''mac'' q (dec_text (Suc p)) (dec_text n)) = int (Suc p)"
    using assms(3) by (intro req_dec) simp_all
  have s: "req_size (table_query ''mac'' q (dec_text (Suc p)) (dec_text n)) = int n"
    using assms(1,2) by (rule req_dec)
  have nat_off: "nat (int (p * n)) = p * n" "\<not> int (p * n) < 0" "nat (int n) = n" by (simp_all del: of_nat_mult)
  show ?thesis
    unfolding TableHandler_def Let_def p s off mac_case_def table_case_def select_page_def mac_shown_def
      table_reply_def
    by (cases "TrimSpace q = []") (simp_all add: nat_off pages del: of_nat_Suc of_nat_mult)
qed

text \<open>C24. Paging is complete: while the database works and does not change, walking the MAC table view
  from page 1 to the number of pages it reports lists every matching row exactly once, newest id
  first, for every filter and page size; without a filter that is the whole table.\<close>

theorem mac_pages_cover_table:
  assumes "0 < n" and "n \<le> 1000" and "length (rows (macT d)) < 2 ^ 62"
  shows "let page = (\<lambda>p. TableHandler ilike (\<lambda>_. False) (\<lambda>_. d) ''GET''
                        (table_query ''mac'' q (dec_text p) (dec_text n)))
    in concat (map (\<lambda>p. reply_mac_rows (page p)) [1..<Suc (nat (reply_pages (page 1)))]) =
         mac_shown ilike q d \<and>
       (TrimSpace q = [] \<longrightarrow> mset (mac_shown ilike q d) = mset (rows (macT d)))"
proof -
  let ?xs = "mac_shown ilike q d"
  let ?page = "\<lambda>p. TableHandler ilike (\<lambda>_. False) (\<lambda>_. d) ''GET'' (table_query ''mac'' q (dec_text p) (dec_text n))"
  have len: "length ?xs < 2 ^ 62"
    using assms(3) by (auto simp: mac_shown_def intro: le_less_trans [OF length_filter_le])
  define k where "k = max 1 ((length ?xs + n - 1) div n)"
  have k: "p * n \<le> length ?xs \<and> p \<le> length ?xs" if "p < k" for p
  proof (cases "p = 0")
    case False
    then have "Suc p \<le> (length ?xs + n - 1) div n" using that by (simp add: k_def)
    then have "Suc p * n \<le> length ?xs + n - 1"
      by (metis div_times_less_eq_dividend mult_le_mono1 order_trans)
    then have "p * n \<le> length ?xs" using assms(1) by simp
    moreover have "p \<le> p * n" using assms(1) by simp
    ultimately show ?thesis using order_trans by blast
  qed simp
  have page: "?page (Suc p) = Reply 200 \<lparr>tRows = MacRows (take n (drop (p * n) ?xs)),
      tTotal = int (length (rows (macT d))), tFilteredTotal = int (length ?xs),
      tPage = int (Suc p), tPageSize = int n, tPages = int k\<rparr>" if "p < k" for p
    using k [OF that] len unfolding k_def by (intro mac_page_reply assms) simp_all
  have "0 < k" by (simp add: k_def)
  then have pages: "nat (reply_pages (?page 1)) = k" using page [of 0] by simp
  have "map (\<lambda>p. reply_mac_rows (?page p)) [1..<Suc k] = map (\<lambda>p. take n (drop (p * n) ?xs)) [0..<k]"
    unfolding One_nat_def map_Suc_upt [symmetric] map_map
    by (rule map_cong [OF refl]) (simp add: page)
  moreover have "concat (map (\<lambda>p. take n (drop (p * n) ?xs)) [0..<k]) = ?xs"
  proof (cases "?xs = []")
    case True
    then show ?thesis by (simp add: concat_pages)
  next
    case False
    then have "0 < length ?xs" by simp
    then have "n \<le> length ?xs + n - 1" by linarith
    then have "(length ?xs + n - 1) div n \<noteq> 0"
      using assms(1) by (simp add: div_eq_0_iff del: One_nat_def)
    then show ?thesis using pages_cover [OF assms(1) False] by (simp add: k_def max_def)
  qed
  ultimately show ?thesis
    unfolding Let_def pages by (simp add: mac_shown_def)
qed

fun page_length :: "page_rows \<Rightarrow> nat" where
  "page_length (MacRows rs) = length rs"
| "page_length (ArpRows rs) = length rs"
| "page_length (InterfaceRows rs) = length rs"
| "page_length (VlanRows rs) = length rs"

text \<open>Whatever the request, the faults and the changes between its statements, a reply of the table
  view is one of the three errors or a page of at most the page size, which lies between 1 and 1000,
  with a page number and a number of pages of at least 1.\<close>

theorem table_view_bounds:
  "case TableHandler ilike q_fails snap meth query of
     HttpError c \<Rightarrow> c \<in> {400, 405, 500}
   | Reply st r \<Rightarrow> st = 200 \<and> 1 \<le> tPage r \<and> 1 \<le> tPageSize r \<and> tPageSize r \<le> 1000 \<and>
       int (page_length (tRows r)) \<le> tPageSize r \<and> 1 \<le> tPages r"
proof -
  have page: "1 \<le> req_page query" by (simp add: req_page_def Let_def)
  have psize: "1 \<le> req_size query" "req_size query \<le> 1000" by (simp_all add: req_size_def Let_def)
  have case_len: "int (length rs) \<le> req_size query"
    if "table_case q_fails tab filt (req_size query) offset = Some (tot, filtered, rs)"
    for tab :: "nat \<Rightarrow> 'r table" and filt offset tot filtered rs
    using that psize(1) by (auto simp: table_case_def select_page_def Let_def split: option.splits if_splits)
  let ?good = "\<lambda>rep. case rep of HttpError c \<Rightarrow> c \<in> {400, 405, 500}
    | Reply st r \<Rightarrow> st = 200 \<and> 1 \<le> tPage r \<and> 1 \<le> tPageSize r \<and> tPageSize r \<le> 1000 \<and>
       int (page_length (tRows r)) \<le> tPageSize r \<and> 1 \<le> tPages r"
  have fin: "?good (table_reply (req_page query) (req_size query) out)"
    if "\<And>tot filtered rs. out = Some (tot, filtered, rs) \<Longrightarrow> int (page_length rs) \<le> req_size query"
    for out
    using that page psize by (auto simp: table_reply_def Let_def split: option.split)
  note cases = mac_case_def arp_case_def interface_case_def vlan_case_def
  show ?thesis
    unfolding TableHandler_def Let_def
    by (simp split del: option.split reply.split)
       (intro conjI impI fin; auto simp: cases dest: case_len)
qed

text \<open>Two rows, newest id first.\<close>

definition demo_mac_db :: db where
  "demo_mac_db = empty_db\<lparr>macT := \<lparr>rows =
     [(1, \<lparr>rmNode = ''sw1'', rmMac = ''a'', rmInterface = None, rmVlan = Some 10, rmType = None, rmAt = 0\<rparr>),
      (4, \<lparr>rmNode = ''sw2'', rmMac = ''b'', rmInterface = None, rmVlan = Some 20, rmType = None, rmAt = 0\<rparr>)],
     next_id = 5\<rparr>\<rparr>"

theorem mac_pages_cover_table_witness:
  "map fst (concat (map (\<lambda>p. reply_mac_rows (TableHandler (=) (\<lambda>_. False) (\<lambda>_. demo_mac_db) ''GET''
       (table_query ''mac'' [] (dec_text p) (dec_text 1))))
     [1..<Suc (nat (reply_pages (TableHandler (=) (\<lambda>_. False) (\<lambda>_. demo_mac_db) ''GET''
       (table_query ''mac'' [] (dec_text 1) (dec_text 1)))))])) = [4, 1]"
proof -
  have "length (rows (macT demo_mac_db)) < 2 ^ 62" by (simp add: demo_mac_db_def)
  from mac_pages_cover_table [OF _ _ this, of 1 "(=)" "[]"] show ?thesis
    by (simp add: Let_def mac_shown_def demo_mac_db_def order_desc_def del: upt_Suc)
qed

text \<open>The case a request selects: \<open>None\<close> for an unknown table.\<close>

definition table_out where
  "table_out ilike q_fails snap tbl q psize offset =
     (if tbl = ''mac'' then Some (mac_case ilike q_fails snap (q \<noteq> []) (''%'' @ q @ ''%'') psize offset)
      else if tbl = ''arp'' then Some (arp_case ilike q_fails snap (q \<noteq> []) (''%'' @ q @ ''%'') psize offset)
      else if tbl = ''interface'' then Some (interface_case ilike q_fails snap (q \<noteq> []) (''%'' @ q @ ''%'') psize offset)
      else if tbl = ''vlan'' then Some (vlan_case ilike q_fails snap (q \<noteq> []) (''%'' @ q @ ''%'') psize offset)
      else None)"

lemma TableHandler_GET:
  "TableHandler ilike q_fails snap ''GET'' query =
     (case table_out ilike q_fails snap (query ''table'') (TrimSpace (query ''q'')) (req_size query)
             (wrap64 ((req_page query - 1) * req_size query)) of
        None \<Rightarrow> HttpError 400
      | Some out \<Rightarrow> table_reply (req_page query) (req_size query) out)"
  by (simp add: TableHandler_def table_out_def Let_def)

text \<open>Page numbers are not bounded, and the offset wraps: \<open>(page - 1) * size\<close> is computed in 64
  bits, so that page \<open>2 ^ 60 + 1\<close> of 16 rows shows the rows of page 1 under its own number, and page
  \<open>2 ^ 63\<close> or any larger one (read as the largest \<open>int\<close>) of 100 rows asks for a negative offset, which
  the database refuses.\<close>

theorem huge_page_wraps:
  "(case (TableHandler ilike q_fails snap ''GET'' (table_query tbl q ''1152921504606846977'' ''16''),
         TableHandler ilike q_fails snap ''GET'' (table_query tbl q ''1'' ''16'')) of
      (Reply _ r, Reply _ r1) \<Rightarrow> tRows r = tRows r1 \<and> tPage r = 2 ^ 60 + 1 \<and> tPage r1 = 1
    | (HttpError c, HttpError c1) \<Rightarrow> c = c1
    | _ \<Rightarrow> False) \<and>
   TableHandler ilike q_fails snap ''GET'' (table_query ''vlan'' q ''9223372036854775808'' ''100'') =
     HttpError 500"
proof -
  have reqs: "req_page (table_query tbl q ''1152921504606846977'' ''16'') = 2 ^ 60 + 1"
    "req_size (table_query tbl q ''1152921504606846977'' ''16'') = 16"
    "req_page (table_query tbl q ''1'' ''16'') = 1" "req_size (table_query tbl q ''1'' ''16'') = 16"
    "req_page (table_query tbl q ''9223372036854775808'' ''100'') = 2 ^ 63 - 1"
    "req_size (table_query tbl q ''9223372036854775808'' ''100'') = 100" for tbl
  proof -
    have "Atoi_value ''1152921504606846977'' = 2 ^ 60 + 1" "Atoi_value ''16'' = 16" "Atoi_value ''1'' = 1"
      "Atoi_value ''9223372036854775808'' = 2 ^ 63 - 1" "Atoi_value ''100'' = 100"
      by (simp_all add: Atoi_value_def ParseInt_def ParseUint_def is_digit_def digit_val_def)
    then show "req_page (table_query tbl q ''1152921504606846977'' ''16'') = 2 ^ 60 + 1"
      "req_size (table_query tbl q ''1152921504606846977'' ''16'') = 16"
      "req_page (table_query tbl q ''1'' ''16'') = 1" "req_size (table_query tbl q ''1'' ''16'') = 16"
      "req_page (table_query tbl q ''9223372036854775808'' ''100'') = 2 ^ 63 - 1"
      "req_size (table_query tbl q ''9223372036854775808'' ''100'') = 100"
      by (simp_all add: req_page_def req_size_def)
  qed
  have wraps: "wrap64 ((2 ^ 60 + 1 - 1) * 16) = 0" "wrap64 ((1 - 1) * 16) = 0"
    "wrap64 ((2 ^ 63 - 1 - 1) * 100) = - 200"
    using wrap64_cong [of "2 ^ 64" 0] wrap64_cong [of "(2 ^ 63 - 1 - 1) * 100" "- 200"]
      wrap64_id [of 0] wrap64_id [of "- 200"] by simp_all
  have "select_page b tab P 100 (- 200) = None" for b and tab :: "vlan_row table" and P
    by (simp add: select_page_def)
  then have refused: "vlan_case ilike q_fails snap b pat 100 (- 200) = None" for b pat
    by (simp add: vlan_case_def table_case_def Let_def)
  have pair: "case (table_reply (2 ^ 60 + 1) 16 out, table_reply 1 16 out) of
      (Reply _ r, Reply _ r1) \<Rightarrow> tRows r = tRows r1 \<and> tPage r = 2 ^ 60 + 1 \<and> tPage r1 = 1
    | (HttpError c, HttpError c1) \<Rightarrow> c = c1 | _ \<Rightarrow> False" for out
    by (cases out) (simp_all add: table_reply_def Let_def split_def)
  have "case (TableHandler ilike q_fails snap ''GET'' (table_query tbl q ''1152921504606846977'' ''16''),
         TableHandler ilike q_fails snap ''GET'' (table_query tbl q ''1'' ''16'')) of
      (Reply _ r, Reply _ r1) \<Rightarrow> tRows r = tRows r1 \<and> tPage r = 2 ^ 60 + 1 \<and> tPage r1 = 1
    | (HttpError c, HttpError c1) \<Rightarrow> c = c1
    | _ \<Rightarrow> False"
    unfolding TableHandler_GET reqs wraps table_query_simps
    by (cases "table_out ilike q_fails snap tbl (TrimSpace q) 16 0") (simp, simp only: pair option.case)
  moreover have "TableHandler ilike q_fails snap ''GET'' (table_query ''vlan'' q ''9223372036854775808'' ''100'') =
     HttpError 500"
    unfolding TableHandler_GET reqs wraps table_query_simps
    by (simp add: table_out_def refused table_reply_def)
  ultimately show ?thesis ..
qed

definition table_offset :: "(string \<Rightarrow> string) \<Rightarrow> int" where
  "table_offset query = wrap64 ((req_page query - 1) * req_size query)"

text \<open>The errors of the table view: 405 exactly for another method than GET, 400 exactly for an
  unknown table, and 500 exactly when one of the statements of the request fails: the total, the page,
  with a filter the filtered total, or the page because its offset is negative.\<close>

theorem table_view_errors:
  "(TableHandler ilike q_fails snap meth query = HttpError 405 \<longleftrightarrow> meth \<noteq> ''GET'') \<and>
   (TableHandler ilike q_fails snap meth query = HttpError 400 \<longleftrightarrow>
      meth = ''GET'' \<and> query ''table'' \<notin> {''mac'', ''arp'', ''interface'', ''vlan''}) \<and>
   (TableHandler ilike q_fails snap meth query = HttpError 500 \<longleftrightarrow>
      meth = ''GET'' \<and> query ''table'' \<in> {''mac'', ''arp'', ''interface'', ''vlan''} \<and>
      (q_fails 0 \<or> q_fails 1 \<or> (TrimSpace (query ''q'') \<noteq> [] \<and> q_fails 2) \<or> table_offset query < 0))"
proof -
  have none: "table_case q_fails tab filt psize offset = None \<longleftrightarrow>
      q_fails 0 \<or> q_fails 1 \<or> (filt \<noteq> None \<and> q_fails 2) \<or> offset < 0"
    for tab :: "nat \<Rightarrow> 'r table" and filt psize offset
    by (auto simp: table_case_def select_page_def Let_def split: option.split)
  have rep: "(table_reply page psize out = HttpError c) = (out = None \<and> c = 500)" for page psize out c
    by (auto simp: table_reply_def Let_def split: option.split)
  show ?thesis
    unfolding TableHandler_def Let_def table_offset_def
    by (auto simp: rep none mac_case_def arp_case_def interface_case_def vlan_case_def)
qed

text \<open>The inspection page, while the database works and does not change, gives for each table its
  exact number of rows and the 500 newest of them, newest first; of a larger table no row that is left
  out is newer than one that is shown.\<close>

theorem inspect_shows_newest:
  assumes "db_ok d"
  shows "\<exists>r. InspectHandler (\<lambda>_. False) (\<lambda>_. d) ''GET'' = Reply 200 r \<and>
    iMacTotal r = int (length (rows (macT d))) \<and> iArpTotal r = int (length (rows (arpT d))) \<and>
    iInterfaceTotal r = int (length (rows (ifT d))) \<and> iVlanTotal r = int (length (rows (vlanT d))) \<and>
    length (iMacRows r) = min 500 (length (rows (macT d))) \<and>
    sorted_wrt (>) (map fst (iMacRows r)) \<and>
    (\<forall>ir \<in> set (iMacRows r). ir \<in> set (rows (macT d)) \<and>
       (\<forall>jr \<in> set (rows (macT d)) - set (iMacRows r). fst jr < fst ir))"
proof -
  let ?rs = "order_desc (rows (macT d))"
  have ids: "distinct (map fst (rows (macT d)))"
    using assms by (simp add: db_ok_def table_ok_def)
  have "distinct (map fst ?rs)"
    using ids by (metis mset_order_desc distinct_map mset_eq_imp_distinct_iff set_order_desc)
  then have "sorted_wrt (>) (map fst ?rs)"
    using sorted_order_desc [of "rows (macT d)"]
    by (simp add: strict_sorted_iff sorted_wrt_iff_nth_less distinct_conv_nth order_less_le)
  then have "sorted_wrt (>) (map fst (take 500 ?rs))"
    by (metis append_take_drop_id map_append sorted_wrt_append)
  moreover have "fst jr < fst ir" if "ir \<in> set (take 500 ?rs)" "jr \<in> set (rows (macT d)) - set (take 500 ?rs)"
    for ir jr
    using take_order_desc [OF ids] that by blast
  moreover have "set (take 500 ?rs) \<subseteq> set (rows (macT d))"
    by (metis set_order_desc set_take_subset)
  ultimately show ?thesis
    by (auto simp: InspectHandler_def inspect_table_def dbInspectLimit_def)
qed

theorem inspect_shows_newest_witness:
  "\<exists>r. InspectHandler (\<lambda>_. False) (\<lambda>_. demo_mac_db) ''GET'' = Reply 200 r \<and> iMacTotal r = 2"
proof -
  have "db_ok demo_mac_db"
    by (simp add: demo_mac_db_def db_ok_def empty_db_def empty_table_def table_ok_def)
  from inspect_shows_newest [OF this] show ?thesis by (auto simp: demo_mac_db_def)
qed

end
