(* ===== verification/Viewer.thy ===== *)
theory Viewer imports ApiDoc Dbview Tokens begin

text \<open>
  The replies of the database viewer and of the token API as JSON, by the struct tags of
  \<open>webapp/internal/dbview/types.go\<close> and \<open>webapp/internal/tokens/types.go\<close>, and what a client can read
  back from them. A row is shown under its id.
\<close>

subsection \<open>Rows\<close>

definition mac_row_json :: "int \<times> mac_row \<Rightarrow> json" where
  "mac_row_json ir = (case ir of (i, r) \<Rightarrow>
     JObj [(''id'', JNum i), (''node_id'', JStr (rmNode r)), (''mac_address'', JStr (rmMac r)),
           (''interface'', j_opt JStr (rmInterface r)), (''vlan'', j_opt JNum (rmVlan r)),
           (''mac_type'', j_opt JStr (rmType r)), (''collected_at'', JTime (rmAt r))])"

definition arp_row_json :: "int \<times> arp_row \<Rightarrow> json" where
  "arp_row_json ir = (case ir of (i, r) \<Rightarrow>
     JObj [(''id'', JNum i), (''node_id'', JStr (raNode r)), (''ip_address'', JStr (raIp r)),
           (''mac_address'', j_opt JStr (raMac r)), (''interface'', j_opt JStr (raInterface r)),
           (''age_seconds'', j_opt JNum (raAge r)), (''collected_at'', JTime (raAt r))])"

definition interface_row_json :: "int \<times> if_row \<Rightarrow> json" where
  "interface_row_json ir = (case ir of (i, r) \<Rightarrow>
     JObj [(''id'', JNum i), (''node_id'', JStr (riNode r)), (''name'', JStr (riName r)),
           (''description'', j_opt JStr (riDescription r)), (''shutdown'', JBool (riShutdown r)),
           (''ip_address'', j_opt JStr (riIp r)), (''prefix_len'', j_opt JNum (riPrefixLen r)),
           (''vrf'', j_opt JStr (riVrf r)), (''mtu'', j_opt JNum (riMtu r)),
           (''access_vlan'', JNum (riAccessVlan r)), (''voice_vlan'', j_opt JNum (riVoiceVlan r)),
           (''collected_at'', JTime (riAt r))])"

definition vlan_row_json :: "int \<times> vlan_row \<Rightarrow> json" where
  "vlan_row_json ir = (case ir of (i, r) \<Rightarrow>
     JObj [(''id'', JNum i), (''node_id'', JStr (rvNode r)), (''vlan_id'', JNum (rvVlanId r)),
           (''name'', j_opt JStr (rvName r)), (''status'', j_opt JStr (rvStatus r)),
           (''collected_at'', JTime (rvAt r))])"

subsection \<open>Replies\<close>

definition dbInspectResponse_json :: "inspect_resp \<Rightarrow> json" where
  "dbInspectResponse_json r =
     JObj [(''mac_rows'', JArr (map mac_row_json (iMacRows r))), (''mac_total'', JNum (iMacTotal r)),
           (''arp_rows'', JArr (map arp_row_json (iArpRows r))), (''arp_total'', JNum (iArpTotal r)),
           (''interface_rows'', JArr (map interface_row_json (iInterfaceRows r))),
           (''interface_total'', JNum (iInterfaceTotal r)),
           (''vlan_rows'', JArr (map vlan_row_json (iVlanRows r))), (''vlan_total'', JNum (iVlanTotal r))]"

fun page_rows_json :: "page_rows \<Rightarrow> json" where
  "page_rows_json (MacRows rs) = JArr (map mac_row_json rs)"
| "page_rows_json (ArpRows rs) = JArr (map arp_row_json rs)"
| "page_rows_json (InterfaceRows rs) = JArr (map interface_row_json rs)"
| "page_rows_json (VlanRows rs) = JArr (map vlan_row_json rs)"

definition tableResp_json :: "table_resp \<Rightarrow> json" where
  "tableResp_json r =
     JObj [(''rows'', page_rows_json (tRows r)), (''total'', JNum (tTotal r)),
           (''filtered_total'', JNum (tFilteredTotal r)), (''page'', JNum (tPage r)),
           (''page_size'', JNum (tPageSize r)), (''pages'', JNum (tPages r))]"

definition tokenInfo_json :: "token_info \<Rightarrow> json" where
  "tokenInfo_json t =
     JObj [(''id'', JNum (tiID t)), (''name'', JStr (tiName t)), (''hint'', JStr (tiHint t)),
           (''created_at'', JTime (tiCreated t)), (''expires_at'', j_opt JTime (tiExpires t)),
           (''last_used_at'', j_opt JTime (tiLastUsed t)), (''revoked'', JBool (tiRevoked t))]"

text \<open>The keys of a Go map are written in their order.\<close>

definition create_resp_json :: "create_resp \<Rightarrow> json" where
  "create_resp_json r =
     JObj [(''created_at'', JTime (cpCreated r)), (''expires_at'', j_opt JTime (cpExpires r)),
           (''hint'', JStr (cpHint r)), (''id'', JNum (cpID r)), (''name'', JStr (cpName r)),
           (''token'', JStr (cpToken r))]"

subsection \<open>Nothing is lost\<close>

lemma j_opt_eq [simp]:
  "j_opt JStr x = j_opt JStr y \<longleftrightarrow> x = y" "j_opt JNum m = j_opt JNum n \<longleftrightarrow> m = n"
  "j_opt JTime t = j_opt JTime u \<longleftrightarrow> t = u"
  by (auto simp: j_opt_def split: option.splits)

lemma row_json_inj: "inj mac_row_json" "inj arp_row_json" "inj interface_row_json" "inj vlan_row_json"
  by (auto intro!: injI simp: mac_row_json_def arp_row_json_def interface_row_json_def vlan_row_json_def
      split: prod.splits)

lemmas rows_json_eq = inj_map_eq_map [OF row_json_inj(1)] inj_map_eq_map [OF row_json_inj(2)]
  inj_map_eq_map [OF row_json_inj(3)] inj_map_eq_map [OF row_json_inj(4)]

lemma dbInspectResponse_json_inj: "dbInspectResponse_json r = dbInspectResponse_json s \<Longrightarrow> r = s"
  by (simp add: dbInspectResponse_json_def rows_json_eq)

lemma tableResp_json_mac:
  "tRows r = MacRows rs \<Longrightarrow> tRows s = MacRows ss \<Longrightarrow> tableResp_json r = tableResp_json s \<longleftrightarrow> r = s"
  by (auto simp: tableResp_json_def rows_json_eq)

lemma order_desc_eq_iff:
  assumes "distinct (map fst rs)"
  shows "order_desc rs = order_desc ss \<longleftrightarrow> mset rs = mset ss"
proof
  assume eq: "mset rs = mset ss"
  from assms have "inj_on (\<lambda>ir. - fst ir) (set rs)" by (auto simp: distinct_map inj_on_def)
  with eq show "order_desc rs = order_desc ss"
    unfolding order_desc_def by (intro sort_key_inj_key_eq) simp_all
next
  assume "order_desc rs = order_desc ss"
  then show "mset rs = mset ss" by (metis mset_order_desc)
qed

definition small_tables :: "db \<Rightarrow> bool" where
  "small_tables d \<longleftrightarrow> length (rows (macT d)) \<le> 500 \<and> length (rows (arpT d)) \<le> 500 \<and>
     length (rows (ifT d)) \<le> 500 \<and> length (rows (vlanT d)) \<le> 500"

text \<open>C31. The inspection page loses nothing: of databases whose tables have at most 500 rows each, two have
  the same page exactly when they hold the same rows, ids included, in all four tables.\<close>

theorem inspection_determines_tables:
  assumes "db_ok d" and "small_tables d" and "small_tables d'"
  shows "\<exists>r r'. InspectHandler (\<lambda>_. False) (\<lambda>_. d) ''GET'' = Reply 200 r \<and>
    InspectHandler (\<lambda>_. False) (\<lambda>_. d') ''GET'' = Reply 200 r' \<and>
    (dbInspectResponse_json r = dbInspectResponse_json r' \<longleftrightarrow>
       mset (rows (macT d)) = mset (rows (macT d')) \<and> mset (rows (arpT d)) = mset (rows (arpT d')) \<and>
       mset (rows (ifT d)) = mset (rows (ifT d')) \<and> mset (rows (vlanT d)) = mset (rows (vlanT d')))"
proof -
  define page where "page d = \<lparr>iMacRows = order_desc (rows (macT d)), iMacTotal = int (length (rows (macT d))),
    iArpRows = order_desc (rows (arpT d)), iArpTotal = int (length (rows (arpT d))),
    iInterfaceRows = order_desc (rows (ifT d)), iInterfaceTotal = int (length (rows (ifT d))),
    iVlanRows = order_desc (rows (vlanT d)), iVlanTotal = int (length (rows (vlanT d)))\<rparr>" for d :: db
  have page: "InspectHandler (\<lambda>_. False) (\<lambda>_. d) ''GET'' = Reply 200 (page d)" if "small_tables d" for d
    using that by (simp add: InspectHandler_def inspect_table_def dbInspectLimit_def small_tables_def page_def)
  have ids: "distinct (map fst (rows (macT d)))" "distinct (map fst (rows (arpT d)))"
    "distinct (map fst (rows (ifT d)))" "distinct (map fst (rows (vlanT d)))"
    using assms(1) by (simp_all add: db_ok_def table_ok_def)
  have "dbInspectResponse_json (page d) = dbInspectResponse_json (page d') \<longleftrightarrow> page d = page d'"
    by (auto dest: dbInspectResponse_json_inj)
  also have "\<dots> \<longleftrightarrow> mset (rows (macT d)) = mset (rows (macT d')) \<and> mset (rows (arpT d)) = mset (rows (arpT d')) \<and>
       mset (rows (ifT d)) = mset (rows (ifT d')) \<and> mset (rows (vlanT d)) = mset (rows (vlanT d'))"
    by (auto simp: page_def order_desc_eq_iff ids dest: mset_eq_length)
  finally show ?thesis using page [OF assms(2)] page [OF assms(3)] by blast
qed

theorem inspection_determines_tables_witness:
  "\<exists>r r'. InspectHandler (\<lambda>_. False) (\<lambda>_. demo_mac_db) ''GET'' = Reply 200 r \<and>
     InspectHandler (\<lambda>_. False) (\<lambda>_. empty_db) ''GET'' = Reply 200 r' \<and>
     dbInspectResponse_json r \<noteq> dbInspectResponse_json r'"
proof -
  have "db_ok demo_mac_db" "small_tables demo_mac_db" "small_tables empty_db"
    by (simp_all add: small_tables_def demo_mac_db_def db_ok_def empty_db_def empty_table_def table_ok_def)
  from inspection_determines_tables [OF this] show ?thesis
    by (auto simp: demo_mac_db_def empty_db_def empty_table_def)
qed

end
