(* ===== verification/Service.thy ===== *)
theory Service imports Webapp Viewer begin

text \<open>
  The web application as a whole: a request goes through the routing and the wrappers of \<open>Webapp\<close> to the
  handler of its endpoint, which reads and writes the state: the telemetry tables and the tokens. A
  reply is what the client sees: a status with a JSON value, an error, a page, or a redirect. Requests
  are run one after the other here (\<open>TokenRace\<close> lets them overlap); the statements of a request see
  the state the request found.
\<close>

subsection \<open>Requests, conditions, replies\<close>

record call =
  clRequest :: request
  clQuery :: "string \<Rightarrow> string"
  clBody :: "json option"

text \<open>The libraries, and what a request meets: clocks, faults, random bytes, the resolver.\<close>

record libs =
  lbDigest :: "string \<Rightarrow> string"
  lbRequire :: "handler \<Rightarrow> handler"
  lbSlo :: "string \<Rightarrow> string option"
  lbIlike :: "string \<Rightarrow> string \<Rightarrow> bool"
  lbArrange :: "search_result list \<Rightarrow> search_result list"
  lbArrangePorts :: "port_match list \<Rightarrow> port_match list"

record conditions =
  cnNow :: instant                     \<comment> \<open>database time of the token look-up\<close>
  cnGateFails :: bool
  cnTouchFails :: bool
  cnFails :: "nat \<Rightarrow> bool"             \<comment> \<open>of the statements of the handler\<close>
  cnClock :: instant
  cnNow1 :: instant
  cnNow2 :: instant
  cnRaw :: "8 word list option"
  cnLookupHost :: "string \<Rightarrow> string list option"
  cnLookupAddr :: "string \<Rightarrow> string list option"

record web_state =
  wsDb :: db
  wsTokens :: "token_row table"

datatype response =
    Json nat json
  | ErrorText nat
  | NoContent
  | Page string
  | Index "nav_link list" "nav_link list"
  | ToLogin
  | SamlAnswer
  | Redirect string bool
  | Missing

definition respond :: "('a \<Rightarrow> json) \<Rightarrow> 'a reply \<Rightarrow> response" where
  "respond f rep = (case rep of HttpError c \<Rightarrow> ErrorText c | Reply st v \<Rightarrow> Json st (f v))"

definition respond_empty :: "unit reply \<Rightarrow> response" where
  "respond_empty rep = (case rep of HttpError c \<Rightarrow> ErrorText c | Reply st v \<Rightarrow> NoContent)"

definition env_of :: "libs \<Rightarrow> conditions \<Rightarrow> web_state \<Rightarrow> env" where
  "env_of lb cn st = \<lparr>evDigest = lbDigest lb, evDbFails = cnGateFails cn, evNow = cnNow cn,
     evTokens = wsTokens st, evRequire = lbRequire lb, evSlo = lbSlo lb\<rparr>"

subsection \<open>Endpoints\<close>

fun run_endpoint :: "config \<Rightarrow> libs \<Rightarrow> conditions \<Rightarrow> call \<Rightarrow> endpoint \<Rightarrow> web_state \<Rightarrow> response \<times> web_state" where
  "run_endpoint cf lb cn cl (IndexPage header menu) st = (Index header menu, st)"
| "run_endpoint cf lb cn cl (Me user) st = (Json 200 (JObj [(''user'', JStr user)]), st)"
| "run_endpoint cf lb cn cl SearchApi st =
     (respond search_response_json (SearchHandler (cnLookupHost cn) (lbArrange lb) (cnFails cn 0) (wsDb st)
        (rqMethod (clRequest cl)) (clBody cl)), st)"
| "run_endpoint cf lb cn cl PortApi st =
     (respond port_result_json (PortHandler (cnFails cn 0) (wsDb st) (rqMethod (clRequest cl)) (clQuery cl)), st)"
| "run_endpoint cf lb cn cl LookupApi st =
     (respond lookup_response_json (LookupHandler (lbIlike lb) (lbArrangePorts lb) (cnFails cn 0) (wsDb st)
        (rqMethod (clRequest cl)) (clBody cl)), st)"
| "run_endpoint cf lb cn cl VlansApi st =
     (respond vlans_response_json (VlansHandler (cnFails cn 0) (wsDb st) (rqMethod (clRequest cl)) (clQuery cl)), st)"
| "run_endpoint cf lb cn cl RdnsApi st =
     (respond rdns_json (rdnsHandler (cnLookupAddr cn) (rqMethod (clRequest cl)) (clQuery cl)), st)"
| "run_endpoint cf lb cn cl DbviewPage st = (Page ''dbview.html'', st)"
| "run_endpoint cf lb cn cl InspectApi st =
     (respond dbInspectResponse_json (InspectHandler (cnFails cn) (\<lambda>_. wsDb st) (rqMethod (clRequest cl))), st)"
| "run_endpoint cf lb cn cl TableApi st =
     (respond tableResp_json (TableHandler (lbIlike lb) (cnFails cn) (\<lambda>_. wsDb st) (rqMethod (clRequest cl))
        (clQuery cl)), st)"
| "run_endpoint cf lb cn cl TokensPage st = (Page ''tokens.html'', st)"
| "run_endpoint cf lb cn cl (ListTokens user) st =
     (respond (\<lambda>ts. JArr (map tokenInfo_json ts)) (ListHandler (cnFails cn 0) (wsTokens st) user), st)"
| "run_endpoint cf lb cn cl (CreateToken user) st =
     (case CreateHandler (lbDigest lb) (cnFails cn) (cnClock cn) (cnNow1 cn) (cnNow2 cn) user (clBody cl)
             (cnRaw cn) (wsTokens st) of
        (rep, t) \<Rightarrow> (respond create_resp_json rep, st\<lparr>wsTokens := t\<rparr>))"
| "run_endpoint cf lb cn cl (RevokeToken user idtext) st =
     (case RevokeHandler (cnFails cn 0) (cnNow1 cn) user idtext (wsTokens st) of
        (rep, t) \<Rightarrow> (respond_empty rep, st\<lparr>wsTokens := t\<rparr>))"
| "run_endpoint cf lb cn cl SwaggerPage st = (Page ''swagger.html'', st)"
| "run_endpoint cf lb cn cl SpecDoc st = (Json 200 (specJSON (cfDbview cf)), st)"

subsection \<open>The token of a request\<close>

text \<open>
  The id the token look-up of the middleware found, and the update of \<open>last_used_at\<close> it starts in the
  background. The update runs at some time after the look-up; here, when the request is over.
\<close>

definition token_used :: "libs \<Rightarrow> conditions \<Rightarrow> call \<Rightarrow> web_state \<Rightarrow> int option" where
  "token_used lb cn cl st =
     (let auth = rqAuth (clRequest cl); tok = TrimSpace (trim_prefix auth ''Bearer '') in
      if has_prefix auth ''Bearer '' \<and> has_prefix tok apiTokenPrefix then
        (case LookupToken (lbDigest lb) (cnGateFails cn) (cnNow cn) (wsTokens st) tok of
           Inl _ \<Rightarrow> None | Inr (i, _) \<Rightarrow> Some i)
      else None)"

definition touch_state :: "conditions \<Rightarrow> int option \<Rightarrow> web_state \<Rightarrow> web_state" where
  "touch_state cn used st =
     (case used of
        None \<Rightarrow> st
      | Some i \<Rightarrow> if cnTouchFails cn then st
                 else st\<lparr>wsTokens := touch_last_used (cnNow cn) i (wsTokens st)\<rparr>)"

text \<open>Only the data endpoints stand behind \<open>BearerOrSAML\<close>.\<close>

definition serve :: "config \<Rightarrow> libs \<Rightarrow> conditions \<times> call \<Rightarrow> web_state \<Rightarrow> response \<times> web_state" where
  "serve cf lb rq st =
     (case rq of (cn, cl) \<Rightarrow>
        case ServeHTTP cf (env_of lb cn st) (clRequest cl) of
          Answer e \<Rightarrow>
            (case run_endpoint cf lb cn cl e st of
               (rsp, st') \<Rightarrow> (rsp, if is_data e then touch_state cn (token_used lb cn cl st) st' else st'))
        | Refused c \<Rightarrow> (ErrorText c, st)
        | Login \<Rightarrow> (ToLogin, st)
        | SamlService \<Rightarrow> (SamlAnswer, st)
        | Redirected url deleted \<Rightarrow> (Redirect url deleted, st)
        | NotFound \<Rightarrow> (Missing, st))"

fun serve_all :: "config \<Rightarrow> libs \<Rightarrow> (conditions \<times> call) list \<Rightarrow> web_state \<Rightarrow> response list \<times> web_state" where
  "serve_all cf lb [] st = ([], st)"
| "serve_all cf lb (rq # rqs) st =
     (case serve cf lb rq st of
        (rsp, st1) \<Rightarrow> (case serve_all cf lb rqs st1 of (rsps, st2) \<Rightarrow> (rsp # rsps, st2)))"

subsection \<open>Requests without credentials\<close>

text \<open>What the SAML library documents of \<open>RequireAccount\<close>.\<close>

definition saml_checks :: "libs \<Rightarrow> bool" where
  "saml_checks lb \<longleftrightarrow>
     (\<forall>h rq ctx. lbRequire lb h rq ctx = (case rqSession rq of None \<Rightarrow> Login | Some s \<Rightarrow> h rq (Some s)))"

definition anonymous :: "libs \<Rightarrow> web_state \<Rightarrow> conditions \<times> call \<Rightarrow> bool" where
  "anonymous lb st rq \<longleftrightarrow>
     rqSession (clRequest (snd rq)) = None \<and>
     \<not> token_holder (env_of lb (fst rq) st) (rqAuth (clRequest (snd rq)))"

text \<open>Route tables that differ in their handlers only.\<close>

definition same_route :: "request \<Rightarrow> string \<times> handler \<Rightarrow> string \<times> handler \<Rightarrow> bool" where
  "same_route rq r r' \<longleftrightarrow> fst r = fst r' \<and> snd r rq None = snd r' rq None \<and> (\<forall>e. snd r rq None \<noteq> Answer e)"

lemma first_best_rel:
  assumes "list_all2 R xs ys" and b: "\<And>x x' y y'. R x x' \<Longrightarrow> R y y' \<Longrightarrow> b x y = b' x' y'"
  shows "rel_option R (first_best b xs) (first_best b' ys)"
proof -
  have fold: "R (fold (\<lambda>x r. if b x r then x else r) xs r) (fold (\<lambda>x r. if b' x r then x else r) ys r')"
    if "list_all2 R xs ys" and "R r r'" for xs ys r r'
    using that by (induction arbitrary: r r' rule: list_all2_induct) (auto simp: b)
  from assms(1) show ?thesis
    by (cases rule: list.rel_cases) (simp_all add: first_best_def fold)
qed

lemma best_route_rel:
  assumes "list_all2 (same_route rq) rs rs'"
  shows "rel_option (same_route rq) (best_route rs meth path) (best_route rs' meth path)"
proof -
  let ?fits = "\<lambda>r. pattern_method (fst r) = meth \<and> seg_match (pattern_segs (fst r)) (fst path) (snd path)"
  have "list_all2 (same_route rq) (filter ?fits rs) (filter ?fits rs')"
    using assms by (induction rule: list_all2_induct) (auto simp: same_route_def)
  then show ?thesis
    unfolding best_route_def by (rule first_best_rel) (simp add: same_route_def)
qed

lemma find_route_rel:
  assumes "list_all2 (same_route rq) rs rs'"
  shows "rel_option (same_route rq) (find_route rs meth path) (find_route rs' meth path)"
  using best_route_rel [OF assms, of meth path] best_route_rel [OF assms, of "''GET''" path]
    best_route_rel [OF assms, of "[]" path]
  unfolding find_route_def
  by (auto split: option.splits simp: rel_option_iff)

lemma exact_route_rel: "rel_option (same_route rq) r r' \<Longrightarrow> exact_route r path = exact_route r' path"
  by (cases r; cases r') (auto simp: exact_route_def same_route_def)

lemma ServeHTTP_same:
  assumes "list_all2 (same_route rq) (app_routes cf ev) (app_routes cf ev')"
  shows "ServeHTTP cf ev rq = ServeHTTP cf ev' rq \<and> (\<forall>e. ServeHTTP cf ev rq \<noteq> Answer e)"
proof -
  note rel = find_route_rel [OF assms, of "rqMethod rq"]
  have exact: "exact_route (find_route (app_routes cf ev) (rqMethod rq) path) path =
      exact_route (find_route (app_routes cf ev') (rqMethod rq) path) path" for path
    by (rule exact_route_rel [OF rel])
  show ?thesis
    using rel [of "rqPath rq"] unfolding ServeHTTP_def Let_def exact
    by (auto split: option.splits simp: rel_option_iff same_route_def) metis+
qed

lemma anonymous_routes:
  assumes "cfSaml cf" and "saml_checks lb" and "rqSession rq = None"
    and "\<not> token_holder (env_of lb cn st) (rqAuth rq)" and "\<not> token_holder (env_of lb cn st') (rqAuth rq)"
  shows "list_all2 (same_route rq) (app_routes cf (env_of lb cn st)) (app_routes cf (env_of lb cn st'))"
proof -
  have require: "lbRequire lb h rq ctx = Login" for h ctx
    using assms(2,3) by (simp add: saml_checks_def)
  have prot: "same_route rq (p, protect cf (env_of lb cn st) h) (p, protect cf (env_of lb cn st') h')" for p h h'
    using assms(1) by (simp add: same_route_def protect_def env_of_def require)
  have admin: "same_route rq (p, protectAdmin cf (env_of lb cn st) h) (p, protectAdmin cf (env_of lb cn st') h)"
    for p h
    using prot by (simp add: protectAdmin_def)
  let ?gate = "\<lambda>st. BearerOrSAML (lbDigest lb) (cnGateFails cn) (cnNow cn) (wsTokens st) True (rqAuth rq)"
  have none: "find (\<lambda>ir. tkHash (snd ir) = lbDigest lb (TrimSpace (trim_prefix (rqAuth rq) ''Bearer '')) \<and>
      live (cnNow cn) (snd ir)) (rows (wsTokens s)) = None"
    if "\<not> token_holder (env_of lb cn s) (rqAuth rq)" "has_prefix (rqAuth rq) ''Bearer ''" for s
    using that by (auto simp: token_holder_def env_of_def find_None_iff)
  have "?gate st = ?gate st' \<and> ?gate st \<noteq> Serve"
    using none [OF assms(4)] none [OF assms(5)]
    by (simp add: BearerOrSAML_def LookupToken_def Let_def)
  then have api: "same_route rq (p, apiAuth cf (env_of lb cn st) h) (p, apiAuth cf (env_of lb cn st') h)" for p h
    using assms(1) by (auto simp: same_route_def apiAuth_def env_of_def require split: gate.splits)
  have saml: "same_route rq (p, \<lambda>rq ctx. SamlService) (p, \<lambda>rq ctx. SamlService)" for p
    by (simp add: same_route_def)
  show ?thesis
    by (simp add: app_routes_def dataModules_def infraModules_def prot admin api saml)
qed

text \<open>C11. Strangers learn nothing and change nothing: with SAML on, a series of requests that have no session
  and no live API token gets the same replies from any two states of the telemetry and token tables,
  and leaves every state as it was. So no reply given to a stranger depends on stored data, not even on
  whether a row or a user exists.\<close>

theorem strangers_learn_nothing:
  assumes "cfSaml cf" and "saml_checks lb"
    and "list_all (\<lambda>rq. anonymous lb st rq \<and> anonymous lb st' rq) rqs"
  shows "fst (serve_all cf lb rqs st) = fst (serve_all cf lb rqs st') \<and>
    snd (serve_all cf lb rqs st) = st \<and> snd (serve_all cf lb rqs st') = st'"
  using assms(3)
proof (induction rqs)
  case (Cons rq rqs)
  obtain cn cl where rq: "rq = (cn, cl)" by fastforce
  from Cons.prems have "rqSession (clRequest cl) = None"
    "\<not> token_holder (env_of lb cn st) (rqAuth (clRequest cl))"
    "\<not> token_holder (env_of lb cn st') (rqAuth (clRequest cl))"
    by (simp_all add: anonymous_def rq)
  from ServeHTTP_same [OF anonymous_routes [OF assms(1,2) this]]
  have "serve cf lb rq st = (fst (serve cf lb rq st), st)" "serve cf lb rq st' = (fst (serve cf lb rq st), st')"
    by (auto simp: serve_def rq split: outcome.split)
  with Cons show ?case by (auto split: prod.splits)
qed simp

subsection \<open>What requests do to the tokens\<close>

text \<open>A row of \<open>api_tokens\<close> later on: only its use and its revocation may have been noted.\<close>

definition token_evolves :: "bool \<Rightarrow> token_row \<Rightarrow> token_row \<Rightarrow> bool" where
  "token_evolves revoking r r' \<longleftrightarrow>
     r'\<lparr>tkLastUsed := None, tkRevoked := None\<rparr> = r\<lparr>tkLastUsed := None, tkRevoked := None\<rparr> \<and>
     (tkRevoked r \<noteq> None \<or> \<not> revoking \<longrightarrow> tkRevoked r' = tkRevoked r)"

definition tokens_evolve :: "bool \<Rightarrow> token_row table \<Rightarrow> token_row table \<Rightarrow> bool" where
  "tokens_evolve revoking t t' \<longleftrightarrow>
     (\<forall>(i, r) \<in> set (rows t). \<exists>r'. (i, r') \<in> set (rows t') \<and> token_evolves revoking r r')"

lemma token_evolves_refl [simp]: "token_evolves b r r"
  by (simp add: token_evolves_def)

lemma token_evolves_trans: "token_evolves b r s \<Longrightarrow> token_evolves b s t \<Longrightarrow> token_evolves b r t"
  by (auto simp: token_evolves_def)

lemma tokens_evolve_refl [simp]: "tokens_evolve b t t"
  by (force simp: tokens_evolve_def)

lemma tokens_evolve_trans: "tokens_evolve b t u \<Longrightarrow> tokens_evolve b u v \<Longrightarrow> tokens_evolve b t v"
  unfolding tokens_evolve_def by (fast dest: token_evolves_trans)

text \<open>The tokens of a user, when they were last used aside.\<close>

definition tokens_of :: "string \<Rightarrow> token_row table \<Rightarrow> (int \<times> token_row) list" where
  "tokens_of user t =
     map (\<lambda>(i, r). (i, r\<lparr>tkLastUsed := None\<rparr>)) (filter (\<lambda>ir. tkUser (snd ir) = user) (rows t))"

lemma CreateHandler_rows:
  assumes "CreateHandler digest q_fails clock now1 now2 user body raw t = (rep, t')"
  shows "\<exists>new. rows t' = rows t @ new \<and> (\<forall>ir \<in> set new. tkUser (snd ir) = user)"
  using assms by (auto simp: CreateHandler_def create_insert_def split: sum.splits prod.splits if_splits)

lemma RevokeHandler_rows:
  assumes "RevokeHandler fails now user idtext t = (rep, t')"
  shows "\<exists>hit. rows t' = map (\<lambda>ir. if hit ir then (fst ir, (snd ir)\<lparr>tkRevoked := Some now\<rparr>) else ir) (rows t) \<and>
    (\<forall>ir. hit ir \<longrightarrow> tkUser (snd ir) = user \<and> tkRevoked (snd ir) = None)"
proof -
  have none: "rows t = map (\<lambda>ir. if False then (fst ir, (snd ir)\<lparr>tkRevoked := Some now\<rparr>) else ir) (rows t)"
    by simp
  obtain err i where pi: "ParseInt idtext = (err, i)" by fastforce
  let ?hit = "\<lambda>ir. fst ir = i \<and> tkUser (snd ir) = user \<and> tkRevoked (snd ir) = None"
  from assms have "t' = t \<or> rows t' = map (\<lambda>ir. if ?hit ir then (fst ir, (snd ir)\<lparr>tkRevoked := Some now\<rparr>) else ir) (rows t)"
    by (auto simp: RevokeHandler_def pi Let_def split: if_splits)
  then show ?thesis
  proof
    assume "t' = t"
    with none show ?thesis by (intro exI [of _ "\<lambda>_. False"]) simp
  next
    assume "rows t' = map (\<lambda>ir. if ?hit ir then (fst ir, (snd ir)\<lparr>tkRevoked := Some now\<rparr>) else ir) (rows t)"
    then show ?thesis by (intro exI [of _ ?hit]) simp
  qed
qed

lemma create_evolves: "CreateHandler digest q_fails clock now1 now2 user body raw t = (rep, t') \<Longrightarrow> tokens_evolve b t t'"
  by (drule CreateHandler_rows) (force simp: tokens_evolve_def)

lemma revoke_evolves:
  assumes "RevokeHandler fails now user idtext t = (rep, t')"
  shows "tokens_evolve True t t'"
proof -
  from RevokeHandler_rows [OF assms] obtain hit where
    rows: "rows t' = map (\<lambda>ir. if hit ir then (fst ir, (snd ir)\<lparr>tkRevoked := Some now\<rparr>) else ir) (rows t)"
    and hit: "\<And>ir. hit ir \<Longrightarrow> tkRevoked (snd ir) = None" by blast
  have "\<exists>r'. (i, r') \<in> set (rows t') \<and> token_evolves True r r'" if "(i, r) \<in> set (rows t)" for i r
  proof (cases "hit (i, r)")
    case True
    with that have "(i, r\<lparr>tkRevoked := Some now\<rparr>) \<in> set (rows t')" unfolding rows by force
    moreover have "token_evolves True r (r\<lparr>tkRevoked := Some now\<rparr>)"
      using hit [OF True] by (simp add: token_evolves_def)
    ultimately show ?thesis by blast
  next
    case False
    with that have "(i, r) \<in> set (rows t')" unfolding rows by force
    then show ?thesis by auto
  qed
  then show ?thesis by (auto simp: tokens_evolve_def)
qed

lemma touch_evolves: "tokens_evolve b t (touch_last_used now i t)"
proof -
  have "\<exists>r'. (j, r') \<in> set (rows (touch_last_used now i t)) \<and> token_evolves b r r'"
    if "(j, r) \<in> set (rows t)" for j r
  proof (cases "j = i")
    case True
    with that have "(j, r\<lparr>tkLastUsed := Some now\<rparr>) \<in> set (rows (touch_last_used now i t))"
      by (force simp: touch_last_used_def)
    then show ?thesis by (auto simp: token_evolves_def)
  next
    case False
    with that have "(j, r) \<in> set (rows (touch_last_used now i t))" by (force simp: touch_last_used_def)
    then show ?thesis by auto
  qed
  then show ?thesis by (auto simp: tokens_evolve_def)
qed

lemma CreateHandler_ok:
  assumes "table_ok tkHash t"
  shows "table_ok tkHash (snd (CreateHandler digest q_fails clock now1 now2 user body raw t))"
  using assms create_insert_ok [OF assms, of "q_fails 1" now2 user]
  by (auto simp: CreateHandler_def split: sum.split option.split prod.split) (metis snd_conv)+

subsection \<open>One request, and series of them\<close>

lemma run_endpoint_db: "wsDb (snd (run_endpoint cf lb cn cl e st)) = wsDb st"
  by (cases e) (simp_all split: prod.split)

lemma touch_state_db [simp]: "wsDb (touch_state cn used st) = wsDb st"
  by (simp add: touch_state_def split: option.split)

lemma run_endpoint_ok:
  "table_ok tkHash (wsTokens st) \<Longrightarrow> table_ok tkHash (wsTokens (snd (run_endpoint cf lb cn cl e st)))"
  using CreateHandler_ok [of "wsTokens st"] RevokeHandler_ok [of "wsTokens st"]
  by (cases e) (auto split: prod.split, (metis snd_conv)+)

lemma run_endpoint_evolves:
  "(\<And>u i. e = RevokeToken u i \<Longrightarrow> b) \<Longrightarrow>
     tokens_evolve b (wsTokens st) (wsTokens (snd (run_endpoint cf lb cn cl e st)))"
  by (cases e) (auto split: prod.split intro: create_evolves revoke_evolves)

lemma touch_state_evolves: "tokens_evolve b (wsTokens st) (wsTokens (touch_state cn used st))"
  by (simp add: touch_state_def touch_evolves split: option.split)

lemma touch_state_ok: "table_ok tkHash (wsTokens st) \<Longrightarrow> table_ok tkHash (wsTokens (touch_state cn used st))"
  by (simp add: touch_state_def touch_ok split: option.split)

text \<open>The state after a request is that of its endpoint, touched or not.\<close>

lemma serve_state:
  obtains "snd (serve cf lb (cn, cl) st) = st"
    | e used where "ServeHTTP cf (env_of lb cn st) (clRequest cl) = Answer e"
        "snd (serve cf lb (cn, cl) st) = touch_state cn used (snd (run_endpoint cf lb cn cl e st))"
proof (cases "ServeHTTP cf (env_of lb cn st) (clRequest cl)")
  case (Answer e)
  have "touch_state cn None s = s" for s by (simp add: touch_state_def)
  then have "snd (serve cf lb (cn, cl) st) =
      touch_state cn (if is_data e then token_used lb cn cl st else None) (snd (run_endpoint cf lb cn cl e st))"
    by (simp add: serve_def Answer case_prod_beta)
  with Answer show ?thesis by (rule that(2))
qed (use that(1) in \<open>simp_all add: serve_def\<close>)

text \<open>Tokens are revoked by DELETE requests only.\<close>

lemma find_route_method:
  "find_route rs meth path = Some r \<Longrightarrow>
     pattern_method (fst r) = meth \<or> pattern_method (fst r) = ''GET'' \<or> pattern_method (fst r) = []"
  unfolding find_route_def best_route_def
  by (auto split: option.splits if_splits dest!: first_best_mem)

lemma revoke_routes:
  assumes "saml_checks lb"
  shows "list_all (\<lambda>r. \<forall>rq u i. snd r rq None = Answer (RevokeToken u i) \<longrightarrow> pattern_method (fst r) = ''DELETE'')
    (app_routes cf (env_of lb cn st))"
proof -
  have require: "lbRequire lb h rq ctx = (case rqSession rq of None \<Rightarrow> Login | Some s \<Rightarrow> h rq (Some s))" for h rq ctx
    using assms by (simp add: saml_checks_def)
  have prot: "protect cf (env_of lb cn st) h rq None \<noteq> Answer (RevokeToken u i)"
    if "\<And>ctx. h rq ctx \<noteq> Answer (RevokeToken u i)" for h rq u i
    using that by (simp add: protect_def env_of_def require split: option.split)
  have api: "apiAuth cf (env_of lb cn st) (endpoint_handler e) rq None \<noteq> Answer (RevokeToken u i)"
    if "is_data e" for e rq u i
    using that by (auto simp: apiAuth_def endpoint_handler_def env_of_def require split: gate.splits option.splits)
  have admin: "protectAdmin cf (env_of lb cn st) h rq None \<noteq> Answer (RevokeToken u i)"
    if "\<And>ctx. h rq ctx \<noteq> Answer (RevokeToken u i)" for h rq u i
    unfolding protectAdmin_def by (rule prot) (simp add: that)
  have shell: "index_handler cf rq ctx \<noteq> Answer (RevokeToken u i)" "me_handler rq ctx \<noteq> Answer (RevokeToken u i)"
    "logout_handler cf ev rq ctx \<noteq> Answer (RevokeToken u i)" for ev rq ctx u i
    by (simp_all add: index_handler_def me_handler_def logout_handler_def Let_def split: option.split)
  show ?thesis
    by (simp add: app_routes_def dataModules_def infraModules_def route_patterns prot [OF shell(1)]
        prot [OF shell(2)] prot [OF shell(3)] api admin endpoint_handler_def [of TokensPage]
        endpoint_handler_def [of SwaggerPage] endpoint_handler_def [of SpecDoc])
qed

lemma revoke_is_delete:
  assumes "saml_checks lb" and "ServeHTTP cf (env_of lb cn st) rq = Answer (RevokeToken u i)"
  shows "rqMethod rq = ''DELETE''"
proof -
  let ?rs = "app_routes cf (env_of lb cn st)"
  from assms(2) obtain p h where r: "find_route ?rs (rqMethod rq) (rqPath rq) = Some (p, h)"
    and h: "h rq None = Answer (RevokeToken u i)"
    by (auto simp: ServeHTTP_def Let_def split: if_splits option.splits)
  have "pattern_method p = ''DELETE''"
    using revoke_routes [OF assms(1), of cf cn st] find_route_mem [OF r] h by (auto simp: list_all_iff)
  with find_route_method [OF r] show ?thesis by auto
qed

lemma serve_evolves:
  assumes "saml_checks lb" and "rqMethod (clRequest cl) = ''DELETE'' \<Longrightarrow> b"
  shows "tokens_evolve b (wsTokens st) (wsTokens (snd (serve cf lb (cn, cl) st)))"
proof (cases rule: serve_state [of cf lb cn cl st])
  case (2 e used)
  have "tokens_evolve b (wsTokens st) (wsTokens (snd (run_endpoint cf lb cn cl e st)))"
    by (rule run_endpoint_evolves) (use 2(1) assms revoke_is_delete in blast)
  then show ?thesis unfolding 2(2) by (rule tokens_evolve_trans [OF _ touch_state_evolves])
qed simp

lemma serve_keeps:
  "wsDb (snd (serve cf lb rq st)) = wsDb st"
  "table_ok tkHash (wsTokens st) \<Longrightarrow> table_ok tkHash (wsTokens (snd (serve cf lb rq st)))"
  by (cases rq; cases rule: serve_state [of cf lb "fst rq" "snd rq" st];
      simp add: run_endpoint_db run_endpoint_ok touch_state_ok)+

lemma serve_all_keeps:
  assumes "saml_checks lb"
  shows "wsDb (snd (serve_all cf lb rqs st)) = wsDb st"
    and "table_ok tkHash (wsTokens st) \<Longrightarrow> table_ok tkHash (wsTokens (snd (serve_all cf lb rqs st)))"
    and "list_all (\<lambda>rq. rqMethod (clRequest (snd rq)) = ''DELETE'' \<longrightarrow> b) rqs \<Longrightarrow>
      tokens_evolve b (wsTokens st) (wsTokens (snd (serve_all cf lb rqs st)))"
proof (induction rqs arbitrary: st)
  case (Cons rq rqs)
  { case 1 show ?case using Cons.IH(1) serve_keeps(1) by (simp add: case_prod_beta) }
  { case 2 then show ?case using Cons.IH(2) serve_keeps(2) by (simp add: case_prod_beta) }
  { case 3
    then have "tokens_evolve b (wsTokens st) (wsTokens (snd (serve cf lb rq st)))"
      using serve_evolves [OF assms, of "snd rq" b st cf "fst rq"] by simp
    with 3 Cons.IH(3) [of "snd (serve cf lb rq st)"] show ?case
      by (auto simp: case_prod_beta intro: tokens_evolve_trans) }
qed simp_all

text \<open>C17. The web application only reads the telemetry: whatever requests it serves, whoever sends them, the
  four tables stay as they are. Of the tokens none is ever deleted, changes its owner, name, text or
  expiry, or is revoked a second time or revived; their ids and hashes stay unique.\<close>

theorem requests_keep_tables:
  assumes "saml_checks lb" and "table_ok tkHash (wsTokens st)" and "serve_all cf lb rqs st = (rsps, st')"
  shows "wsDb st' = wsDb st \<and> table_ok tkHash (wsTokens st') \<and>
    (\<forall>(i, r) \<in> set (rows (wsTokens st)). \<exists>r'. (i, r') \<in> set (rows (wsTokens st')) \<and>
       tkUser r' = tkUser r \<and> tkName r' = tkName r \<and> tkHash r' = tkHash r \<and> tkCreated r' = tkCreated r \<and>
       tkExpires r' = tkExpires r \<and> (tkRevoked r \<noteq> None \<longrightarrow> tkRevoked r' = tkRevoked r))"
proof -
  have fields: "tkUser r' = tkUser r \<and> tkName r' = tkName r \<and> tkHash r' = tkHash r \<and> tkCreated r' = tkCreated r \<and>
       tkExpires r' = tkExpires r \<and> (tkRevoked r \<noteq> None \<longrightarrow> tkRevoked r' = tkRevoked r)"
    if "token_evolves True r r'" for r r' :: token_row
    using that by (cases r; cases r') (simp add: token_evolves_def)
  have "tokens_evolve True (wsTokens st) (wsTokens st')"
    using serve_all_keeps(3) [OF assms(1), where b = True and rqs = rqs and cf = cf and st = st] assms(3) by (simp add: list_all_iff)
  with serve_all_keeps(1,2) [OF assms(1), where rqs = rqs and cf = cf and st = st] assms(2,3) show ?thesis
    unfolding tokens_evolve_def by (auto dest!: bspec) (use fields in blast)
qed

subsection \<open>The life of a token\<close>

definition data_paths :: "(string \<times> endpoint) set" where
  "data_paths = {(''/api/search'', SearchApi), (''/api/port'', PortApi), (''/api/portlookup'', LookupApi),
     (''/api/vlans'', VlansApi), (''/api/rdns'', RdnsApi)}"

lemma data_path_route:
  assumes "(p, e) \<in> data_paths" and "rqPath rq = path_of p"
  shows "ServeHTTP cf ev rq = apiAuth cf ev (endpoint_handler e) rq None" and "is_data e"
proof -
  from assms(1) show "is_data e" by (auto simp: data_paths_def)
  have paths: "path_of ''/api/search'' = ([''api'', ''search''], False)" "path_of ''/api/port'' = ([''api'', ''port''], False)"
    "path_of ''/api/portlookup'' = ([''api'', ''portlookup''], False)" "path_of ''/api/vlans'' = ([''api'', ''vlans''], False)"
    "path_of ''/api/rdns'' = ([''api'', ''rdns''], False)"
    by (simp_all add: path_of_def)
  from assms show "ServeHTTP cf ev rq = apiAuth cf ev (endpoint_handler e) rq None"
    by (auto simp: data_paths_def paths ServeHTTP_def Let_def page_routes exact_routes)
qed

text \<open>A request that presents a text as its bearer token.\<close>

definition presents :: "string \<Rightarrow> call \<Rightarrow> bool" where
  "presents tok cl \<longleftrightarrow> rqAuth (clRequest cl) = ''Bearer '' @ tok \<and> TrimSpace tok = tok \<and> has_prefix tok apiTokenPrefix"

lemma serve_presented:
  assumes "presents tok cl" and "(p, e) \<in> data_paths" and "rqPath (clRequest cl) = path_of p"
  shows "serve cf lb (cn, cl) st =
    (case LookupToken (lbDigest lb) (cnGateFails cn) (cnNow cn) (wsTokens st) tok of
       Inl err \<Rightarrow> (ErrorText (if err = NoRows then 401 else 500), st)
     | Inr (i, u) \<Rightarrow> (fst (run_endpoint cf lb cn cl e st),
         touch_state cn (Some i) (snd (run_endpoint cf lb cn cl e st))))"
proof -
  have auth: "has_prefix (rqAuth (clRequest cl)) ''Bearer ''" "trim_prefix (rqAuth (clRequest cl)) ''Bearer '' = tok"
    "TrimSpace tok = tok" "has_prefix tok apiTokenPrefix"
    using assms(1) unfolding presents_def by (metis has_prefix_append trim_prefix_append)+
  show ?thesis
    using data_path_route [OF assms(2,3)]
    by (simp add: serve_def auth apiAuth_def BearerOrSAML_def token_used_def env_of_def endpoint_handler_def
        Let_def case_prod_beta split: sum.split)
qed

lemma lookup_row:
  assumes "table_ok tkHash t" and "(i, r) \<in> set (rows t)" and "tkHash r = digest p"
  shows "LookupToken digest fails now t p =
    (if fails then Inl DbError else if live now r then Inr (i, tkUser r) else Inl NoRows)"
proof -
  have "jr = (i, r)" if "jr \<in> set (rows t)" "tkHash (snd jr) = digest p" for jr
  proof -
    from assms(1) have "inj_on (\<lambda>ir. tkHash (snd ir)) (set (rows t))"
      by (simp add: table_ok_def distinct_map)
    from inj_onD [OF this, of jr "(i, r)"] that assms(2,3) show ?thesis by simp
  qed
  note this_only = this
  let ?hit = "\<lambda>jr. tkHash (snd jr) = digest p \<and> live now (snd jr)"
  have "find ?hit (rows t) = (if live now r then Some (i, r) else None)"
  proof (cases "find ?hit (rows t)")
    case None
    then show ?thesis using assms(2,3) by (auto simp: find_None_iff)
  next
    case (Some jr)
    with this_only [of jr] find_Some_mem [OF Some] show ?thesis by auto
  qed
  then show ?thesis by (simp add: LookupToken_def)
qed

text \<open>C13. Revocation is for ever: once the token with the hash of a text is revoked, no later request that
  presents the text is let through to a data endpoint, whatever requests were served in between, by
  any user; it gets 401, or 500 when the look-up fails, and changes nothing.\<close>

theorem revoked_token_stays_out:
  assumes "saml_checks lb" and "table_ok tkHash (wsTokens st)"
    and "(i, r) \<in> set (rows (wsTokens st))" and "tkHash r = lbDigest lb tok" and "tkRevoked r \<noteq> None"
    and "serve_all cf lb rqs st = (rsps, st')"
    and "presents tok cl" and "(p, e) \<in> data_paths" and "rqPath (clRequest cl) = path_of p"
  shows "serve cf lb (cn, cl) st' = (ErrorText (if cnGateFails cn then 500 else 401), st')"
proof -
  have "tokens_evolve True (wsTokens st) (wsTokens st')"
    using serve_all_keeps(3) [OF assms(1), where b = True and rqs = rqs and cf = cf and st = st] assms(6) by (simp add: list_all_iff)
  with assms(3) obtain r' where r': "(i, r') \<in> set (rows (wsTokens st'))" and ev: "token_evolves True r r'"
    by (auto simp: tokens_evolve_def)
  from ev assms(4,5) have hash: "tkHash r' = lbDigest lb tok" and dead: "tkRevoked r' \<noteq> None"
    by (cases r; cases r'; simp add: token_evolves_def)+
  have ok: "table_ok tkHash (wsTokens st')"
    using serve_all_keeps(2) [OF assms(1,2), where rqs = rqs and cf = cf] assms(6) by simp
  have "LookupToken (lbDigest lb) (cnGateFails cn) (cnNow cn) (wsTokens st') tok =
      Inl (if cnGateFails cn then DbError else NoRows)"
    using lookup_row [where digest = "lbDigest lb", OF ok r' hash] dead by (auto simp: live_def)
  then show ?thesis by (simp add: serve_presented [OF assms(7-9)])
qed

text \<open>Only a created token is answered with 201.\<close>

lemma reply_200:
  "SearchHandler lh ar f d m b = Reply c x1 \<Longrightarrow> c = 200" "PortHandler f d m q = Reply c x2 \<Longrightarrow> c = 200"
  "LookupHandler il ap f d m b = Reply c x3 \<Longrightarrow> c = 200" "VlansHandler f d m q = Reply c x4 \<Longrightarrow> c = 200"
  "rdnsHandler la m q = Reply c x5 \<Longrightarrow> c = 200" "ListHandler f t u = Reply c x6 \<Longrightarrow> c = 200"
  by (auto simp: SearchHandler_def PortHandler_def LookupHandler_def VlansHandler_def rdnsHandler_def
      ListHandler_def Let_def split: if_splits option.splits list.splits)

lemma InspectHandler_200: "InspectHandler qf sn m = Reply c x \<Longrightarrow> c = 200"
  by (auto simp: InspectHandler_def split: if_splits option.splits)

lemma TableHandler_200: "TableHandler il qf sn m q = Reply c x \<Longrightarrow> c = 200"
  by (auto simp: TableHandler_def table_reply_def Let_def split: if_splits option.splits)

lemma respond_Json: "respond f rep = Json c v \<longleftrightarrow> (\<exists>x. rep = Reply c x \<and> v = f x)"
  by (auto simp: respond_def split: reply.split)

lemma created_is_201:
  assumes "fst (run_endpoint cf lb cn cl e st) = Json 201 v"
  obtains u where "e = CreateToken u"
  using assms
  by (cases e) (auto simp: respond_Json respond_empty_def case_prod_beta
      dest!: reply_200 InspectHandler_200 TableHandler_200 split: reply.splits)

lemma serve_created:
  assumes "serve cf lb (cn, cl) st = (Json 201 v, st1)"
  obtains user resp t where "CreateHandler (lbDigest lb) (cnFails cn) (cnClock cn) (cnNow1 cn) (cnNow2 cn) user
      (clBody cl) (cnRaw cn) (wsTokens st) = (Reply 201 resp, t)"
    and "v = create_resp_json resp" and "st1 = st\<lparr>wsTokens := t\<rparr>"
proof -
  from assms obtain e where "ServeHTTP cf (env_of lb cn st) (clRequest cl) = Answer e"
    and run: "fst (run_endpoint cf lb cn cl e st) = Json 201 v"
    and st1: "st1 = (if is_data e then touch_state cn (token_used lb cn cl st) (snd (run_endpoint cf lb cn cl e st))
      else snd (run_endpoint cf lb cn cl e st))"
    by (auto simp: serve_def case_prod_beta split: outcome.splits)
  from created_is_201 [OF run] obtain u where e: "e = CreateToken u" .
  with run st1 that show thesis by (auto simp: case_prod_beta respond_Json prod_eq_iff)
qed

lemma token_text_plain:
  assumes "generateToken digest raw = Some tok"
  shows "TrimSpace (ttPlain tok) = ttPlain tok" and "has_prefix (ttPlain tok) apiTokenPrefix"
proof -
  from assms obtain bs where p: "ttPlain tok = ''pfk_'' @ b64_encode bs"
    by (auto simp: generateToken_def apiTokenPrefix_def Let_def split: option.splits)
  then show "has_prefix (ttPlain tok) apiTokenPrefix" by (metis apiTokenPrefix_def has_prefix_append)
  have "\<forall>c \<in> b64_alphabet. 32 < byte_of c \<and> byte_of c < 128"
    by (simp add: b64_alphabet_def)
  with b64_chars [of bs] have "b64_encode bs \<noteq> [] \<Longrightarrow>
      32 < byte_of (last (b64_encode bs)) \<and> byte_of (last (b64_encode bs)) < 128"
    using last_in_set by blast
  then show "TrimSpace (ttPlain tok) = ttPlain tok"
    unfolding p by (intro TrimSpace_plain) auto
qed

text \<open>The row a 201 stands for.\<close>

lemma created_row:
  assumes "CreateHandler digest q_fails clock now1 now2 user body raw t = (Reply 201 resp, t')"
  obtains r where "(cpID resp, r) \<in> set (rows t')" "tkUser r = user" "tkHash r = digest (cpToken resp)"
    "tkExpires r = cpExpires resp" "tkRevoked r = None"
    "TrimSpace (cpToken resp) = cpToken resp" "has_prefix (cpToken resp) apiTokenPrefix"
proof -
  from assms obtain nm ex tok where
    chk: "create_check digest (q_fails 0) clock now1 t user body raw = Inr (nm, ex, tok)"
    by (auto simp: CreateHandler_def split: sum.splits)
  have gen: "generateToken digest raw = Some tok"
    using chk by (auto simp: create_check_def Let_def split: option.splits if_splits)
  then have "ttHash tok = digest (ttPlain tok)"
    by (auto simp: generateToken_def Let_def split: option.splits)
  moreover have "create_insert (q_fails 1) now2 user (nm, ex, tok) t = (Some (cpID resp), t')"
    "cpToken resp = ttPlain tok" "cpExpires resp = ex"
    using assms chk by (auto simp: CreateHandler_def split: prod.splits option.splits)
  ultimately show thesis
    using token_text_plain [OF gen]
    by (intro that [of "\<lparr>tkUser = user, tkName = nm, tkHash = ttHash tok, tkHint = ttHint tok,
      tkCreated = now2, tkExpires = ex, tkLastUsed = None, tkRevoked = None\<rparr>"])
      (auto simp: create_insert_def split: if_splits)
qed

text \<open>C12. A token works as soon as it is shown: the text in the body of a 201 opens every data endpoint
  until the time in that body, after any series of requests of anybody that has no DELETE; the endpoint
  answers from the tables as they were, and once the time has come the text gets 401.\<close>

theorem issued_token_opens_api:
  assumes "saml_checks lb" and "table_ok tkHash (wsTokens st)"
    and "serve cf lb (cn0, cl0) st = (Json 201 v, st1)" and "field ''token'' v = Some (JStr tok)"
    and "serve_all cf lb rqs st1 = (rsps, st2)"
    and "list_all (\<lambda>rq. rqMethod (clRequest (snd rq)) \<noteq> ''DELETE'') rqs"
    and "rqAuth (clRequest cl) = ''Bearer '' @ tok" and "(p, e) \<in> data_paths"
    and "rqPath (clRequest cl) = path_of p" and "\<not> cnGateFails cn"
  shows "fst (serve cf lb (cn, cl) st2) =
      (if case field ''expires_at'' v of Some (JTime x) \<Rightarrow> cnNow cn < x | _ \<Rightarrow> True
       then fst (run_endpoint cf lb cn cl e st2) else ErrorText 401) \<and>
    wsDb st2 = wsDb st"
proof -
  from serve_created [OF assms(3)] obtain user resp t where
    run: "CreateHandler (lbDigest lb) (cnFails cn0) (cnClock cn0) (cnNow1 cn0) (cnNow2 cn0) user
      (clBody cl0) (cnRaw cn0) (wsTokens st) = (Reply 201 resp, t)"
    and v: "v = create_resp_json resp" and st1: "st1 = st\<lparr>wsTokens := t\<rparr>" .
  from created_row [OF run] obtain r where r: "(cpID resp, r) \<in> set (rows t)" "tkUser r = user"
    "tkHash r = lbDigest lb (cpToken resp)" "tkExpires r = cpExpires resp" "tkRevoked r = None"
    and plain: "TrimSpace (cpToken resp) = cpToken resp" "has_prefix (cpToken resp) apiTokenPrefix" .
  have tok: "tok = cpToken resp" using assms(4) by (simp add: v create_resp_json_def)
  have ok1: "table_ok tkHash (wsTokens st1)"
    using serve_keeps(2) [OF assms(2), of cf lb "(cn0, cl0)"] assms(3) by simp
  note later = serve_all_keeps [OF assms(1), where rqs = rqs and cf = cf and st = st1, unfolded assms(5) snd_conv]
  have ok2: "table_ok tkHash (wsTokens st2)" by (rule later(2) [OF ok1])
  have "tokens_evolve False (wsTokens st1) (wsTokens st2)"
    by (rule later(3)) (use assms(6) in \<open>auto simp: list_all_iff\<close>)
  with r(1) obtain r' where r': "(cpID resp, r') \<in> set (rows (wsTokens st2))" and ev: "token_evolves False r r'"
    by (auto simp: tokens_evolve_def st1)
  from ev r have row: "tkUser r' = user" "tkHash r' = lbDigest lb tok" "tkExpires r' = cpExpires resp" "tkRevoked r' = None"
    by (cases r; cases r'; simp add: token_evolves_def tok)+
  have "presents tok cl" using assms(7) plain by (simp add: presents_def tok)
  note served = serve_presented [OF this assms(8,9), of cf lb cn st2]
  have expiry: "(case field ''expires_at'' v of Some (JTime x) \<Rightarrow> cnNow cn < x | _ \<Rightarrow> True) = live (cnNow cn) r'"
    using row by (simp add: v create_resp_json_def live_def j_opt_def split: option.split)
  have look: "LookupToken (lbDigest lb) False (cnNow cn) (wsTokens st2) tok =
      (if live (cnNow cn) r' then Inr (cpID resp, user) else Inl NoRows)"
    using lookup_row [where digest = "lbDigest lb" and fails = False, OF ok2 r' row(2)] row(1) by simp
  have "wsDb st2 = wsDb st" using later(1) by (simp add: st1 del: snd_conv)
  with served look assms(10) show ?thesis by (simp add: expiry)
qed

subsection \<open>Users apart\<close>

lemma run_endpoint_others:
  assumes "\<And>i. e \<noteq> CreateToken user \<and> e \<noteq> RevokeToken user i"
  shows "tokens_of user (wsTokens (snd (run_endpoint cf lb cn cl e st))) = tokens_of user (wsTokens st)"
proof -
  have create: "tokens_of user t' = tokens_of user t"
    if "CreateHandler (lbDigest lb) (cnFails cn) (cnClock cn) (cnNow1 cn) (cnNow2 cn) u (clBody cl) (cnRaw cn) t =
      (rep, t')" "u \<noteq> user" for u t rep t'
  proof -
    from CreateHandler_rows [OF that(1)] obtain new where "rows t' = rows t @ new" "\<forall>ir \<in> set new. tkUser (snd ir) = u"
      by blast
    with that(2) show ?thesis by (auto simp: tokens_of_def filter_empty_conv)
  qed
  have revoke: "tokens_of user t' = tokens_of user t"
    if "RevokeHandler (cnFails cn 0) (cnNow1 cn) u idtext t = (rep, t')" "u \<noteq> user" for u idtext t rep t'
  proof -
    from RevokeHandler_rows [OF that(1)] obtain hit where
      t': "rows t' = map (\<lambda>ir. if hit ir then (fst ir, (snd ir)\<lparr>tkRevoked := Some (cnNow1 cn)\<rparr>) else ir) (rows t)"
      and hit: "\<forall>ir. hit ir \<longrightarrow> tkUser (snd ir) = u \<and> tkRevoked (snd ir) = None" by blast
    have "filter (\<lambda>ir. tkUser (snd ir) = user)
        (map (\<lambda>ir. if hit ir then (fst ir, (snd ir)\<lparr>tkRevoked := Some (cnNow1 cn)\<rparr>) else ir) rs) =
      filter (\<lambda>ir. tkUser (snd ir) = user) rs" for rs
      using hit that(2) by (induction rs) auto
    then show ?thesis by (simp add: tokens_of_def t')
  qed
  show ?thesis
    using assms by (cases e) (auto simp: case_prod_beta intro: create revoke prod.collapse [symmetric])
qed

lemma touch_others: "tokens_of user (touch_last_used now i t) = tokens_of user t"
proof -
  have "map (\<lambda>(i, r). (i, r\<lparr>tkLastUsed := None\<rparr>)) (filter (\<lambda>ir. tkUser (snd ir) = user)
      (map (\<lambda>ir. if fst ir = i then (fst ir, (snd ir)\<lparr>tkLastUsed := Some now\<rparr>) else ir) rs)) =
    map (\<lambda>(i, r). (i, r\<lparr>tkLastUsed := None\<rparr>)) (filter (\<lambda>ir. tkUser (snd ir) = user) rs)" for rs
    by (induction rs) auto
  then show ?thesis by (simp add: tokens_of_def touch_last_used_def)
qed

lemma touch_state_others: "tokens_of user (wsTokens (touch_state cn used st)) = tokens_of user (wsTokens st)"
  by (simp add: touch_state_def touch_others split: option.split)

definition not_by :: "string \<Rightarrow> call \<Rightarrow> bool" where
  "not_by user cl \<longleftrightarrow> (\<forall>s. rqSession (clRequest cl) = Some s \<longrightarrow> ctx_user (Some s) \<noteq> user)"

lemma serve_others:
  assumes "cfSaml cf" and "saml_checks lb" and "not_by user cl"
  shows "tokens_of user (wsTokens (snd (serve cf lb (cn, cl) st))) = tokens_of user (wsTokens st)"
proof (cases rule: serve_state [of cf lb cn cl st])
  case (2 e used)
  have req: "requires_account (env_of lb cn st)"
    using assms(2) by (simp add: requires_account_def saml_checks_def env_of_def)
  have admin: "u \<noteq> user" if "is_admin_endpoint e" and "e \<in> {ListTokens u, CreateToken u, RevokeToken u i}" for u i
  proof -
    from ServeHTTP_admin [OF assms(1) req 2(1) that(1)] obtain s where s: "rqSession (clRequest cl) = Some s"
      and u: "\<forall>u i. e \<in> {ListTokens u, CreateToken u, RevokeToken u i} \<longrightarrow> u = ctx_user (Some s)" .
    from u that(2) have "u = ctx_user (Some s)" by blast
    moreover from assms(3) s have "ctx_user (Some s) \<noteq> user" unfolding not_by_def by blast
    ultimately show ?thesis by simp
  qed
  have "e \<noteq> CreateToken user \<and> e \<noteq> RevokeToken user i" for i
    using admin [of user i] by (cases e) auto
  from run_endpoint_others [OF this] show ?thesis unfolding 2(2) touch_state_others .
qed simp

text \<open>C16. Nobody but their owner manages tokens: with SAML on, no series of requests without a session of a
  user creates, revokes or changes a token of that user, whatever roles, tokens and token ids the
  senders have; of the rows of the user only the time of last use may move.\<close>

theorem users_manage_own_tokens:
  assumes "cfSaml cf" and "saml_checks lb" and "list_all (\<lambda>rq. not_by user (snd rq)) rqs"
    and "serve_all cf lb rqs st = (rsps, st')"
  shows "tokens_of user (wsTokens st') = tokens_of user (wsTokens st)"
  using assms(3,4)
proof (induction rqs arbitrary: st rsps)
  case (Cons rq rqs)
  from Cons.prems(2) have "serve_all cf lb rqs (snd (serve cf lb rq st)) = (tl rsps, st')"
    by (auto simp: case_prod_beta)
  with Cons serve_others [OF assms(1,2), of user "snd rq" "fst rq" st] show ?case by simp
qed simp

subsection \<open>Witnesses\<close>

definition demo_libs :: libs where
  "demo_libs = \<lparr>lbDigest = (\<lambda>s. s),
     lbRequire = (\<lambda>h rq ctx. case rqSession rq of None \<Rightarrow> Login | Some s \<Rightarrow> h rq (Some s)),
     lbSlo = (\<lambda>_. None), lbIlike = (=), lbArrange = (\<lambda>rs. rs), lbArrangePorts = (\<lambda>ms. ms)\<rparr>"

definition calm :: "instant \<Rightarrow> conditions" where
  "calm now = \<lparr>cnNow = now, cnGateFails = False, cnTouchFails = False, cnFails = (\<lambda>_. False), cnClock = now,
     cnNow1 = now, cnNow2 = now, cnRaw = Some [1], cnLookupHost = (\<lambda>_. None), cnLookupAddr = (\<lambda>_. None)\<rparr>"

definition demo_call :: "string \<Rightarrow> string list \<Rightarrow> string \<Rightarrow> session option \<Rightarrow> json option \<Rightarrow> call" where
  "demo_call m ss auth s body = \<lparr>clRequest = demo_request m ss auth s, clQuery = (\<lambda>_. ''sw1''), clBody = body\<rparr>"

definition demo_state :: web_state where
  "demo_state = \<lparr>wsDb = empty_db, wsTokens = nine_tokens\<rparr>"

lemma demo_saml: "saml_checks demo_libs"
  by (simp add: saml_checks_def demo_libs_def)

lemma demo_tokens_ok: "table_ok tkHash (wsTokens demo_state)"
  by (simp add: demo_state_def nine_tokens_def table_ok_def dec_text_inj)

theorem strangers_learn_nothing_witness:
  "fst (serve_all demo_config demo_libs [(calm 5, demo_call ''GET'' [''api'', ''port''] [] None None)] demo_state) =
   fst (serve_all demo_config demo_libs [(calm 5, demo_call ''GET'' [''api'', ''port''] [] None None)]
     (demo_state\<lparr>wsTokens := empty_table\<rparr>))"
proof -
  have "list_all (\<lambda>rq. anonymous demo_libs demo_state rq \<and> anonymous demo_libs (demo_state\<lparr>wsTokens := empty_table\<rparr>) rq)
      [(calm 5, demo_call ''GET'' [''api'', ''port''] [] None None)]"
    by (simp add: anonymous_def demo_call_def demo_request_def token_holder_def has_prefix_def)
  from strangers_learn_nothing [OF _ demo_saml this, of demo_config] show ?thesis
    by (simp add: demo_config_def)
qed

theorem requests_keep_tables_witness:
  "\<exists>rsps st'. serve_all demo_config demo_libs
       [(calm 5, demo_call ''DELETE'' [''api'', ''tokens'', ''3''] [] (Some netops) None)] demo_state = (rsps, st') \<and>
     wsDb st' = empty_db"
proof -
  let ?run = "serve_all demo_config demo_libs
       [(calm 5, demo_call ''DELETE'' [''api'', ''tokens'', ''3''] [] (Some netops) None)] demo_state"
  have "?run = (fst ?run, snd ?run)" by simp
  from requests_keep_tables [OF demo_saml demo_tokens_ok this] have "wsDb (snd ?run) = empty_db"
    by (simp add: demo_state_def)
  then show ?thesis by (metis prod.collapse)
qed

theorem users_manage_own_tokens_witness:
  "\<exists>rsps st'. serve_all demo_config demo_libs
       [(calm 5, demo_call ''DELETE'' [''api'', ''tokens'', ''3''] [] (Some netops) None)] demo_state = (rsps, st') \<and>
     tokens_of ''bob'' (wsTokens st') = []"
proof -
  let ?rqs = "[(calm 5, demo_call ''DELETE'' [''api'', ''tokens'', ''3''] [] (Some netops) None)]"
  let ?run = "serve_all demo_config demo_libs ?rqs demo_state"
  have run: "?run = (fst ?run, snd ?run)" by simp
  have "ctx_user (Some netops) = ''ann''"
    by (simp add: ctx_user_def ctx_attr_def netops_def SAMLUser_def user_attributes_def)
  then have "list_all (\<lambda>rq. not_by ''bob'' (snd rq)) ?rqs"
    by (simp add: not_by_def demo_call_def demo_request_def)
  from users_manage_own_tokens [OF _ demo_saml this run] have "tokens_of ''bob'' (wsTokens (snd ?run)) = []"
    by (simp add: demo_config_def demo_state_def tokens_of_def nine_tokens_def)
  with run show ?thesis by blast
qed

theorem revoked_token_stays_out_witness:
  "\<exists>rsps st'. serve_all demo_config demo_libs
       [(calm 7, demo_call ''GET'' [''api'', ''port''] [] None None)]
       \<lparr>wsDb = empty_db, wsTokens = \<lparr>rows = [(1, \<lparr>tkUser = ''ann'', tkName = ''ci'', tkHash = ''pfk_x'', tkHint = [],
         tkCreated = 0, tkExpires = None, tkLastUsed = None, tkRevoked = Some 3\<rparr>)], next_id = 2\<rparr>\<rparr> = (rsps, st') \<and>
     fst (serve demo_config demo_libs (calm 9, demo_call ''GET'' [''api'', ''vlans''] ''Bearer pfk_x'' None None) st') =
       ErrorText 401"
proof -
  let ?row = "\<lparr>tkUser = ''ann'', tkName = ''ci'', tkHash = ''pfk_x'', tkHint = [],
         tkCreated = 0, tkExpires = None, tkLastUsed = None, tkRevoked = Some (3 :: int)\<rparr>"
  let ?st = "\<lparr>wsDb = empty_db, wsTokens = \<lparr>rows = [(1, ?row)], next_id = 2\<rparr>\<rparr>"
  let ?run = "serve_all demo_config demo_libs [(calm 7, demo_call ''GET'' [''api'', ''port''] [] None None)] ?st"
  have run: "?run = (fst ?run, snd ?run)" by simp
  have ok: "table_ok tkHash (wsTokens ?st)" and row: "(1, ?row) \<in> set (rows (wsTokens ?st))"
    "tkHash ?row = lbDigest demo_libs ''pfk_x''" "tkRevoked ?row \<noteq> None"
    by (simp_all add: table_ok_def demo_libs_def)
  have "TrimSpace ''pfk_x'' = ''pfk_x''" by (rule TrimSpace_plain) simp_all
  then have pres: "presents ''pfk_x'' (demo_call ''GET'' [''api'', ''vlans''] ''Bearer pfk_x'' None None)"
    by (simp add: presents_def demo_call_def demo_request_def has_prefix_def apiTokenPrefix_def)
  have path: "(''/api/vlans'', VlansApi) \<in> data_paths"
    "rqPath (clRequest (demo_call ''GET'' [''api'', ''vlans''] ''Bearer pfk_x'' None None)) = path_of ''/api/vlans''"
    by (simp_all add: data_paths_def demo_call_def demo_request_def path_of_def)
  from revoked_token_stays_out [OF demo_saml ok row run pres path, where cn = "calm 9"]
  have "fst (serve demo_config demo_libs (calm 9, demo_call ''GET'' [''api'', ''vlans''] ''Bearer pfk_x'' None None)
      (snd ?run)) = ErrorText 401"
    by (simp add: calm_def)
  with run show ?thesis by blast
qed

lemma create_route:
  "find_route (app_routes cf ev) ''POST'' ([''api'', ''tokens''], False) =
     Some (''POST /api/tokens'', protectAdmin cf ev (\<lambda>rq ctx. Answer (CreateToken (ctx_user ctx))))"
  by (simp add: routing)

lemma demo_create:
  "\<exists>v st1. serve demo_config demo_libs (calm 5, demo_call ''POST'' [''api'', ''tokens''] [] (Some netops) never_body)
       demo_state = (Json 201 v, st1) \<and>
     field ''token'' v = Some (JStr ''pfk_AQ'') \<and> field ''expires_at'' v = Some JNull"
proof -
  have user: "ctx_user (Some netops) = ''ann''"
    by (simp add: ctx_user_def ctx_attr_def netops_def SAMLUser_def user_attributes_def)
  have "ServeHTTP demo_config (env_of demo_libs (calm 5) demo_state)
      (demo_request ''POST'' [''api'', ''tokens''] [] (Some netops)) = Answer (CreateToken ''ann'')"
    by (simp add: ServeHTTP_def demo_request_def create_route exact_route_def route_patterns Let_def protectAdmin_def
        protect_def isAdmin_def hasAdminRole_def demo_config_def env_of_def demo_libs_def user)
       (simp add: netops_def roleClaimNames_def)
  moreover have digits: "dec_text i \<noteq> CHR ''p'' # s" for i s
    using dec_text_digits [of "CHR ''p''" i] by (auto simp: is_digit_def)
  have fresh: "\<not> list_ex (\<lambda>ir. tkHash (snd ir) = CHR ''p'' # s) (rows nine_tokens)" for s
    by (simp add: nine_tokens_def digits)
  have text1: "b64_encode [1] = ''AQ''" by (simp add: Let_def b64_char_def)
  ultimately show ?thesis
    by (simp add: serve_def demo_call_def demo_state_def calm_def demo_libs_def CreateHandler_def never_check
        create_insert_def fresh respond_def create_resp_json_def text1 j_opt_def del: b64_encode.simps)
qed

theorem issued_token_opens_api_witness:
  "\<exists>v st1. serve demo_config demo_libs (calm 5, demo_call ''POST'' [''api'', ''tokens''] [] (Some netops) never_body)
       demo_state = (Json 201 v, st1) \<and>
     fst (serve demo_config demo_libs (calm 99, demo_call ''GET'' [''api'', ''vlans''] ''Bearer pfk_AQ'' None None)
       st1) = Json 200 (vlans_response_json [])"
proof -
  let ?cl = "demo_call ''GET'' [''api'', ''vlans''] ''Bearer pfk_AQ'' None None"
  from demo_create obtain v st1 where made: "serve demo_config demo_libs
      (calm 5, demo_call ''POST'' [''api'', ''tokens''] [] (Some netops) never_body) demo_state = (Json 201 v, st1)"
    and v: "field ''token'' v = Some (JStr ''pfk_AQ'')" "field ''expires_at'' v = Some JNull" by blast
  have idle: "serve_all demo_config demo_libs [] st1 = ([], st1)"
    "list_all (\<lambda>rq. rqMethod (clRequest (snd rq)) \<noteq> ''DELETE'') []" by simp_all
  have cl: "rqAuth (clRequest ?cl) = ''Bearer '' @ ''pfk_AQ''" "(''/api/vlans'', VlansApi) \<in> data_paths"
    "rqPath (clRequest ?cl) = path_of ''/api/vlans''"
    by (simp_all add: data_paths_def demo_call_def demo_request_def path_of_def)
  have up: "\<not> cnGateFails (calm 99)" by (simp add: calm_def)
  from issued_token_opens_api [OF demo_saml demo_tokens_ok made v(1) idle cl up] v(2)
  have "fst (serve demo_config demo_libs (calm 99, ?cl) st1) =
      fst (run_endpoint demo_config demo_libs (calm 99) ?cl VlansApi st1)" and db: "wsDb st1 = empty_db"
    by (simp_all add: demo_state_def)
  moreover have "fst (run_endpoint demo_config demo_libs (calm 99) ?cl VlansApi st1) = Json 200 (vlans_response_json [])"
    by (simp add: db calm_def demo_call_def demo_request_def VlansHandler_def vlansSQL_def respond_def empty_db_def
        empty_table_def)
  ultimately show ?thesis using made by auto
qed

end
