(* ===== verification/Deployment.thy ===== *)
theory Deployment imports System Service begin

text \<open>
  The programs as they are deployed together: the collector under its devices, the topics of Kafka as
  they grow, the consumer, and the web application on the database the consumer writes. One step
  relation interleaves them all, requests of the web included. Here the topics change under a running
  consumer, which \<open>System\<close> leaves fixed; what \<open>System\<close> shows of the pages is carried over to what a
  client gets from the server, through routing, token gate and JSON.
\<close>

subsection \<open>The step relation\<close>

text \<open>A message at the end of a partition of its topic.\<close>

definition kafka_append :: "kmsg \<Rightarrow> nat \<Rightarrow> kafka \<Rightarrow> kafka" where
  "kafka_append m i kafka = kafka(kTopic m := (kafka (kTopic m))(i := kafka (kTopic m) i @
     [\<lparr>cmOffset = length (kafka (kTopic m) i), cmTopic = kTopic m, cmValue = Some (kValue m)\<rparr>]))"

record deployment =
  dpServer :: server
  dpKafka :: kafka
  dpConsumer :: consumer
  dpTokens :: "token_row table"

definition deploy_start :: deployment where
  "deploy_start = \<lparr>dpServer = server_start, dpKafka = \<lambda>_ _. [], dpConsumer = consumer_start empty_db,
     dpTokens = empty_table\<rparr>"

text \<open>The state the web application works on: the database of the consumer and the tokens.\<close>

definition web_of :: "deployment \<Rightarrow> web_state" where
  "web_of s = \<lparr>wsDb = coDb (dpConsumer s), wsTokens = dpTokens s\<rparr>"

text \<open>
  \<open>collect\<close>: a step of the collector that publishes nothing. \<open>publish\<close>: one that publishes a message,
  which Kafka puts into a partition of its choice. \<open>again\<close>: a message it had acknowledged is written
  once more, as a producer that retries may do. \<open>refused\<close>: a message is written although its send is
  about to be reported as failed. \<open>consume\<close>: a step of the consumer on the topics as they are. \<open>request\<close>:
  a request of the web.
\<close>

inductive deploy_step ::
    "(8 word list \<Rightarrow> telemetry option) \<Rightarrow> (nat \<Rightarrow> bool) \<Rightarrow> (nat \<Rightarrow> bool) \<Rightarrow> instant \<Rightarrow> config \<Rightarrow> libs \<Rightarrow>
     deployment \<Rightarrow> deployment \<Rightarrow> bool"
  for decode :: "8 word list \<Rightarrow> telemetry option" and fails :: "nat \<Rightarrow> bool" and db_fails :: "nat \<Rightarrow> bool"
    and c :: instant and cf :: config and lb :: libs
where
  collect: "server_step decode fails (dpServer s) v \<Longrightarrow> sent (svProducer v) = sent (svProducer (dpServer s)) \<Longrightarrow>
    deploy_step decode fails db_fails c cf lb s (s\<lparr>dpServer := v\<rparr>)"
| publish: "server_step decode fails (dpServer s) v \<Longrightarrow>
    sent (svProducer v) = sent (svProducer (dpServer s)) @ [m] \<Longrightarrow>
    deploy_step decode fails db_fails c cf lb s (s\<lparr>dpServer := v, dpKafka := kafka_append m i (dpKafka s)\<rparr>)"
| again: "m \<in> set (sent (svProducer (dpServer s))) \<Longrightarrow>
    deploy_step decode fails db_fails c cf lb s (s\<lparr>dpKafka := kafka_append m i (dpKafka s)\<rparr>)"
| refused: "svStreams (dpServer s) x = Some st \<Longrightarrow> smTodo st = m # ms \<Longrightarrow>
    SendMessage fails m (svProducer (dpServer s)) = (Some err, p) \<Longrightarrow>
    deploy_step decode fails db_fails c cf lb s (s\<lparr>dpKafka := kafka_append m i (dpKafka s)\<rparr>)"
| consume: "consumer_step db_fails c (dpKafka s) (dpConsumer s) k \<Longrightarrow>
    deploy_step decode fails db_fails c cf lb s (s\<lparr>dpConsumer := k\<rparr>)"
| request: "serve cf lb rq (web_of s) = (rsp, st) \<Longrightarrow>
    deploy_step decode fails db_fails c cf lb s (s\<lparr>dpTokens := wsTokens st\<rparr>)"

subsection \<open>Growing topics\<close>

definition grows :: "kafka \<Rightarrow> kafka \<Rightarrow> bool" where
  "grows kafka kafka' \<longleftrightarrow> (\<forall>t i. \<exists>ms. kafka' t i = kafka t i @ ms)"

lemma grows_refl [simp]: "grows kafka kafka"
  by (simp add: grows_def)

lemma grows_append: "grows kafka (kafka_append m i kafka)"
  by (simp add: grows_def kafka_append_def)

lemma grows_at:
  assumes "grows kafka kafka'" and "n < length (kafka t i)"
  shows "n < length (kafka' t i)" and "kafka' t i ! n = kafka t i ! n"
proof -
  from assms(1) obtain ms where "kafka' t i = kafka t i @ ms" unfolding grows_def by blast
  with assms(2) show "n < length (kafka' t i)" "kafka' t i ! n = kafka t i ! n" by (simp_all add: nth_append)
qed

lemma grows_length: "grows kafka kafka' \<Longrightarrow> length (kafka t i) \<le> length (kafka' t i)"
  unfolding grows_def by (metis length_append le_add1)

lemma group_step_grows:
  assumes "group_step db_fails unmarshal key ts lim stmt rest (kafka t) g g'" and "grows kafka kafka'"
  shows "group_step db_fails unmarshal key ts lim stmt rest (kafka' t) g g'"
  using assms(1)
proof cases
  case (deliver i s)
  note more = grows_at [OF assms(2) deliver(2)]
  show ?thesis
    unfolding deliver(1) by (rule group_step.deliver) (use deliver(3) more in simp_all)
next
  case (fresh i newest)
  then show ?thesis
    unfolding fresh(1) using grows_length [OF assms(2), of t i] by (intro group_step.fresh) simp_all
qed (auto intro: group_step.intros)

text \<open>A step on the topics as they were is a step on the topics as they are.\<close>

lemma consumer_step_grows:
  assumes "consumer_step db_fails c kafka k k'" and "grows kafka kafka'"
  shows "consumer_step db_fails c kafka' k k'"
  using assms(1)
proof cases
  case (macs g)
  show ?thesis
    unfolding macs(1) by (rule consumer_step.macs) (rule group_step_grows [OF macs(2) assms(2)])
next
  case (arps g)
  show ?thesis
    unfolding arps(1) by (rule consumer_step.arps) (rule group_step_grows [OF arps(2) assms(2)])
next
  case (row t r i mk d)
  note more = grows_at [OF assms(2) row(4)]
  show ?thesis
    unfolding row(1) by (rule consumer_step.row [OF row(2,3)]) (use row(5) more in simp_all)
next
  case (row_fresh t r i newest)
  from row_fresh(6) grows_length [OF assms(2), of t i] have "newest \<le> length (kafka' t i)" by simp
  then show ?thesis unfolding row_fresh(1) by (rule consumer_step.row_fresh [OF row_fresh(2-5)])
qed (auto intro: consumer_step.intros)

lemma consumer_run_grows:
  assumes "(consumer_step db_fails c kafka)\<^sup>*\<^sup>* k k'" and "grows kafka kafka'"
  shows "(consumer_step db_fails c kafka')\<^sup>*\<^sup>* k k'"
  using assms(1)
  by (induction rule: rtranclp_induct)
    (auto intro: rtranclp.rtrancl_into_rtrancl dest: consumer_step_grows [OF _ assms(2)])

subsection \<open>What holds of the deployment\<close>

lemma keeps_only_append:
  assumes "keeps_only ks kafka" and "m \<in> ks"
  shows "keeps_only ks (kafka_append m i kafka)"
  using assms unfolding keeps_only_def by (auto simp: kafka_append_def nth_append less_Suc_eq)

lemma keeps_all_append:
  assumes "keeps_all ks kafka"
  shows "keeps_all (insert m ks) (kafka_append m i kafka)"
proof -
  have "\<exists>j n. n < length (kafka_append m i kafka (kTopic u) j) \<and>
      cmValue (kafka_append m i kafka (kTopic u) j ! n) = Some (kValue u)" if "u \<in> insert m ks" for u
  proof (cases "u = m")
    case True
    then show ?thesis by (intro exI [of _ i] exI [of _ "length (kafka (kTopic m) i)"]) (simp add: kafka_append_def)
  next
    case False
    with that assms obtain j n where "n < length (kafka (kTopic u) j)" "cmValue (kafka (kTopic u) j ! n) = Some (kValue u)"
      unfolding keeps_all_def by blast
    with grows_at [OF grows_append, of n kafka "kTopic u" j m i] show ?thesis by (intro exI [of _ j] exI [of _ n]) simp
  qed
  then show ?thesis unfolding keeps_all_def by blast
qed

lemma finite_append:
  assumes "finite {j. kafka t j \<noteq> []}"
  shows "finite {j. kafka_append m i kafka t j \<noteq> []}"
  by (rule finite_subset [of _ "insert i {j. kafka t j \<noteq> []}"])
    (use assms in \<open>auto simp: kafka_append_def split: if_splits\<close>)

definition deploy_inv ::
    "(8 word list \<Rightarrow> telemetry option) \<Rightarrow> (nat \<Rightarrow> bool) \<Rightarrow> (nat \<Rightarrow> bool) \<Rightarrow> instant \<Rightarrow> deployment \<Rightarrow> bool" where
  "deploy_inv decode fails db_fails c s \<longleftrightarrow>
     server_reachable decode fails (dpServer s) \<and>
     keeps_only (to_tell decode (dpServer s)) (dpKafka s) \<and>
     keeps_all (set (sent (svProducer (dpServer s)))) (dpKafka s) \<and>
     (\<forall>t. finite {i. dpKafka s t i \<noteq> []}) \<and>
     (consumer_step db_fails c (dpKafka s))\<^sup>*\<^sup>* (consumer_start empty_db) (dpConsumer s) \<and>
     table_ok tkHash (dpTokens s)"

text \<open>What was told once stays told.\<close>

lemma stream_msgs_more: "set (stream_msgs decode rs) \<subseteq> set (stream_msgs decode (rs @ [r]))"
proof (cases "RecvErr \<in> set rs")
  case True
  then have "takeWhile (\<lambda>r. r \<noteq> RecvErr) (rs @ [r]) = takeWhile (\<lambda>r. r \<noteq> RecvErr) rs" by (simp add: takeWhile_append1)
  then show ?thesis by (simp add: stream_msgs_def)
next
  case False
  from stream_msgs_snoc [OF this, of decode r] show ?thesis by simp
qed

lemma heard_grows:
  assumes "\<And>x st. svStreams s x = Some st \<Longrightarrow>
    \<exists>st'. svStreams v x = Some st' \<and> (smGot st' = smGot st \<or> (\<exists>r. smGot st' = smGot st @ [r]))"
  shows "heard decode s \<subseteq> heard decode v"
proof
  fix t assume "t \<in> heard decode s"
  then obtain x st where x: "svStreams s x = Some st" "t \<in> set (stream_msgs decode (smGot st))" by (auto simp: heard_def)
  from assms [OF x(1)] obtain st' where st': "svStreams v x = Some st'"
    "smGot st' = smGot st \<or> (\<exists>r. smGot st' = smGot st @ [r])" by blast
  from st'(2) x(2) stream_msgs_more [of decode "smGot st", THEN subsetD] have "t \<in> set (stream_msgs decode (smGot st'))"
    by fastforce
  with st'(1) show "t \<in> heard decode v" unfolding heard_def by blast
qed

lemma heard_step:
  assumes "server_step decode fails s v"
  shows "heard decode s \<subseteq> heard decode v"
proof (rule heard_grows)
  fix x st assume "svStreams s x = Some st"
  with assms show "\<exists>st'. svStreams v x = Some st' \<and> (smGot st' = smGot st \<or> (\<exists>r. smGot st' = smGot st @ [r]))"
    by cases (auto simp del: fun_upd_apply simp: fun_upd_def)
qed

lemma to_tell_step: "server_step decode fails s v \<Longrightarrow> to_tell decode s \<subseteq> to_tell decode v"
  using heard_step unfolding to_tell_def by blast

lemma deploy_inv_step:
  assumes "deploy_step decode fails db_fails c cf lb s s'" and "deploy_inv decode fails db_fails c s"
  shows "deploy_inv decode fails db_fails c s'"
proof -
  from assms(2) have inv: "server_reachable decode fails (dpServer s)"
    "keeps_only (to_tell decode (dpServer s)) (dpKafka s)"
    "keeps_all (set (sent (svProducer (dpServer s)))) (dpKafka s)"
    "\<forall>t. finite {i. dpKafka s t i \<noteq> []}"
    "(consumer_step db_fails c (dpKafka s))\<^sup>*\<^sup>* (consumer_start empty_db) (dpConsumer s)"
    "table_ok tkHash (dpTokens s)" by (simp_all add: deploy_inv_def)
  have reach: "server_reachable decode fails v" if "server_step decode fails (dpServer s) v" for v
    using reachable_steps [OF inv(1)] that by blast
  have only: "keeps_only (to_tell decode v) (dpKafka s)" if "server_step decode fails (dpServer s) v" for v
    using keeps_only_more [OF inv(2) to_tell_step [OF that]] .
  have written: "deploy_inv decode fails db_fails c (s\<lparr>dpKafka := kafka_append m i (dpKafka s)\<rparr>)"
    if "m \<in> to_tell decode (dpServer s)" for m i
  proof -
    have "keeps_all (set (sent (svProducer (dpServer s)))) (kafka_append m i (dpKafka s))"
      using keeps_all_append [OF inv(3), of m i] unfolding keeps_all_def by blast
    with inv(1,4,6) keeps_only_append [OF inv(2) that] consumer_run_grows [OF inv(5) grows_append]
    show ?thesis by (simp add: deploy_inv_def finite_append)
  qed
  from assms(1) show ?thesis
  proof cases
    case (collect v)
    with inv reach only show ?thesis by (simp add: deploy_inv_def)
  next
    case (publish v m i)
    have sent: "set (sent (svProducer v)) = insert m (set (sent (svProducer (dpServer s))))" using publish(3) by simp
    then have "m \<in> to_tell decode v" using published_subset [OF reach [OF publish(2)]] by blast
    with only [OF publish(2)] have "keeps_only (to_tell decode v) (kafka_append m i (dpKafka s))"
      by (rule keeps_only_append)
    moreover have "keeps_all (set (sent (svProducer v))) (kafka_append m i (dpKafka s))"
      unfolding sent by (rule keeps_all_append [OF inv(3)])
    ultimately show ?thesis
      using publish(1) reach [OF publish(2)] inv(4,6) consumer_run_grows [OF inv(5) grows_append]
      by (simp add: deploy_inv_def finite_append)
  next
    case (again m i)
    with written published_subset [OF inv(1)] show ?thesis by blast
  next
    case (refused x st m ms err p i)
    have "m \<in> set (smTodo st)" using refused(3) by simp
    with written todo_subset [OF inv(1) refused(2)] refused(1) show ?thesis by blast
  next
    case (consume k)
    with inv show ?thesis by (auto simp: deploy_inv_def intro: rtranclp.rtrancl_into_rtrancl)
  next
    case (request rq rsp st)
    from inv(6) request(2) serve_keeps(2) [of "web_of s" cf lb rq] have "table_ok tkHash (wsTokens st)"
      by (simp add: web_of_def)
    with request(1) inv(1-5) show ?thesis by (simp add: deploy_inv_def)
  qed
qed

definition deployed ::
    "(8 word list \<Rightarrow> telemetry option) \<Rightarrow> (nat \<Rightarrow> bool) \<Rightarrow> (nat \<Rightarrow> bool) \<Rightarrow> instant \<Rightarrow> config \<Rightarrow> libs \<Rightarrow> deployment \<Rightarrow> bool" where
  "deployed decode fails db_fails c cf lb s \<longleftrightarrow> (deploy_step decode fails db_fails c cf lb)\<^sup>*\<^sup>* deploy_start s"

lemma deploy_inv_start: "deploy_inv decode fails db_fails c deploy_start"
  by (simp add: deploy_inv_def deploy_start_def server_reachable_def server_start_def keeps_only_def keeps_all_def
      table_ok_def empty_table_def)

lemma deployed_inv:
  assumes "deployed decode fails db_fails c cf lb s"
  shows "deploy_inv decode fails db_fails c s"
  using assms unfolding deployed_def
  by (induction rule: rtranclp_induct) (auto intro: deploy_inv_start deploy_inv_step)

lemma deployedD:
  assumes "deployed decode fails db_fails c cf lb s"
  shows "server_reachable decode fails (dpServer s)"
    and "keeps_only (to_tell decode (dpServer s)) (dpKafka s)"
    and "keeps_all (set (sent (svProducer (dpServer s)))) (dpKafka s)"
    and "finite {i. dpKafka s t i \<noteq> []}"
    and "(consumer_step db_fails c (dpKafka s))\<^sup>*\<^sup>* (consumer_start empty_db) (dpConsumer s)"
    and "table_ok tkHash (dpTokens s)"
  using deployed_inv [OF assms] by (simp_all add: deploy_inv_def)

subsection \<open>What a client of the API gets\<close>

text \<open>A JSON reply at a data path comes from its endpoint.\<close>

lemma serve_data_json:
  assumes "saml_checks lb" and "(p, e) \<in> data_paths" and "rqPath (clRequest cl) = path_of p"
    and "fst (serve cf lb (cn, cl) st) = Json code v"
  shows "fst (run_endpoint cf lb cn cl e st) = Json code v"
proof -
  have "ServeHTTP cf (env_of lb cn st) (clRequest cl) = Answer e \<or>
      (\<forall>e'. ServeHTTP cf (env_of lb cn st) (clRequest cl) \<noteq> Answer e')"
    unfolding data_path_route(1) [OF assms(2,3)] using assms(1)
    by (auto simp: apiAuth_def endpoint_handler_def env_of_def saml_checks_def split: gate.split option.split)
  with assms(4) show ?thesis by (auto simp: serve_def case_prod_beta split: outcome.splits)
qed

text \<open>A request at a data path with a token that is live.\<close>

definition admitted :: "libs \<Rightarrow> token_row table \<Rightarrow> conditions \<Rightarrow> call \<Rightarrow> bool" where
  "admitted lb t cn cl \<longleftrightarrow>
     (\<exists>tok i u. presents tok cl \<and> LookupToken (lbDigest lb) (cnGateFails cn) (cnNow cn) t tok = Inr (i, u))"

lemma serve_admitted:
  assumes "admitted lb (wsTokens st) cn cl" and "(p, e) \<in> data_paths" and "rqPath (clRequest cl) = path_of p"
  shows "fst (serve cf lb (cn, cl) st) = fst (run_endpoint cf lb cn cl e st)"
  using assms(1) serve_presented [OF _ assms(2,3), of _ cf lb cn st] by (auto simp: admitted_def)

text \<open>C1. The search of the API tells nothing but what devices told. In every state the deployment can
  reach, whatever sends and statements have failed, whatever the collector still has to send, and
  however devices, topics, claims, commits, crashes, rebalances, retention and requests have
  interleaved: whoever gets a JSON reply from \<open>/api/search\<close> gets a 200 with the reply of the search,
  and each result in it is, field by field, what devices had reported by then.\<close>

theorem api_tells_what_was_heard:
  assumes "deployed decode fails db_fails c cf lb s"
    and "saml_checks lb" and "\<And>rs. set (lbArrange lb rs) = set rs"
    and "rqPath (clRequest cl) = path_of ''/api/search''"
    and "fst (serve cf lb (cn, cl) (web_of s)) = Json code v"
  shows "\<exists>rsp. code = 200 \<and> v = search_response_json rsp \<and>
    (\<forall>r \<in> set (spResults rsp). result_heard decode (dpServer s) r)"
proof -
  note sys = deployedD [OF assms(1)]
  have "(''/api/search'', SearchApi) \<in> data_paths" by (simp add: data_paths_def)
  from serve_data_json [OF assms(2) this assms(4,5)] obtain rsp where
    rsp: "SearchHandler (cnLookupHost cn) (lbArrange lb) (cnFails cn 0) (coDb (dpConsumer s)) (rqMethod (clRequest cl))
        (clBody cl) = Reply code rsp" "v = search_response_json rsp"
    by (auto simp: respond_Json web_of_def)
  from search_tells_what_was_heard [OF sys(2,5) rsp(1) assms(3)]
  have "\<forall>r \<in> set (spResults rsp). result_heard decode (dpServer s) r" by blast
  with rsp reply_200(1) [OF rsp(1)] show ?thesis by blast
qed

text \<open>C3. From any number of devices to the client who asks for the VLANs of a switch: in every state of
  the deployment in which the collector has sent what it received and the consumer has read the row
  topics, whatever the interleaving before it, and whatever crashes, rebalances and repeated writes made
  the consumer read twice, a request with a live token gets a 200 with a list that has each VLAN id any
  device pushed for the switch, once, and no other; and where a strictly newest push of a VLAN has a
  name, the list has that name. Sends and database work, nothing pushed is older than the retention has
  reached, and no claim lost its place before its first commit.\<close>

theorem api_lists_what_was_pushed:
  assumes "deployed decode fails db_fails c cf lb s"
    and "\<forall>k. \<not> fails k" and "\<forall>n. \<not> db_fails n"
    and "all_idle (dpServer s)" and "rows_read (dpKafka s) (dpConsumer s)"
    and "\<forall>e \<in> heard_vlans decode (dpServer s). c \<le> vTimestamp e"
    and "admitted lb (dpTokens s) cn cl" and "rqPath (clRequest cl) = path_of ''/api/vlans''"
    and "rqMethod (clRequest cl) = ''GET''" and "clQuery cl ''node_id'' = node" and "node \<noteq> []" and "\<not> cnFails cn 0"
  shows "\<exists>vs. fst (serve cf lb (cn, cl) (web_of s)) = Json 200 (vlans_response_json vs) \<and> distinct (map vrVlanID vs) \<and>
    vrVlanID ` set vs = {uint (vVlanID e) | e. e \<in> heard_vlans decode (dpServer s) \<and> vNodeID e = node} \<and>
    (\<forall>e \<in> heard_vlans decode (dpServer s). \<forall>name. vNodeID e = node \<longrightarrow> vName e = Some name \<longrightarrow>
       newest_vlan (heard_vlans decode (dpServer s)) e \<longrightarrow> \<lparr>vrVlanID = uint (vVlanID e), vrName = Some name\<rparr> \<in> set vs)"
proof -
  note sys = deployedD [OF assms(1)]
  have "(''/api/vlans'', VlansApi) \<in> data_paths" by (simp add: data_paths_def)
  from serve_admitted [OF _ this assms(8), where st = "web_of s" and cf = cf] assms(7,9,12)
  have run: "fst (serve cf lb (cn, cl) (web_of s)) =
      respond vlans_response_json (VlansHandler False (coDb (dpConsumer s)) ''GET'' (clQuery cl))"
    by (simp add: web_of_def)
  from vlan_page_tells_all [where query = "clQuery cl", OF sys(1) assms(2,4) sys(2,3) assms(3) sys(5) assms(5,6,10,11)]
  show ?thesis unfolding run by (auto simp: respond_def)
qed

text \<open>C2. From any number of devices to the client who asks for a port, in the same states: a request with a
  live token gets a 200, and every field of the reply is told by pushes. Node, name, shutdown and time
  are those of the strictly newest push of the interface. Description, IP address, prefix length, VRF,
  MTU, access VLAN and voice VLAN are each what the newest push says; a column it leaves out is as some
  push of this interface has it (an access VLAN of 1 where that one has none). Each VLAN's name was
  pushed for that VLAN of the switch, and is the name of the strictly newest push of the VLAN, where
  there is one and it has a name. Sends and database work, nothing pushed is older than the retention
  has reached, and no claim lost its place before its first commit.\<close>

theorem api_shows_newest_port:
  assumes "deployed decode fails db_fails c cf lb s"
    and "\<forall>k. \<not> fails k" and "\<forall>n. \<not> db_fails n"
    and "all_idle (dpServer s)" and "rows_read (dpKafka s) (dpConsumer s)"
    and "\<forall>e \<in> heard_vlans decode (dpServer s). c \<le> vTimestamp e"
    and "\<forall>e \<in> heard_ifs decode (dpServer s). c \<le> iTimestamp e"
    and "newest_if (heard_ifs decode (dpServer s)) e"
    and "admitted lb (dpTokens s) cn cl" and "rqPath (clRequest cl) = path_of ''/api/port''"
    and "rqMethod (clRequest cl) = ''GET''" and "\<not> cnFails cn 0"
    and "clQuery cl ''node_id'' = iNodeID e" and "clQuery cl ''port'' = iName e" and "iNodeID e \<noteq> []" and "iName e \<noteq> []"
  shows "\<exists>res. fst (serve cf lb (cn, cl) (web_of s)) = Json 200 (port_result_json res) \<and>
    port_told (heard_ifs decode (dpServer s)) (heard_vlans decode (dpServer s)) e res"
proof -
  note sys = deployedD [OF assms(1)]
  have "(''/api/port'', PortApi) \<in> data_paths" by (simp add: data_paths_def)
  from serve_admitted [OF _ this assms(10), where st = "web_of s" and cf = cf] assms(9,11,12)
  have run: "fst (serve cf lb (cn, cl) (web_of s)) =
      respond port_result_json (PortHandler False (coDb (dpConsumer s)) ''GET'' (clQuery cl))"
    by (simp add: web_of_def)
  from port_page_tells_newest [where query = "clQuery cl", OF sys(1) assms(2,4) sys(2,3) assms(3) sys(5) assms(5-8,13-16)]
  show ?thesis unfolding run by (auto simp: respond_def)
qed

subsection \<open>Catching up\<close>

text \<open>Sends that do not fail: the handlers send what is left.\<close>

lemma heard_got:
  assumes "\<And>c. map_option smGot (svStreams v c) = map_option smGot (svStreams s c)"
  shows "heard decode v = heard decode s"
proof -
  have "(\<exists>st. svStreams v c = Some st \<and> t \<in> set (stream_msgs decode (smGot st))) \<longleftrightarrow>
      (\<exists>st. svStreams s c = Some st \<and> t \<in> set (stream_msgs decode (smGot st)))" for c t
    using assms [of c] by (cases "svStreams v c"; cases "svStreams s c") auto
  then show ?thesis unfolding heard_def by blast
qed

definition publishes :: "(8 word list \<Rightarrow> telemetry option) \<Rightarrow> (nat \<Rightarrow> bool) \<Rightarrow> deployment \<Rightarrow> deployment \<Rightarrow> bool" where
  "publishes decode fails s s' \<longleftrightarrow>
     (\<exists>v m i. server_step decode fails (dpServer s) v \<and> sent (svProducer v) = sent (svProducer (dpServer s)) @ [m] \<and>
        s' = s\<lparr>dpServer := v, dpKafka := kafka_append m i (dpKafka s)\<rparr>)"

lemma publishes_steps:
  assumes "(publishes decode fails)\<^sup>*\<^sup>* s s'"
  shows "(deploy_step decode fails db_fails c cf lb)\<^sup>*\<^sup>* s s'"
  using assms
  by (induction rule: rtranclp_induct) (auto simp: publishes_def intro: deploy_step.publish rtranclp.rtrancl_into_rtrancl)

lemma publish_one:
  assumes "\<forall>k. \<not> fails k" and "svStreams (dpServer s) x = Some st" and "smTodo st = m # ms"
  shows "\<exists>s' st'. publishes decode fails s s' \<and>
    svStreams (dpServer s') = (svStreams (dpServer s))(x \<mapsto> st') \<and> smTodo st' = ms \<and> smGot st' = smGot st \<and>
    dpConsumer s' = dpConsumer s \<and> dpTokens s' = dpTokens s"
proof -
  let ?p = "svProducer (dpServer s)"
  let ?q = "?p\<lparr>attempts := attempts ?p + 1, sent := sent ?p @ [m]\<rparr>"
  let ?st = "st\<lparr>smTodo := ms, smFaults := smFaults st @ [False]\<rparr>"
  let ?v = "(dpServer s)\<lparr>svProducer := ?q, svLog := svLog (dpServer s) @ [(x, m)],
    svStreams := (svStreams (dpServer s))(x \<mapsto> ?st)\<rparr>"
  have "SendMessage fails m ?p = (None, ?q)" using assms(1) by (simp add: SendMessage_def)
  from server_step.Send [OF assms(2,3) this] have "server_step decode fails (dpServer s) ?v" .
  then have "publishes decode fails s (s\<lparr>dpServer := ?v, dpKafka := kafka_append m 0 (dpKafka s)\<rparr>)"
    unfolding publishes_def by (intro exI [of _ ?v] exI [of _ m] exI [of _ 0]) simp
  then show ?thesis
    by (intro exI [of _ "s\<lparr>dpServer := ?v, dpKafka := kafka_append m 0 (dpKafka s)\<rparr>"] exI [of _ ?st]) simp
qed

lemma publish_stream:
  assumes "\<forall>k. \<not> fails k" and "svStreams (dpServer s) x = Some st"
  shows "\<exists>s' st'. (publishes decode fails)\<^sup>*\<^sup>* s s' \<and>
    svStreams (dpServer s') = (svStreams (dpServer s))(x \<mapsto> st') \<and> smTodo st' = [] \<and> smGot st' = smGot st \<and>
    dpConsumer s' = dpConsumer s \<and> dpTokens s' = dpTokens s"
  using assms(2)
proof (induction "smTodo st" arbitrary: s st)
  case Nil
  then show ?case by (intro exI [of _ s] exI [of _ st]) (simp add: fun_upd_idem)
next
  case (Cons m ms)
  from publish_one [OF assms(1) Cons.prems Cons.hyps(2) [symmetric], of decode] obtain s1 st1 where
    s1: "publishes decode fails s s1" "svStreams (dpServer s1) = (svStreams (dpServer s))(x \<mapsto> st1)"
      "smTodo st1 = ms" "smGot st1 = smGot st" "dpConsumer s1 = dpConsumer s" "dpTokens s1 = dpTokens s" by blast
  from Cons.hyps(1) [of st1 s1] s1(2,3) obtain s' st' where
    "(publishes decode fails)\<^sup>*\<^sup>* s1 s'"
    "svStreams (dpServer s') = (svStreams (dpServer s1))(x \<mapsto> st')" "smTodo st' = []" "smGot st' = smGot st1"
    "dpConsumer s' = dpConsumer s1" "dpTokens s' = dpTokens s1" by auto
  with s1 show ?case
    by (intro exI [of _ s'] exI [of _ st']) (simp add: converse_rtranclp_into_rtranclp)
qed

definition busy :: "server \<Rightarrow> nat set" where
  "busy s = {x. \<exists>st. svStreams s x = Some st \<and> smTodo st \<noteq> []}"

lemma busy_idle: "busy s = {} \<longleftrightarrow> all_idle s"
  by (auto simp: busy_def all_idle_def)

lemma publish_all:
  assumes "\<forall>k. \<not> fails k" and "finite (busy (dpServer s))"
  shows "\<exists>s'. (publishes decode fails)\<^sup>*\<^sup>* s s' \<and> all_idle (dpServer s') \<and>
    heard decode (dpServer s') = heard decode (dpServer s) \<and> dpConsumer s' = dpConsumer s \<and> dpTokens s' = dpTokens s"
  using assms(2)
proof (induction "busy (dpServer s)" arbitrary: s rule: finite_psubset_induct)
  case psubset
  show ?case
  proof (cases "busy (dpServer s) = {}")
    case True
    then show ?thesis by (intro exI [of _ s]) (simp add: busy_idle)
  next
    case False
    then obtain x st where x: "svStreams (dpServer s) x = Some st" "smTodo st \<noteq> []" by (auto simp: busy_def)
    from publish_stream [OF assms(1) x(1), of decode] obtain s1 st1 where
      s1: "(publishes decode fails)\<^sup>*\<^sup>* s s1" "svStreams (dpServer s1) = (svStreams (dpServer s))(x \<mapsto> st1)"
        "smTodo st1 = []" "smGot st1 = smGot st" "dpConsumer s1 = dpConsumer s" "dpTokens s1 = dpTokens s" by blast
    then have "busy (dpServer s1) \<subset> busy (dpServer s)" using x by (auto simp: busy_def)
    moreover have "heard decode (dpServer s1) = heard decode (dpServer s)"
      by (rule heard_got) (simp add: s1(2,4) x(1))
    ultimately show ?thesis
      using psubset.hyps(2) [of s1] s1 by (metis rtranclp_trans)
  qed
qed

lemma busy_finite:
  assumes "server_reachable decode fails s"
  shows "finite (busy s)"
proof (rule finite_subset)
  show "finite (dom (svStreams s))" using server_reachable_inv [OF assms] by (simp add: server_inv_def)
qed (auto simp: busy_def)

lemma consume_run:
  assumes "(consumer_step db_fails c (dpKafka s))\<^sup>*\<^sup>* (dpConsumer s) k"
  shows "(deploy_step decode fails db_fails c cf lb)\<^sup>*\<^sup>* s (s\<lparr>dpConsumer := k\<rparr>)"
  using assms
proof (induction rule: rtranclp_induct)
  case (step k k')
  from deploy_step.consume [of db_fails c "s\<lparr>dpConsumer := k\<rparr>" k'] step.hyps(2)
  have "deploy_step decode fails db_fails c cf lb (s\<lparr>dpConsumer := k\<rparr>) (s\<lparr>dpConsumer := k'\<rparr>)" by simp
  with step.IH show ?case by (rule rtranclp.rtrancl_into_rtrancl)
qed simp

text \<open>The batched topics hold no malformed message.\<close>

lemma carried_well_logged:
  assumes "keeps_only (to_tell decode s) kafka"
  shows "well_logged (unmarshal_slice unmarshal_mac) (kafka ''mac-table'')"
    and "well_logged (unmarshal_slice unmarshal_arp) (kafka ''arp-table'')"
proof -
  have offset: "cmOffset (kafka t i ! n) = n" if "n < length (kafka t i)" for t i n
    using keeps_onlyD [OF assms that] by metis
  have "Option.bind (cmValue (kafka ''mac-table'' i ! n)) (unmarshal_slice unmarshal_mac) \<noteq> None"
    if n: "n < length (kafka ''mac-table'' i)" for i n
  proof -
    obtain u m where um: "m \<in> set (to_send u)" "kTopic m = ''mac-table''" "cmValue (kafka ''mac-table'' i ! n) = Some (kValue m)"
      using carried [OF assms n] by metis
    with sent_macs [OF um(1,2)] show ?thesis by (simp add: unmarshal_macs_json)
  qed
  with offset show "well_logged (unmarshal_slice unmarshal_mac) (kafka ''mac-table'')" by (simp add: well_logged_def)
  have "Option.bind (cmValue (kafka ''arp-table'' i ! n)) (unmarshal_slice unmarshal_arp) \<noteq> None"
    if n: "n < length (kafka ''arp-table'' i)" for i n
  proof -
    obtain u m where um: "m \<in> set (to_send u)" "kTopic m = ''arp-table''" "cmValue (kafka ''arp-table'' i ! n) = Some (kValue m)"
      using carried [OF assms n] by metis
    with sent_arps [OF um(1,2)] show ?thesis by (simp add: unmarshal_arps_json)
  qed
  with offset show "well_logged (unmarshal_slice unmarshal_arp) (kafka ''arp-table'')" by (simp add: well_logged_def)
qed

text \<open>All that was heard has been sent and read: the row of an address, unless a write of it expired.\<close>

lemma drained_mac_row:
  assumes "server_reachable decode fails s" and "\<forall>k. \<not> fails k" and "all_idle s"
    and "keeps_only (to_tell decode s) kafka" and "keeps_all (set (sent (svProducer s))) kafka"
    and "groups_inv c kafka k" and "\<forall>i. grFrom (coMacs k) i = 0"
    and "\<forall>i. kafka ''mac-table'' i \<noteq> [] \<longrightarrow> mac_group.drained (kafka ''mac-table'') (macs_of k) i"
    and "\<forall>e \<in> heard_macs decode s. c \<le> mTimestamp e" and "e \<in> heard_macs decode s"
  shows "\<exists>m \<in> snd ` set (rows (macT (coDb k))). rmMac m = mMacAddress e"
proof -
  let ?log = "kafka ''mac-table''"
  note macs = partitioned_macs [OF assms(1-3) kept_partitions [OF assms(1-5)]]
  from macs(3) [OF assms(10)] obtain i n where n: "n < length (?log i)"
    "e \<in> set (entries_in (unmarshal_slice unmarshal_mac) (?log i ! n))" by blast
  then have "?log i \<noteq> []" by auto
  with assms(8) have drained: "mac_group.drained ?log (macs_of k) i" by blast
  have inv: "mac_group.group_inv c (unmarshal_slice unmarshal_mac) ?log (macs_of k)"
    using assms(6) by (simp add: groups_inv_def)
  from mac_group.drained_stored [OF inv drained n(1) _ n(2)] assms(7) obtain e' where
    e': "e' \<in> all_entries (unmarshal_slice unmarshal_mac) ?log" "mac_entry_key e' = mac_entry_key e"
    "get mac_key (macT (coDb k)) (mac_entry_key e) = Some (mac_row_of e') \<or> mTimestamp e' < c"
    by (auto simp: mac_group.stored_def mac_row_of_def macs_of_def)
  with macs(2) assms(9) have row: "get mac_key (macT (coDb k)) (mac_entry_key e) = Some (mac_row_of e')" by fastforce
  have "rmMac (mac_row_of e') = mMacAddress e" using e'(2) by (simp add: mac_row_of_def)
  with get_row_mem [OF row, THEN conjunct1] show ?thesis by blast
qed

lemma heard_macs_same: "heard decode v = heard decode s \<Longrightarrow> heard_macs decode v = heard_macs decode s"
  by (simp add: heard_macs_def)

text \<open>The collector sends what is left, then the consumer reads all there is.\<close>

lemma mac_rows_catch_up:
  assumes "deployed decode fails db_fails c cf lb s"
    and "\<forall>k. \<not> fails k" and "\<forall>i. grFrom (coMacs (dpConsumer s)) i = 0"
    and "\<forall>e \<in> heard_macs decode (dpServer s). c \<le> mTimestamp e"
  shows "\<exists>s'. (deploy_step decode fails (\<lambda>_. False) c cf lb)\<^sup>*\<^sup>* s s' \<and> dpTokens s' = dpTokens s \<and>
    (\<forall>e \<in> heard_macs decode (dpServer s). \<exists>m \<in> snd ` set (rows (macT (coDb (dpConsumer s')))). rmMac m = mMacAddress e)"
proof -
  from publish_all [OF assms(2) busy_finite [OF deployedD(1) [OF assms(1)]]] obtain s1 where
    s1: "(publishes decode fails)\<^sup>*\<^sup>* s s1" "all_idle (dpServer s1)" "heard decode (dpServer s1) = heard decode (dpServer s)"
      "dpConsumer s1 = dpConsumer s" "dpTokens s1 = dpTokens s" by blast
  have "deployed decode fails db_fails c cf lb s1"
    using assms(1) publishes_steps [OF s1(1)] unfolding deployed_def by (rule rtranclp_trans)
  note sys = deployedD [OF this]
  note logged = carried_well_logged [OF sys(2)]
  have "cmOffset (dpKafka s1 t i ! n) = n" if "n < length (dpKafka s1 t i)" for t i n
    using keeps_onlyD [OF sys(2) that] by metis
  then obtain k where k: "(consumer_step (\<lambda>_. False) c (dpKafka s1))\<^sup>*\<^sup>* (dpConsumer s1) k" "groups_inv c (dpKafka s1) k"
    "grFrom (coMacs k) = grFrom (coMacs (dpConsumer s1))"
    "\<forall>i. dpKafka s1 ''mac-table'' i \<noteq> [] \<longrightarrow> mac_group.drained (dpKafka s1 ''mac-table'') (macs_of k) i"
    using consumer_drains [OF db_ok_empty logged _ sys(4,5)] by blast
  have run: "(deploy_step decode fails (\<lambda>_. False) c cf lb)\<^sup>*\<^sup>* s (s1\<lparr>dpConsumer := k\<rparr>)"
    using publishes_steps [OF s1(1)] consume_run [OF k(1)] by (rule rtranclp_trans)
  have from0: "\<forall>i. grFrom (coMacs k) i = 0" by (simp add: k(3) s1(4) assms(3))
  from drained_mac_row [OF sys(1) assms(2) s1(2) sys(2,3) k(2) from0 k(4)] assms(4)
  have "\<forall>e \<in> heard_macs decode (dpServer s). \<exists>m \<in> snd ` set (rows (macT (coDb k))). rmMac m = mMacAddress e"
    unfolding heard_macs_same [OF s1(3)] by blast
  with run s1(5) show ?thesis by (intro exI [of _ "s1\<lparr>dpConsumer := k\<rparr>"]) simp
qed

text \<open>A search request with a term among its terms.\<close>

definition searches_for :: "string \<Rightarrow> call \<Rightarrow> bool" where
  "searches_for term cl \<longleftrightarrow>
     rqPath (clRequest cl) = path_of ''/api/search'' \<and> rqMethod (clRequest cl) = ''POST'' \<and>
     (\<exists>terms. Option.bind (clBody cl) (unmarshal_struct store_terms []) = Some terms \<and> term \<in> set terms)"

text \<open>C4. No address a device reported stays lost. From every state the deployment can reach, whatever
  statements failed and whatever crashed on the way, it can, as soon as the database works, reach a
  state in which a search with a live token, for any address a device had reported and in any spelling
  that normalises to it, finds the address. Sends work, nothing reported is older than the retention has
  reached, and no claim lost its place before its first commit.\<close>

theorem api_can_find_every_mac:
  assumes "deployed decode fails db_fails c cf lb s"
    and "\<forall>k. \<not> fails k" and "\<forall>i. grFrom (coMacs (dpConsumer s)) i = 0"
    and "\<forall>e \<in> heard_macs decode (dpServer s). c \<le> mTimestamp e"
    and "\<And>rs. mset (lbArrange lb rs) = mset rs"
  shows "\<exists>s'. (deploy_step decode fails (\<lambda>_. False) c cf lb)\<^sup>*\<^sup>* s s' \<and> dpTokens s' = dpTokens s \<and>
    (\<forall>e \<in> heard_macs decode (dpServer s). \<forall>cn cl term.
       admitted lb (dpTokens s) cn cl \<longrightarrow> \<not> cnFails cn 0 \<longrightarrow> searches_for term cl \<longrightarrow>
       MacRe (TrimSpace term) \<longrightarrow> to_lower (mMacAddress e) \<in> set (normalizeMac (TrimSpace term)) \<longrightarrow>
       (\<exists>rsp. fst (serve cf lb (cn, cl) (web_of s')) = Json 200 (search_response_json rsp) \<and>
          (\<exists>r \<in> set (spResults rsp). srMac r = mMacAddress e) \<and> TrimSpace term \<notin> set (spNotFound rsp)))"
proof -
  from mac_rows_catch_up [OF assms(1-4)] obtain s' where
    s': "(deploy_step decode fails (\<lambda>_. False) c cf lb)\<^sup>*\<^sup>* s s'" "dpTokens s' = dpTokens s"
    and stored: "\<forall>e \<in> heard_macs decode (dpServer s).
      \<exists>m \<in> snd ` set (rows (macT (coDb (dpConsumer s')))). rmMac m = mMacAddress e" by blast
  have route: "(''/api/search'', SearchApi) \<in> data_paths" by (simp add: data_paths_def)
  have found: "\<exists>rsp. fst (serve cf lb (cn, cl) (web_of s')) = Json 200 (search_response_json rsp) \<and>
      (\<exists>r \<in> set (spResults rsp). srMac r = mMacAddress e) \<and> TrimSpace term \<notin> set (spNotFound rsp)"
    if e: "e \<in> heard_macs decode (dpServer s)" and adm: "admitted lb (dpTokens s) cn cl" and up: "\<not> cnFails cn 0"
      and asks: "searches_for term cl"
      and mac: "MacRe (TrimSpace term)" "to_lower (mMacAddress e) \<in> set (normalizeMac (TrimSpace term))"
    for e cn cl "term"
  proof -
    from asks obtain terms where rq: "rqPath (clRequest cl) = path_of ''/api/search''" "rqMethod (clRequest cl) = ''POST''"
      and body: "Option.bind (clBody cl) (unmarshal_struct store_terms []) = Some terms" "term \<in> set terms"
      by (auto simp: searches_for_def)
    from stored e obtain m where
      m: "m \<in> snd ` set (rows (macT (coDb (dpConsumer s'))))" "rmMac m = mMacAddress e" by blast
    from mac_term_answered [OF body mac(1) m(1) _ assms(5), of "cnLookupHost cn"] mac(2) m(2) obtain rsp where
      "SearchHandler (cnLookupHost cn) (lbArrange lb) False (coDb (dpConsumer s')) ''POST'' (clBody cl) = Reply 200 rsp"
      "\<exists>r \<in> set (spResults rsp). srMac r = mMacAddress e" "TrimSpace term \<notin> set (spNotFound rsp)" by auto
    moreover have "fst (serve cf lb (cn, cl) (web_of s')) = fst (run_endpoint cf lb cn cl SearchApi (web_of s'))"
      by (rule serve_admitted [OF _ route rq(1)]) (simp add: web_of_def s'(2) adm)
    ultimately show ?thesis using up rq(2) by (auto simp: respond_def web_of_def)
  qed
  show ?thesis
    by (rule exI [of _ s'], intro conjI ballI allI impI, rule s'(1), rule s'(2), rule found)
qed

subsection \<open>Witnesses\<close>

text \<open>A run of the collector alone, with one partition per topic.\<close>

definition topics_of :: "kmsg list \<Rightarrow> kafka" where
  "topics_of ms = foldl (\<lambda>kafka m. kafka_append m 0 kafka) (\<lambda>_ _. []) ms"

lemma SendMessage_sent:
  "SendMessage fails m p = (err, q) \<Longrightarrow> sent q = (if err = None then sent p @ [m] else sent p)"
  by (auto simp: SendMessage_def split: if_splits)

lemma server_step_sent:
  assumes "server_step decode fails s v"
  obtains "sent (svProducer v) = sent (svProducer s)" | m where "sent (svProducer v) = sent (svProducer s) @ [m]"
  using assms
proof cases
  case (Send c st m ms p)
  with SendMessage_sent [OF Send(4)] that(2) show ?thesis by simp
next
  case (Fail c st m ms err p)
  with SendMessage_sent [OF Fail(4)] that(1) show ?thesis by simp
qed (use that(1) in simp_all)

definition collected :: "server \<Rightarrow> deployment" where
  "collected v = \<lparr>dpServer = v, dpKafka = topics_of (sent (svProducer v)), dpConsumer = consumer_start empty_db,
     dpTokens = empty_table\<rparr>"

lemma deployed_collected:
  assumes "server_reachable decode fails v"
  shows "deployed decode fails db_fails c cf lb (collected v)"
  using assms
proof (induction rule: server_reachable_induct)
  case start
  then show ?case
    by (simp add: deployed_def deploy_start_def collected_def topics_of_def server_start_def)
next
  case (step v v')
  from step.hyps(2) have "deploy_step decode fails db_fails c cf lb (collected v) (collected v')"
  proof (cases rule: server_step_sent)
    case 1
    with deploy_step.collect [of decode fails "collected v" v'] step.hyps(2) show ?thesis
      by (simp add: collected_def)
  next
    case (2 m)
    with deploy_step.publish [of decode fails "collected v" v' m db_fails c cf lb 0] step.hyps(2) show ?thesis
      by (simp add: collected_def topics_of_def)
  qed
  with step.IH show ?case unfolding deployed_def by (rule rtranclp.rtrancl_into_rtrancl)
qed

text \<open>The topics of the two servers of \<open>System\<close>.\<close>

lemma topics_of_two:
  assumes "kTopic u \<noteq> kTopic m" and "a = \<lparr>cmOffset = 0, cmTopic = kTopic u, cmValue = Some (kValue u)\<rparr>"
    and "b = \<lparr>cmOffset = 0, cmTopic = kTopic m, cmValue = Some (kValue m)\<rparr>"
  shows "topics_of [u, m] = kafka_of [a, b]" and "topics_of [u, m] = kafka_of [b, a]"
proof -
  have topic: "kafka_append x 0 kafka t i =
      (if t = kTopic x \<and> i = 0 then kafka t i @ [\<lparr>cmOffset = length (kafka t i), cmTopic = t, cmValue = Some (kValue x)\<rparr>]
       else kafka t i)" for x kafka t i
    by (simp add: kafka_append_def)
  show "topics_of [u, m] = kafka_of [a, b]"
    using assms(1) by (intro ext) (auto simp: topics_of_def topic kafka_of_def assms(2,3))
  show "topics_of [u, m] = kafka_of [b, a]"
    using assms(1) by (intro ext) (auto simp: topics_of_def topic kafka_of_def assms(2,3))
qed

lemma demo_topics: "topics_of (sent (svProducer demo_server)) = demo_kafka"
  unfolding demo_kafka_def demo_server_def two_streams_def server.select_convs producer.select_convs
  by (rule topics_of_two(1)) (simp_all add: demo_mac_msg_def demo_vlan_claim_def demo_to_send vlan_msg_def)

lemma access_topics: "topics_of (sent (svProducer access_server)) = access_kafka"
  unfolding access_kafka_def two_streams_def server.select_convs producer.select_convs
  by (rule topics_of_two(2)) (simp_all add: demo_access_claim_def demo_vlan_claim_def demo_to_send vlan_msg_def if_msg_def)

text \<open>An administrator creates a token: it opens the data paths from then on.\<close>

lemma issue_token:
  assumes "dpTokens s = empty_table"
  shows "\<exists>t. deploy_step decode fails db_fails c demo_config demo_libs s (s\<lparr>dpTokens := t\<rparr>) \<and>
    (\<forall>cl now. rqAuth (clRequest cl) = ''Bearer pfk_AQ'' \<longrightarrow> admitted demo_libs t (calm now) cl)"
proof -
  let ?cl = "demo_call ''POST'' [''api'', ''tokens''] [] (Some netops) never_body"
  let ?row = "\<lparr>tkUser = ''ann'', tkName = ''ci'', tkHash = ''pfk_AQ'', tkHint = take 8 ''pfk_AQ'' @ ellipsis,
    tkCreated = 5, tkExpires = None, tkLastUsed = None, tkRevoked = None\<rparr>"
  let ?t = "\<lparr>rows = [(1, ?row)], next_id = 2\<rparr>"
  have user: "ctx_user (Some netops) = ''ann''"
    by (simp add: ctx_user_def ctx_attr_def netops_def SAMLUser_def user_attributes_def)
  have answer: "ServeHTTP demo_config (env_of demo_libs (calm 5) (web_of s))
      (demo_request ''POST'' [''api'', ''tokens''] [] (Some netops)) = Answer (CreateToken ''ann'')"
    by (simp add: ServeHTTP_def demo_request_def create_route exact_route_def route_patterns Let_def protectAdmin_def
        protect_def isAdmin_def hasAdminRole_def demo_config_def env_of_def demo_libs_def user)
       (simp add: netops_def roleClaimNames_def)
  have "decode_create never_body = Some \<lparr>crName = ''ci'', crExpiresDays = Some 0\<rparr>"
    by (simp add: decode_create_def never_body_def unmarshal_struct_def store_create_def key_is_def int_ptr_def)
  moreover have "b64_encode [1] = ''AQ''" by (simp add: Let_def b64_char_def)
  ultimately have create: "create_check (\<lambda>s. s) False 5 5 empty_table ''ann'' never_body (Some [1]) =
      Inr (''ci'', None, \<lparr>ttPlain = ''pfk_AQ'', ttHash = ''pfk_AQ'', ttHint = take 8 ''pfk_AQ'' @ ellipsis\<rparr>)"
    by (simp add: create_check_def TrimSpace_ci maxTokenNameLen_def maxExpiryDays_def maxActiveTokens_def
        active_count_def empty_table_def generateToken_def Let_def apiTokenPrefix_def del: b64_encode.simps)
  have "wsTokens (snd (serve demo_config demo_libs (calm 5, ?cl) (web_of s))) = ?t"
    using answer create
    by (simp add: serve_def demo_call_def calm_def demo_libs_def CreateHandler_def create_insert_def web_of_def assms
        case_prod_beta)
       (simp add: empty_table_def)
  with deploy_step.request [of demo_config demo_libs "(calm 5, ?cl)" s, OF prod.collapse [symmetric]]
  have "deploy_step decode fails db_fails c demo_config demo_libs s (s\<lparr>dpTokens := ?t\<rparr>)" by metis
  moreover have "admitted demo_libs ?t (calm now) cl" if "rqAuth (clRequest cl) = ''Bearer pfk_AQ''" for cl now
  proof -
    have "TrimSpace ''pfk_AQ'' = ''pfk_AQ''" by (rule TrimSpace_plain) simp_all
    with that have "presents ''pfk_AQ'' cl" by (simp add: presents_def has_prefix_def apiTokenPrefix_def)
    moreover have "LookupToken (lbDigest demo_libs) (cnGateFails (calm now)) (cnNow (calm now)) ?t ''pfk_AQ'' =
        Inr (1, ''ann'')"
      by (simp add: LookupToken_def demo_libs_def calm_def live_def)
    ultimately show ?thesis unfolding admitted_def by blast
  qed
  ultimately show ?thesis by blast
qed

lemma deployed_read:
  assumes "server_reachable decode fails v" and "(consumer_step db_fails c (topics_of (sent (svProducer v))))\<^sup>*\<^sup>* (consumer_start empty_db) k"
  obtains s where "deployed decode fails db_fails c demo_config demo_libs s" "dpServer s = v"
    "dpKafka s = topics_of (sent (svProducer v))" "dpConsumer s = k"
    "\<And>cl now. rqAuth (clRequest cl) = ''Bearer pfk_AQ'' \<Longrightarrow> admitted demo_libs (dpTokens s) (calm now) cl"
proof -
  let ?s = "(collected v)\<lparr>dpConsumer := k\<rparr>"
  have "(deploy_step decode fails db_fails c demo_config demo_libs)\<^sup>*\<^sup>* (collected v) ?s"
    by (rule consume_run) (simp add: collected_def assms(2))
  with deployed_collected [OF assms(1)] have s: "deployed decode fails db_fails c demo_config demo_libs ?s"
    unfolding deployed_def by (rule rtranclp_trans)
  have "dpTokens ?s = empty_table" by (simp add: collected_def)
  from issue_token [OF this] obtain t where
    t: "deploy_step decode fails db_fails c demo_config demo_libs ?s (?s\<lparr>dpTokens := t\<rparr>)"
    "\<forall>cl now. rqAuth (clRequest cl) = ''Bearer pfk_AQ'' \<longrightarrow> admitted demo_libs t (calm now) cl" by blast
  from s t(1) have "deployed decode fails db_fails c demo_config demo_libs (?s\<lparr>dpTokens := t\<rparr>)"
    unfolding deployed_def by (rule rtranclp.rtrancl_into_rtrancl)
  with t(2) that show thesis by (simp add: collected_def)
qed

theorem api_lists_what_was_pushed_witness:
  "\<exists>s vs. deployed demo_decode (\<lambda>_. False) (\<lambda>_. False) 0 demo_config demo_libs s \<and>
     fst (serve demo_config demo_libs (calm 99, demo_call ''GET'' [''api'', ''vlans''] ''Bearer pfk_AQ'' None None) (web_of s)) =
       Json 200 (vlans_response_json vs) \<and> vrVlanID ` set vs = {10} \<and>
     \<lparr>vrVlanID = 10, vrName = Some ''users''\<rparr> \<in> set vs"
proof -
  let ?cl = "demo_call ''GET'' [''api'', ''vlans''] ''Bearer pfk_AQ'' None None"
  obtain k where k: "(consumer_step (\<lambda>_. False) 0 demo_kafka)\<^sup>*\<^sup>* (consumer_start empty_db) k" "rows_read demo_kafka k"
    using demo_consumer by blast
  from deployed_read [OF demo_server_reachable, unfolded demo_topics, OF k(1)] obtain s where
    s: "deployed demo_decode (\<lambda>_. False) (\<lambda>_. False) 0 demo_config demo_libs s" "dpServer s = demo_server"
      "dpKafka s = demo_kafka" "dpConsumer s = k"
      "\<And>cl now. rqAuth (clRequest cl) = ''Bearer pfk_AQ'' \<Longrightarrow> admitted demo_libs (dpTokens s) (calm now) cl" by blast
  have cl: "rqAuth (clRequest ?cl) = ''Bearer pfk_AQ''" "rqPath (clRequest ?cl) = path_of ''/api/vlans''"
    "rqMethod (clRequest ?cl) = ''GET''" "clQuery ?cl ''node_id'' = ''sw1''" "\<not> cnFails (calm 99) 0"
    by (simp_all add: demo_call_def demo_request_def path_of_def calm_def)
  from api_lists_what_was_pushed [OF s(1) never never _ _ _ s(5) [OF cl(1)] cl(2-4) _ cl(5)] s(1-4) k(2) demo_idle
  show ?thesis by (auto simp: demo_heard_entries(1) newest_vlan_def)
qed

theorem api_shows_newest_port_witness:
  "\<exists>s res. deployed access_decode (\<lambda>_. False) (\<lambda>_. False) 0 demo_config demo_libs s \<and>
     fst (serve demo_config demo_libs (calm 99, (demo_call ''GET'' [''api'', ''port''] ''Bearer pfk_AQ'' None None)\<lparr>clQuery :=
       \<lambda>q. if q = ''node_id'' then ''sw1'' else ''GigabitEthernet1/0/4''\<rparr>) (web_of s)) = Json 200 (port_result_json res) \<and>
     prDescription res = Some ''lab'' \<and> prAccessVlan res = 10 \<and> prAccessName res = Some ''users'' \<and>
     prVoiceVlan res = None"
proof -
  let ?cl = "(demo_call ''GET'' [''api'', ''port''] ''Bearer pfk_AQ'' None None)\<lparr>clQuery :=
       \<lambda>q. if q = ''node_id'' then ''sw1'' else ''GigabitEthernet1/0/4''\<rparr>"
  obtain k where k: "(consumer_step (\<lambda>_. False) 0 access_kafka)\<^sup>*\<^sup>* (consumer_start empty_db) k" "rows_read access_kafka k"
    using access_consumer by blast
  from deployed_read [OF access_reachable, unfolded access_topics, OF k(1)] obtain s where
    s: "deployed access_decode (\<lambda>_. False) (\<lambda>_. False) 0 demo_config demo_libs s" "dpServer s = access_server"
      "dpKafka s = access_kafka" "dpConsumer s = k"
      "\<And>cl now. rqAuth (clRequest cl) = ''Bearer pfk_AQ'' \<Longrightarrow> admitted demo_libs (dpTokens s) (calm now) cl" by blast
  have cl: "rqAuth (clRequest ?cl) = ''Bearer pfk_AQ''" "rqPath (clRequest ?cl) = path_of ''/api/port''"
    "rqMethod (clRequest ?cl) = ''GET''" "\<not> cnFails (calm 99) 0"
    by (simp_all add: demo_call_def demo_request_def path_of_def calm_def)
  have fresh: "\<forall>v \<in> heard_vlans access_decode access_server. 0 \<le> vTimestamp v"
    "\<forall>i \<in> heard_ifs access_decode access_server. 0 \<le> iTimestamp i"
    unfolding access_heard by (simp_all add: demo_vlan_entry_def demo_port_def)
  have newest: "newest_if (heard_ifs access_decode access_server) demo_port" by (simp add: access_heard newest_if_def)
  have port: "clQuery ?cl ''node_id'' = iNodeID demo_port" "clQuery ?cl ''port'' = iName demo_port"
    "iNodeID demo_port \<noteq> []" "iName demo_port \<noteq> []" by (simp_all add: demo_port_def)
  have read: "rows_read (dpKafka s) (dpConsumer s)" by (simp add: s(3,4) k(2))
  from api_shows_newest_port [OF s(1) never never _ read _ _ _ s(5) [OF cl(1)] cl(2-4) port, unfolded s(2),
      OF two_streams_idle fresh newest]
  obtain res where res: "fst (serve demo_config demo_libs (calm 99, ?cl) (web_of s)) = Json 200 (port_result_json res)"
    and told: "port_told (heard_ifs access_decode access_server) (heard_vlans access_decode access_server) demo_port res"
    by blast
  from port_told_demo [OF told [unfolded access_heard]] s(1) res show ?thesis by blast
qed

text \<open>A search for the address of \<open>demo_macs\<close>.\<close>

abbreviation demo_search :: call where
  "demo_search \<equiv> demo_call ''POST'' [''api'', ''search''] ''Bearer pfk_AQ'' None
     (Some (JObj [(''terms'', JArr [JStr ''0011.2233.4455''])]))"

lemma demo_search_call:
  "rqAuth (clRequest demo_search) = ''Bearer pfk_AQ''" "rqPath (clRequest demo_search) = path_of ''/api/search''"
  "rqMethod (clRequest demo_search) = ''POST''" "clBody demo_search = Some (JObj [(''terms'', JArr [JStr ''0011.2233.4455''])])"
  by (simp_all add: demo_call_def demo_request_def path_of_def)

theorem api_can_find_every_mac_witness:
  "\<exists>s s' rsp. deployed demo_decode (\<lambda>_. False) (\<lambda>n. n < 7) 0 demo_config demo_libs s \<and>
     dpConsumer s = consumer_start empty_db \<and>
     (deploy_step demo_decode (\<lambda>_. False) (\<lambda>_. False) 0 demo_config demo_libs)\<^sup>*\<^sup>* s s' \<and>
     fst (serve demo_config demo_libs (calm 99, demo_search) (web_of s')) = Json 200 (search_response_json rsp) \<and>
     (\<exists>r \<in> set (spResults rsp). srMac r = ''0011.2233.4455'')"
proof -
  obtain s where s: "deployed demo_decode (\<lambda>_. False) (\<lambda>n. n < 7) 0 demo_config demo_libs s" "dpServer s = demo_server"
      "dpKafka s = topics_of (sent (svProducer demo_server))" "dpConsumer s = consumer_start empty_db"
      "\<And>cl now. rqAuth (clRequest cl) = ''Bearer pfk_AQ'' \<Longrightarrow> admitted demo_libs (dpTokens s) (calm now) cl"
    by (rule deployed_read [where db_fails = "\<lambda>n. n < 7" and c = 0, OF demo_server_reachable rtranclp.rtrancl_refl]) (rule that)
  have from0: "\<forall>i. grFrom (coMacs (dpConsumer s)) i = 0" by (simp add: s(4) consumer_start_def group_start_def)
  have asks: "searches_for ''0011.2233.4455'' demo_search"
    using demo_term(1) unfolding searches_for_def demo_search_call by simp
  have mac: "MacRe (TrimSpace ''0011.2233.4455'')"
    "to_lower (mMacAddress (hd (mac_entries demo_macs))) \<in> set (normalizeMac (TrimSpace ''0011.2233.4455''))"
    "mMacAddress (hd (mac_entries demo_macs)) = ''0011.2233.4455''"
    "hd (mac_entries demo_macs) \<in> heard_macs demo_decode (dpServer s)"
    "\<forall>e \<in> heard_macs demo_decode (dpServer s). 0 \<le> mTimestamp e"
    using demo_term(2-4) by (simp_all add: s(2) demo_heard_entries(2) demo_mac_entries)
  have up: "\<not> cnFails (calm 99) 0" "mset (lbArrange demo_libs rs) = mset rs" for rs
    by (simp_all add: calm_def demo_libs_def)
  from api_can_find_every_mac [OF s(1) never from0 mac(5) up(2)] obtain s' where
    s': "(deploy_step demo_decode (\<lambda>_. False) (\<lambda>_. False) 0 demo_config demo_libs)\<^sup>*\<^sup>* s s'"
    and found: "\<forall>e \<in> heard_macs demo_decode (dpServer s). \<forall>cn cl term.
       admitted demo_libs (dpTokens s) cn cl \<longrightarrow> \<not> cnFails cn 0 \<longrightarrow> searches_for term cl \<longrightarrow>
       MacRe (TrimSpace term) \<longrightarrow> to_lower (mMacAddress e) \<in> set (normalizeMac (TrimSpace term)) \<longrightarrow>
       (\<exists>rsp. fst (serve demo_config demo_libs (cn, cl) (web_of s')) = Json 200 (search_response_json rsp) \<and>
          (\<exists>r \<in> set (spResults rsp). srMac r = mMacAddress e) \<and> TrimSpace term \<notin> set (spNotFound rsp))"
    by (elim exE conjE) (rule that)
  from found [rule_format, OF mac(4) s(5) [OF demo_search_call(1)] up(1) asks mac(1,2)] obtain rsp where
    "fst (serve demo_config demo_libs (calm 99, demo_search) (web_of s')) = Json 200 (search_response_json rsp)"
    "\<exists>r \<in> set (spResults rsp). srMac r = ''0011.2233.4455''" unfolding mac(3) by (elim exE conjE) (rule that)
  from s(1,4) s' this show ?thesis by (intro exI [of _ s] exI [of _ s'] exI [of _ rsp] conjI)
qed

theorem api_tells_what_was_heard_witness:
  "\<exists>s rsp. deployed demo_decode (\<lambda>_. False) (\<lambda>_. False) 0 demo_config demo_libs s \<and>
     fst (serve demo_config demo_libs (calm 99, demo_search) (web_of s)) = Json 200 (search_response_json rsp) \<and>
     spResults rsp \<noteq> [] \<and>
     (\<forall>r \<in> set (spResults rsp). srNode r = ''sw1'' \<and> srInterface r = Some ''GigabitEthernet1/0/1'' \<and> srIp r = None)"
proof -
  obtain k where k: "(consumer_step (\<lambda>_. False) 0 demo_kafka)\<^sup>*\<^sup>* (consumer_start empty_db) k" "macs_committed demo_kafka k"
    using demo_consumer by blast
  from deployed_read [OF demo_server_reachable, unfolded demo_topics, OF k(1)] obtain s where
    s: "deployed demo_decode (\<lambda>_. False) (\<lambda>_. False) 0 demo_config demo_libs s" "dpServer s = demo_server"
      "dpKafka s = demo_kafka" "dpConsumer s = k"
      "\<And>cl now. rqAuth (clRequest cl) = ''Bearer pfk_AQ'' \<Longrightarrow> admitted demo_libs (dpTokens s) (calm now) cl" by blast
  from search_finds_every_mac [OF demo_server_reachable never demo_idle demo_kafka_keeps k _ _ demo_term(1),
      of "hd (mac_entries demo_macs)" "''0011.2233.4455''" "lbArrange demo_libs" "cnLookupHost (calm 99)"] demo_term(2-4)
  obtain rsp where rsp: "SearchHandler (cnLookupHost (calm 99)) (lbArrange demo_libs) False (coDb k) ''POST'' (clBody demo_search) = Reply 200 rsp"
      "spResults rsp \<noteq> []"
    unfolding demo_search_call by (fastforce simp: demo_heard_entries(2) demo_mac_entries demo_libs_def)
  have "(''/api/search'', SearchApi) \<in> data_paths" by (simp add: data_paths_def)
  from serve_admitted [OF _ this demo_search_call(2), of demo_libs "web_of s" "calm 99" demo_config] s(5) [OF demo_search_call(1)]
  have "fst (serve demo_config demo_libs (calm 99, demo_search) (web_of s)) =
      respond search_response_json (SearchHandler (cnLookupHost (calm 99)) (lbArrange demo_libs) False (coDb k) ''POST'' (clBody demo_search))"
    by (simp add: web_of_def s(4) demo_search_call(3) del: fun_upd_apply) (simp add: calm_def)
  with rsp(1) have reply: "fst (serve demo_config demo_libs (calm 99, demo_search) (web_of s)) = Json 200 (search_response_json rsp)"
    by (simp add: respond_def)
  from api_tells_what_was_heard [OF s(1) demo_saml _ demo_search_call(2) reply] obtain rsp' where
    "search_response_json rsp = search_response_json rsp'" "\<forall>r \<in> set (spResults rsp'). result_heard demo_decode demo_server r"
    by (auto simp: demo_libs_def s(2))
  moreover from this(2) have "\<forall>r \<in> set (spResults rsp'). srNode r = ''sw1'' \<and> srInterface r = Some ''GigabitEthernet1/0/1'' \<and> srIp r = None"
    by (simp add: result_heard_def demo_no_arps demo_heard_entries(2) demo_mac_entries)
  moreover from calculation(1) rsp(2) have "spResults rsp' \<noteq> []" by (auto simp: search_response_json_def)
  ultimately show ?thesis using s(1) reply by (intro exI [of _ s] exI [of _ rsp']) simp
qed

end
