(* ===== verification/TokenRace.thy ===== *)
theory TokenRace imports Tokens begin

text \<open>
  Requests of the token module that overlap. \<open>CreateHandler\<close> counts the active tokens in one statement
  and inserts in another; between the two the request is pending, and other requests of any user may
  run. The step relation interleaves the statements of all requests under one database clock.
\<close>

record token_system =
  tsTable :: "token_row table"
  tsNow :: instant
  tsPending :: "(string \<times> string \<times> instant option \<times> token_text) list"

definition tokens_start :: "instant \<Rightarrow> token_system" where
  "tokens_start now = \<lparr>tsTable = empty_table, tsNow = now, tsPending = []\<rparr>"

definition pending_of :: "string \<Rightarrow> token_system \<Rightarrow> nat" where
  "pending_of user s = length (filter (\<lambda>up. fst up = user) (tsPending s))"

text \<open>
  \<open>k\<close> is the number of create requests of one user that are served at once. \<open>check\<close>: the first half of
  a create; \<open>insert\<close>: its INSERT, or the end of the request without one; the other steps are whole
  requests, and time.
\<close>

inductive token_step :: "(string \<Rightarrow> string) \<Rightarrow> nat \<Rightarrow> token_system \<Rightarrow> token_system \<Rightarrow> bool"
  for digest :: "string \<Rightarrow> string" and k :: nat
where
  check: "pending_of user s < k \<Longrightarrow>
    create_check digest fails clock (tsNow s) (tsTable s) user body raw = Inr p \<Longrightarrow>
    token_step digest k s (s\<lparr>tsPending := (user, p) # tsPending s\<rparr>)"
| insert: "tsPending s = ps @ (user, p) # qs \<Longrightarrow>
    token_step digest k s
      (s\<lparr>tsTable := snd (create_insert fails (tsNow s) user p (tsTable s)), tsPending := ps @ qs\<rparr>)"
| revoke: "token_step digest k s (s\<lparr>tsTable := snd (RevokeHandler fails (tsNow s) user idtext (tsTable s))\<rparr>)"
| touch: "token_step digest k s (s\<lparr>tsTable := touch_last_used (tsNow s) i (tsTable s)\<rparr>)"
| wait: "tsNow s \<le> now \<Longrightarrow> token_step digest k s (s\<lparr>tsNow := now\<rparr>)"

text \<open>Active and pending tokens of a user together.\<close>

definition claimed :: "string \<Rightarrow> token_system \<Rightarrow> nat" where
  "claimed user s = active_count user (tsNow s) (tsTable s) + pending_of user s"

definition within :: "nat \<Rightarrow> token_system \<Rightarrow> bool" where
  "within k s \<longleftrightarrow> table_ok tkHash (tsTable s) \<and>
     (\<forall>user. claimed user s \<le> 9 + k \<and> pending_of user s \<le> k)"

lemma insert_count:
  "active_count u now (snd (create_insert fails now2 user p t)) \<le> active_count u now t + (if u = user then 1 else 0)"
proof -
  obtain nm ex tok where "p = (nm, ex, tok)" by (cases p)
  then show ?thesis using active_count_insert [of u now fails now2 user nm ex tok t] by simp
qed

lemma check_count:
  "create_check digest fails clock now t user body raw = Inr p \<Longrightarrow> active_count user now t \<le> 9"
  using create_check_Inr [of digest fails clock now t user body raw "fst p" "fst (snd p)" "snd (snd p)"]
  by (simp add: maxActiveTokens_def)

lemma within_step:
  assumes "token_step digest k s s'" and "within k s"
  shows "within k s'"
  using assms(1)
proof cases
  case (check user fails clock body raw p)
  have "active_count user (tsNow s) (tsTable s) \<le> 9" using check(3) by (rule check_count)
  with check(1,2) assms(2) show ?thesis by (auto simp: within_def claimed_def pending_of_def)
next
  case (insert ps user p qs fails)
  have "claimed u s' \<le> claimed u s \<and> pending_of u s' \<le> pending_of u s" for u
    using insert_count [of u "tsNow s" fails "tsNow s" user p "tsTable s"] insert
    by (auto simp: claimed_def pending_of_def)
  moreover have "table_ok tkHash (tsTable s')"
    using assms(2) create_insert_ok insert(1) by (simp add: within_def)
  ultimately show ?thesis using assms(2) unfolding within_def by (meson order_trans)
next
  case (revoke fails user idtext)
  have "claimed u s' \<le> claimed u s \<and> pending_of u s' = pending_of u s" for u
    using RevokeHandler_count revoke by (simp add: claimed_def pending_of_def)
  moreover have "table_ok tkHash (tsTable s')" using assms(2) RevokeHandler_ok revoke by (simp add: within_def)
  ultimately show ?thesis using assms(2) unfolding within_def by (metis order_trans)
next
  case (touch i)
  have "claimed u s' \<le> claimed u s \<and> pending_of u s' = pending_of u s" for u
    using touch_count touch by (simp add: claimed_def pending_of_def)
  moreover have "table_ok tkHash (tsTable s')" using assms(2) touch_ok touch by (simp add: within_def)
  ultimately show ?thesis using assms(2) unfolding within_def by (metis order_trans)
next
  case (wait now)
  have "claimed u s' \<le> claimed u s \<and> pending_of u s' = pending_of u s" for u
    using active_count_mono [OF wait(2), of u "tsTable s"] wait(1) by (simp add: claimed_def pending_of_def)
  moreover have "table_ok tkHash (tsTable s')" using assms(2) wait(1) by (simp add: within_def)
  ultimately show ?thesis using assms(2) unfolding within_def by (metis order_trans)
qed

lemma within_start: "within k (tokens_start now)"
  by (simp add: within_def tokens_start_def claimed_def pending_of_def active_count_def empty_table_def)
    (simp add: table_ok_def)

lemma within_run: "(token_step digest k)\<^sup>*\<^sup>* (tokens_start now) s \<Longrightarrow> within k s"
  by (induction rule: rtranclp_induct) (auto intro: within_start within_step)

subsection \<open>Properties\<close>

text \<open>C22. The token limit under overlapping requests: when at most \<open>k\<close> create requests of a user are served
  at once, in any interleaving of the statements of all requests a user never has more than \<open>9 + k\<close>
  active tokens, pending ones included, from the present on; so the limit of 10 holds when each user's
  create requests come one after another, whatever other users do.\<close>

theorem overlapping_creates_bound:
  assumes "(token_step digest k)\<^sup>*\<^sup>* (tokens_start now0) s" and "tsNow s \<le> now"
  shows "active_count user now (tsTable s) + pending_of user s \<le> 9 + k \<and> table_ok tkHash (tsTable s)"
proof -
  have "within k s" using assms(1) by (rule within_run)
  with active_count_mono [OF assms(2), of user "tsTable s"] show ?thesis
    unfolding within_def claimed_def by (meson add_right_mono order_trans)
qed

theorem overlapping_creates_bound_witness:
  "\<exists>s. (token_step (\<lambda>s. s) 1)\<^sup>*\<^sup>* (tokens_start 5) s \<and> pending_of ''ann'' s = 1 \<and>
     active_count ''ann'' 7 (tsTable s) \<le> 9"
proof -
  let ?s = "tokens_start 5"
  obtain p where p: "create_check (\<lambda>s. s) False 5 5 empty_table ''ann'' never_body (Some [1]) = Inr p"
    by (auto simp: create_check_def decode_create_def never_body_def unmarshal_struct_def store_create_def
        key_is_def int_ptr_def TrimSpace_ci maxTokenNameLen_def maxExpiryDays_def maxActiveTokens_def
        active_count_def empty_table_def generateToken_def Let_def)
  have "token_step (\<lambda>s. s) 1 ?s (?s\<lparr>tsPending := (''ann'', p) # tsPending ?s\<rparr>)"
    by (rule token_step.check [where fails = False and clock = 5 and body = never_body and raw = "Some [1]"])
      (simp_all add: tokens_start_def pending_of_def p)
  then have run: "(token_step (\<lambda>s. s) 1)\<^sup>*\<^sup>* ?s (?s\<lparr>tsPending := (''ann'', p) # tsPending ?s\<rparr>)" by blast
  from overlapping_creates_bound [OF run, of 7 "''ann''"] run show ?thesis
    by (intro exI conjI) (auto simp: tokens_start_def pending_of_def)
qed

end
