(* ===== verification/Spec2Isabelle.thy ===== *)
theory Spec2Isabelle imports ConnLog Dump Deployment TokenRace Startup begin

text \<open>
  A model of the NETCONF MAC database: the programs that collect what Cisco switches push over
  model-driven telemetry, keep it in PostgreSQL, and answer questions about it on the web.

  \<^bold>\<open>The programs.\<close> \<open>collector/main.go\<close> accepts gRPC dial-out streams (\<open>MdtDialout\<close>), decodes each
  message into a tree of GPB-KV fields, parses it by its encoding path (\<open>dispatch\<close>, \<open>publishMAC\<close>,
  \<open>publishARP\<close>, \<open>publishInterface\<close>, \<open>publishVlan\<close>) and publishes JSON to four Kafka topics.
  \<open>consumer/main.go\<close> reads the topics (\<open>ConsumeClaim\<close>): the MAC and ARP topics in batches, the
  interface and VLAN topics row by row, into the four tables of \<open>migrations/001_init.sql\<close>; a
  retention loop deletes what expired. \<open>webapp\<close> serves the tables: term search (\<open>internal/search\<close>),
  port information, port look-up, VLAN lists and reverse DNS (\<open>internal/portinfo\<close>, \<open>portlookup\<close>,
  \<open>vlans\<close>, \<open>rdns\<close>), a paged viewer (\<open>internal/dbview\<close>), API tokens that authenticate programs
  (\<open>internal/tokens\<close>), and the OpenAPI document of all this (\<open>spec.go\<close>, \<open>internal/swagger\<close>), behind
  the SAML session and role checks of \<open>main.go\<close> and \<open>saml.go\<close>.

  \<^bold>\<open>Which theory models what.\<close>
  \<^item> \<open>Prelude\<close>, \<open>GoText\<close>, \<open>Http\<close>: instants, errors, folds; Go's string routines on bytes; replies,
    \<open>strings.TrimSpace\<close>, \<open>strconv.ParseInt\<close> and 64-bit wrap-around.
  \<^item> \<open>Telemetry\<close>, \<open>FieldTree\<close>: the protobuf messages of \<open>proto/telemetry.pb.go\<close>; the tree
    functions of the collector (\<open>findNestedField\<close>, \<open>isIfaceNode\<close>, \<open>collectInterfaces\<close>,
    \<open>expandIfName\<close>). \<open>IpMask\<close>: \<open>maskToPrefixLen\<close> down to \<open>net.ParseIP\<close>.
  \<^item> \<open>Payload\<close>: the JSON values the collector writes and the consumer reads, struct by struct.
    \<open>GoTime\<close>, \<open>JsonText\<close>: the texts of these values as \<open>encoding/json\<close> writes and reads them: RFC 3339
    times down to the calendar, UTF-8, escapes, numbers, the scanner with its nesting limit.
  \<^item> \<open>Collector\<close>, \<open>Samples\<close>, \<open>ConnLog\<close>: the parsers, \<open>dispatch\<close>, the stream loop, and the
    connection wrapper \<open>connLogConn\<close>. The producer state is the list of acknowledged messages.
    \<open>Server\<close>: the streams of many devices on one producer and the graceful shutdown as a step relation
    (\<open>server_step\<close>). \<open>Dump\<close>: the debug dump \<open>dumpFields\<close>, down to \<open>%q\<close> of \<open>fmt\<close>.
  \<^item> \<open>Store\<close>, \<open>Tables\<close>: tables with unique keys and id sequences, the upserts and the delete.
  \<^item> \<open>Consumer\<close>, \<open>Batches\<close>: the batching loops as a state (batch, last message, marks, database)
    and a run over events (message, timer tick, close), the row loops, the retention tick.
  \<^item> \<open>Group\<close>: all claims of a batched topic as a step relation (\<open>group_step\<close>) over one database,
    interleaved with the other topics and the retention, with commits and restarts. \<open>Consumers\<close>: the
    consumer as one step relation (\<open>consumer_step\<close>), the claims of all four topics and the retention
    loop over one database.
  \<^item> \<open>Pipeline\<close>: a telemetry message from \<open>dispatch\<close> to the rows it leaves. \<open>EndToEnd\<close>: from there to
    the answer of the web application. \<open>Network\<close>: the same for many devices and streams. \<open>System\<close>:
    the collector under many devices, Kafka, the whole consumer and the pages, in every interleaving.
    \<open>Deployment\<close>: all programs as one step relation (\<open>deploy_step\<close>), the topics growing under the
    consumer and the web application serving its database, down to what a client of the API gets.
  \<^item> \<open>Dbview\<close>, \<open>Tokens\<close>, \<open>Search\<close>, \<open>Modules\<close>: the handlers of the web modules. A handler is a function
    of the request, the database and the faults; it returns a reply and, where it writes, the database.
    \<open>TokenRace\<close>: the statements of overlapping token requests as a step relation (\<open>token_step\<close>).
  \<^item> \<open>OpenApi\<close>, \<open>ApiDoc\<close>: the fragments of the modules as JSON values, their merge, and what it is for a
    JSON value to conform to a schema of the document. \<open>Viewer\<close>: the JSON of the viewer and token replies.
  \<^item> \<open>Webapp\<close>: the wrappers, what each module registers, the navigation and the handlers of the shell,
    under the routing of \<open>http.ServeMux\<close>. \<open>Service\<close>: the web application as a whole, a function from a
    request and the state (the telemetry tables and the tokens) to what the client sees and the new
    state, run over series of requests (\<open>serve_all\<close>). \<open>Startup\<close>: how the programs read their
    environment, down to \<open>time.ParseDuration\<close>, what makes them end at start, and the retention loop.

  \<^bold>\<open>Interfaces.\<close> \<open>Store\<close> states what a client may rely on after an upsert as locales: \<open>kv_store\<close>
  (look-up after put, an invariant every put keeps), extended by \<open>last_write_store\<close> (the new row does
  not depend on the old one, so a batch may be applied in any order) and \<open>guarded_store\<close> (a row never
  gets older). \<open>Tables\<close> interprets them on the statements of the program: \<open>macs\<close>, \<open>arps\<close> of the
  second kind, \<open>ifs\<close>, \<open>vlans\<close> of the third. \<open>Batches\<close> states what a batching loop needs of its
  statement as \<open>batch_consumer\<close>, proves the loop once, and interprets it for MAC and ARP; \<open>Group\<close>
  extends it to \<open>batch_group\<close> by what the rest of the program may do to the table, and interprets that
  for both topics against the statements the program has. \<open>Consumers\<close> extends \<open>guarded_store\<close> to
  \<open>row_topic\<close>, a table that only the row handler writes and only retention takes from, and interprets
  it for the interface and the VLAN table.

  \<^bold>\<open>What is proved.\<close> Of the collector: the walk over a message terminates and finds exactly the
  interface nodes, both serializer layouts give the same entries, what is sent is a prefix of the
  messages a specification lists; each of many streams sends what it would send alone, and a shutdown
  waits for the devices; payloads survive their JSON text byte for byte; the dump has a line for each
  field. Of the consumer: its loops are runs of the step relations, and a run of the whole is, for a
  batched topic, a run of its group; no mark passes an unwritten entry unless a malformed message
  intervenes, in one claim and in every interleaving; from every state the whole consumer can catch
  up; the tables stay well formed, guarded rows are the newest written; the retention settings decide
  exactly which rows are deleted. Of the whole deployment: whatever fails and whatever crashes, the
  search tells a client nothing a device did not report, field by field; once all is sent and read,
  through any interleaving, crashes and repeated deliveries, the VLAN list is the inventory of what was
  pushed and every field of the port page is that of the newest push or, where it leaves one out, of
  some push of the interface; and from every state one can be reached in which the
  search finds every address reported. Of the web: pages
  cover the table, the inspection page determines the tables, every reply and error of the viewer,
  token gate and limit, completeness and soundness of search, port information and look-up; of the
  data modules but search, the bodies conform to the published document and each status is the one it
  describes for what happened; with SAML on no endpoint answers without credentials,
  what strangers get does not depend on the data, the administrator's endpoints need the role, and
  SAML is never silently off. Over any series of requests the telemetry tables stay as they
  are, issued tokens work until they expire, revoked ones never again, and nobody manages the tokens of
  another. Several properties state where the code falls short of
  what its comments or documents say: an offset passed over pending entries, a failed row passed by
  a later mark, the token limit under overlapping requests, an IP address that search cannot find, a
  page offset that wraps, the reply of the search, retention periods in days, a restart before the
  first commit.

  \<^bold>\<open>Termination and bounds.\<close> Every function is total; there is no fuel. Loops over slices, messages
  and events are recursions on lists. \<open>collect_loop\<close> terminates by the total size of the fields on its
  stack, \<open>dumpFields\<close> by the size of the fields, the trims, \<open>host_tail\<close>, \<open>parse_terms\<close> and the JSON
  scanner by the length of the text left. Integers that cross a
  width are words: protobuf values, VLAN ids, MTUs; row offsets are \<open>wrap64\<close>, durations are bounded as
  \<open>time.ParseDuration\<close> bounds them, with fractions rounded as \<open>float64\<close>. Row counts and ids are unbounded.

  \<^bold>\<open>Parameters.\<close> Code and services outside the repository are arguments of the definitions:
  \<open>decode\<close> (the protobuf decoder), \<open>fails\<close> (Kafka sends), \<open>db_fails\<close> and \<open>q_fails\<close> (statements),
  \<open>snap\<close> (the database each statement of a request sees), \<open>ilike\<close> and \<open>arrange\<close> (ILIKE and the
  collation of an ORDER BY), \<open>digest\<close> (hex of SHA-256), \<open>attr\<close> and \<open>subject\<close> (the SAML session),
  \<open>lookup_host\<close> and \<open>lookup_addr\<close> (DNS), \<open>evRequire\<close> and \<open>evSlo\<close> (the SAML middleware), \<open>getenv\<close>, the
  fields of \<open>saml_world\<close> and the \<open>_ok\<close> tests of \<open>Startup\<close> (files, URLs, connections), \<open>fmPrints\<close>, \<open>fmG64\<close>
  and \<open>fmG32\<close> (Unicode classes and float texts of \<open>fmt\<close>), and the clocks; \<open>Service\<close> gathers those of the
  web as \<open>libs\<close> and \<open>conditions\<close>.
  Kafka puts an acknowledged message at the end of a partition of its topic, perhaps again, perhaps one
  whose send it reports as failed, and gives a claim the messages of its partition in order, their
  offsets counting up by one.

  \<^bold>\<open>Not modelled.\<close> Client options and the closing of clients at the end; log lines; the HTML templates
  and pages, and that a reply to HEAD has no body; path cleaning, hosts and CONNECT in the routing; the
  indentation of the document's text and the merging of repeated slice members; times finer than a
  millisecond; invalid UTF-8 and NUL bytes, which PostgreSQL refuses (they count as database faults);
  time zones of the database; how sarama shares partitions among members; messages Kafka deletes by its own
  retention; the generated gRPC and reflection code.
\<close>

end
